(* ===== verification/Xv6_Prelude.thy ===== *)
theory Xv6_Prelude
  imports Main "HOL-Library.Word"
begin

text \<open>
  Shared vocabulary of the development: the machine integer types, the outcome monad in
  which kernel code is written, its weakest preconditions, loops with early exit, and the
  generic lemmas on lists and words that the components share.
\<close>

unbundle bit_operations_syntax

named_theorems kdefs \<open>definitions of the kernel monad\<close>
named_theorems wp_simps \<open>weakest preconditions of monad operations\<close>

section \<open>Machine integers (types.h)\<close>

type_synonym uchar = "8 word"
type_synonym ushort = "16 word"
type_synonym uint = "32 word"
type_synonym addr = "32 word"
type_synonym byte_mem = "addr \<Rightarrow> uchar"

text \<open>\<open>cint\<close> reads a 32-bit value as a C \<open>int\<close>; \<open>uint_of\<close> is the conversion back.\<close>

definition cint :: "uint \<Rightarrow> int" where
  "cint w = sint w"

definition uint_of :: "int \<Rightarrow> uint" where
  "uint_of i = word_of_int i"

lemma unat32_lt: "unat (a :: uint) < 4294967296"
  using unsigned_less [of a] by simp

lemma cint_minus_one: "cint (- 1) = - 1"
  by (simp add: cint_def)

lemma cint_uint_of: "- (2 ^ 31) \<le> i \<Longrightarrow> i < 2 ^ 31 \<Longrightarrow> cint (uint_of i) = i"
  unfolding cint_def uint_of_def
  by (subst signed_of_int) (simp add: signed_take_bit_int_eq_self)

section \<open>The kernel monad\<close>

text \<open>
  Kernel code runs on a state and has one of four outcomes: it returns, it calls
  \<open>panic\<close> (console.c), it gives up the processor inside \<open>sched\<close> (the state is the one the
  scheduler sees), or it spins for ever on a lock that is held.
\<close>

datatype ('s, 'a) outcome =
    Ok 'a 's
  | Panic string
  | Blocked 's
  | Spins

type_synonym ('s, 'a) K = "'s \<Rightarrow> ('s, 'a) outcome"

definition kret :: "'a \<Rightarrow> ('s, 'a) K" where
  "kret x = (\<lambda>s. Ok x s)"

definition kbind :: "('s, 'a) K \<Rightarrow> ('a \<Rightarrow> ('s, 'b) K) \<Rightarrow> ('s, 'b) K" where
  "kbind m f = (\<lambda>s. case m s of Ok x t \<Rightarrow> f x t | Panic e \<Rightarrow> Panic e
                              | Blocked t \<Rightarrow> Blocked t | Spins \<Rightarrow> Spins)"

definition kgets :: "('s \<Rightarrow> 'a) \<Rightarrow> ('s, 'a) K" where
  "kgets f = (\<lambda>s. Ok (f s) s)"

definition kmod :: "('s \<Rightarrow> 's) \<Rightarrow> ('s, unit) K" where
  "kmod f = (\<lambda>s. Ok () (f s))"

definition kpanic :: "string \<Rightarrow> ('s, 'a) K" where
  "kpanic e = (\<lambda>s. Panic e)"

definition kblock :: "('s, 'a) K" where
  "kblock = (\<lambda>s. Blocked s)"

definition kspin :: "('s, 'a) K" where
  "kspin = (\<lambda>s. Spins)"

definition kwhen :: "bool \<Rightarrow> ('s, unit) K \<Rightarrow> ('s, unit) K" where
  "kwhen b m = (if b then m else kret ())"

text \<open>\<open>kdo\<close> runs statements in order; \<open>kthen m n\<close> is \<open>m; n\<close> where \<open>n\<close> gives the result.\<close>

primrec kdo :: "('s, unit) K list \<Rightarrow> ('s, unit) K" where
  "kdo [] = kret ()"
| "kdo (m # ms) = kbind m (\<lambda>_. kdo ms)"

definition kthen :: "('s, unit) K list \<Rightarrow> ('s, 'a) K \<Rightarrow> ('s, 'a) K" where
  "kthen ms n = kbind (kdo ms) (\<lambda>_. n)"

text \<open>A \<open>for\<close> loop over the elements of an array, with \<open>Some\<close> for a \<open>return\<close> or \<open>goto\<close>
  out of the loop, and one with no early exit.\<close>

primrec kfor :: "('b \<Rightarrow> ('s, 'c option) K) \<Rightarrow> 'b list \<Rightarrow> ('s, 'c option) K" where
  "kfor f [] = kret None"
| "kfor f (x # xs) =
     kbind (f x) (\<lambda>r. case r of None \<Rightarrow> kfor f xs | Some v \<Rightarrow> kret (Some v))"

primrec keach :: "('b \<Rightarrow> ('s, unit) K) \<Rightarrow> 'b list \<Rightarrow> ('s, unit) K" where
  "keach f [] = kret ()"
| "keach f (x # xs) = kbind (f x) (\<lambda>_. keach f xs)"

lemmas k_basic_defs [kdefs] =
  kret_def kbind_def kgets_def kmod_def kpanic_def kblock_def kspin_def kwhen_def kthen_def

lemma kbind_assoc: "kbind (kbind m f) g = kbind m (\<lambda>x. kbind (f x) g)"
  by (rule ext) (simp add: kbind_def split: outcome.split)

lemma kbind_Ok [simp]: "m s = Ok x t \<Longrightarrow> kbind m f s = f x t"
  by (simp add: kbind_def)

lemma kbind_Panic [simp]: "m s = Panic e \<Longrightarrow> kbind m f s = Panic e"
  by (simp add: kbind_def)

lemma kbind_Blocked [simp]: "m s = Blocked t \<Longrightarrow> kbind m f s = Blocked t"
  by (simp add: kbind_def)

lemma kbind_eq_Ok:
  "kbind m f s = Ok y u \<longleftrightarrow> (\<exists>x t. m s = Ok x t \<and> f x t = Ok y u)"
  by (simp add: kbind_def split: outcome.split)

lemma kbind_eq_Blocked:
  "kbind m f s = Blocked u \<longleftrightarrow> m s = Blocked u \<or> (\<exists>x t. m s = Ok x t \<and> f x t = Blocked u)"
  by (simp add: kbind_def split: outcome.split)

lemma k_run [simp]:
  "kret x s = Ok x s" "kgets g s = Ok (g s) s" "kmod h s = Ok () (h s)"
  "kpanic e s = Panic e" "kblock s = Blocked s" "kspin s = Spins"
  by (simp_all add: kdefs)

text \<open>The simplifier contracts \<open>kret x s = Ok x s\<close> to \<open>kret x = Ok x\<close>: the normal forms.\<close>

lemma k_run_eta [simp]:
  "kret x = Ok x" "kblock = Blocked"
  by (simp_all add: kdefs)

lemma kbind_Ok_eta [simp]: "kbind (Ok x) f = f x"
  by (simp add: kdefs)

lemma kbind_Blocked_eta [simp]: "kbind Blocked f = Blocked"
  by (simp add: kdefs)

lemma kbind_kgets [simp]: "kbind (kgets g) f s = f (g s) s" "kbind (kmod h) f' s = f' () (h s)"
  by (simp_all add: kdefs)

lemma kwhen_run [simp]:
  "kwhen True m = m" "kwhen False m = kret ()"
  by (simp_all add: kwhen_def)

section \<open>Weakest preconditions\<close>

text \<open>
  \<open>wp m Q B s\<close>: from \<open>s\<close> the code neither panics nor spins; when it returns the result
  and the state satisfy \<open>Q\<close>, and when it gives up the processor the state satisfies \<open>B\<close>.
\<close>

definition wp :: "('s, 'a) K \<Rightarrow> ('a \<Rightarrow> 's \<Rightarrow> bool) \<Rightarrow> ('s \<Rightarrow> bool) \<Rightarrow> 's \<Rightarrow> bool" where
  "wp m Q B s = (case m s of Ok x t \<Rightarrow> Q x t | Panic _ \<Rightarrow> False | Blocked t \<Rightarrow> B t | Spins \<Rightarrow> False)"

lemma wp_kret [simp, wp_simps]: "wp (Ok x) Q B s = Q x s" "wp (kret x) Q B s = Q x s"
  by (simp_all add: wp_def)

lemma wp_kbind [simp, wp_simps]: "wp (kbind m f) Q B s = wp m (\<lambda>x. wp (f x) Q B) B s"
  by (simp add: wp_def kbind_def split: outcome.split)

lemma wp_kgets [simp, wp_simps]: "wp (kgets f) Q B s = Q (f s) s"
  by (simp add: wp_def)

lemma wp_kmod [simp, wp_simps]: "wp (kmod f) Q B s = Q () (f s)"
  by (simp add: wp_def)

lemma wp_kpanic [simp, wp_simps]: "wp (kpanic e) Q B s = False"
  by (simp add: wp_def)

lemma wp_kblock [simp, wp_simps]: "wp Blocked Q B s = B s" "wp kblock Q B s = B s"
  by (simp_all add: wp_def)

lemma wp_kspin [simp, wp_simps]: "wp kspin Q B s = False"
  by (simp add: wp_def)

lemma wp_kwhen [simp, wp_simps]:
  "wp (kwhen b m) Q B s = (if b then wp m Q B s else Q () s)"
  by (simp add: kwhen_def)

lemma wp_kdo [simp, wp_simps]:
  "wp (kdo []) Q B s = Q () s"
  "wp (kdo (m # ms)) Q B s = wp m (\<lambda>_. wp (kdo ms) Q B) B s"
  by simp_all

lemma wp_kthen [simp, wp_simps]: "wp (kthen ms n) Q B s = wp (kdo ms) (\<lambda>_. wp n Q B) B s"
  by (simp add: kthen_def)

lemma wp_if: "wp (if b then m else n) Q B s = (if b then wp m Q B s else wp n Q B s)"
  by simp

lemma wp_Ok: "m s = Ok x t \<Longrightarrow> wp m Q B s = Q x t"
  by (simp add: wp_def)

lemma wp_mono:
  assumes "wp m Q B s"
    and "\<And>x t. m s = Ok x t \<Longrightarrow> Q x t \<Longrightarrow> Q' x t"
    and "\<And>t. m s = Blocked t \<Longrightarrow> B t \<Longrightarrow> B' t"
  shows "wp m Q' B' s"
  using assms by (auto simp: wp_def split: outcome.splits)

lemma wp_conseq:
  assumes "wp m Q B s" and "\<And>x t. Q x t \<Longrightarrow> Q' x t" and "\<And>t. B t \<Longrightarrow> B' t"
  shows "wp m Q' B' s"
  using assms by (auto simp: wp_def split: outcome.splits)

lemma wp_Ex:
  "wp m Q B s \<Longrightarrow> (\<exists>x t. m s = Ok x t \<and> Q x t) \<or> (\<exists>t. m s = Blocked t \<and> B t)"
  by (auto simp: wp_def split: outcome.splits)

lemma wp_returns:
  "wp m Q (\<lambda>_. False) s \<longleftrightarrow> (\<exists>x t. m s = Ok x t \<and> Q x t)"
  by (auto simp: wp_def split: outcome.splits)

text \<open>The loop rule: an invariant kept by every iteration.\<close>

lemma wp_keach_inv:
  assumes "I s"
    and "\<And>x t. x \<in> set xs \<Longrightarrow> I t \<Longrightarrow> wp (f x) (\<lambda>_. I) B t"
  shows "wp (keach f xs) (\<lambda>_. I) B s"
  using assms
proof (induction xs arbitrary: s)
  case Nil
  then show ?case by simp
next
  case (Cons x xs)
  have "wp (f x) (\<lambda>_. I) B s" using Cons.prems by simp
  moreover have "wp (keach f xs) (\<lambda>_. I) B t" if "I t" for t
    using Cons.IH [OF that] Cons.prems(2) by simp
  ultimately show ?case by (auto intro: wp_conseq)
qed

section \<open>Frame conditions\<close>

text \<open>
  What an operation leaves alone, without running it: \<open>R\<close> relates the states before and
  after an operation that returns, \<open>B\<close> those before and after one that gives up the
  processor. The rules go down the structure of the code.
\<close>

definition keeps :: "('s \<Rightarrow> 's \<Rightarrow> bool) \<Rightarrow> ('s \<Rightarrow> 's \<Rightarrow> bool) \<Rightarrow> ('s, 'a) K \<Rightarrow> bool" where
  "keeps R B m \<longleftrightarrow> (\<forall>s x t. m s = Ok x t \<longrightarrow> R s t) \<and> (\<forall>s t. m s = Blocked t \<longrightarrow> B s t)"

definition keeps_at :: "('s \<Rightarrow> 's \<Rightarrow> bool) \<Rightarrow> ('s \<Rightarrow> 's \<Rightarrow> bool) \<Rightarrow> ('s, 'a) K \<Rightarrow> 's \<Rightarrow> bool" where
  "keeps_at R B m s \<longleftrightarrow> (\<forall>x t. m s = Ok x t \<longrightarrow> R s t) \<and> (\<forall>t. m s = Blocked t \<longrightarrow> B s t)"

lemma keeps_at_all: "keeps R B m \<longleftrightarrow> (\<forall>s. keeps_at R B m s)"
  by (auto simp: keeps_def keeps_at_def)

lemma keeps_kgets_bind: "(\<And>s. keeps_at R B (f (g s)) s) \<Longrightarrow> keeps R B (kbind (kgets g) f)"
  by (simp add: keeps_at_all) (simp add: keeps_at_def)

lemma keepsD:
  "keeps R B m \<Longrightarrow> m s = Ok x t \<Longrightarrow> R s t"
  "keeps R B m \<Longrightarrow> m s = Blocked t \<Longrightarrow> B s t"
  by (auto simp: keeps_def)

lemma keepsI:
  "(\<And>s x t. m s = Ok x t \<Longrightarrow> R s t) \<Longrightarrow> (\<And>s t. m s = Blocked t \<Longrightarrow> B s t) \<Longrightarrow> keeps R B m"
  by (auto simp: keeps_def)

lemma keeps_weaken:
  "keeps R B m \<Longrightarrow> (\<And>s t. R s t \<Longrightarrow> R' s t) \<Longrightarrow> (\<And>s t. B s t \<Longrightarrow> B' s t) \<Longrightarrow> keeps R' B' m"
  by (auto simp: keeps_def)

locale kframe =
  fixes R B :: "'s \<Rightarrow> 's \<Rightarrow> bool"
  assumes R_refl: "R s s"
    and R_trans: "R s t \<Longrightarrow> R t u \<Longrightarrow> R s u"
    and R_then_B: "R s t \<Longrightarrow> B t u \<Longrightarrow> B s u"
begin

lemma keeps_kret: "keeps R B (kret x)" "keeps R B (Ok x)"
  by (auto simp: keeps_def R_refl)

lemma keeps_kgets: "keeps R B (kgets f)"
  by (auto simp: keeps_def R_refl)

lemma keeps_kpanic: "keeps R B (kpanic e)"
  by (simp add: keeps_def)

lemma keeps_kspin: "keeps R B kspin"
  by (simp add: keeps_def)

lemma keeps_kmod: "(\<And>s. R s (f s)) \<Longrightarrow> keeps R B (kmod f)"
  by (auto simp: keeps_def)

lemma keeps_kbind: "keeps R B m \<Longrightarrow> (\<And>x. keeps R B (f x)) \<Longrightarrow> keeps R B (kbind m f)"
  unfolding keeps_def kbind_eq_Ok kbind_eq_Blocked by (meson R_trans R_then_B)

lemma keeps_kwhen: "keeps R B m \<Longrightarrow> keeps R B (kwhen b m)"
  by (auto simp: kwhen_def intro: keeps_kret)

lemma keeps_kdo: "(\<And>m. m \<in> set ms \<Longrightarrow> keeps R B m) \<Longrightarrow> keeps R B (kdo ms)"
  by (induction ms) (auto intro: keeps_kret keeps_kbind)

lemma keeps_kthen: "(\<And>m. m \<in> set ms \<Longrightarrow> keeps R B m) \<Longrightarrow> keeps R B n \<Longrightarrow> keeps R B (kthen ms n)"
  unfolding kthen_def by (intro keeps_kbind keeps_kdo) auto

lemma keeps_keach: "(\<And>x. keeps R B (f x)) \<Longrightarrow> keeps R B (keach f xs)"
  by (induction xs) (auto intro: keeps_kret keeps_kbind)

lemma keeps_kfor: "(\<And>x. keeps R B (f x)) \<Longrightarrow> keeps R B (kfor f xs)"
  by (induction xs) (auto intro!: keeps_kret keeps_kbind split: option.splits)

lemma keeps_if: "(b \<Longrightarrow> keeps R B m) \<Longrightarrow> (\<not> b \<Longrightarrow> keeps R B n) \<Longrightarrow> keeps R B (if b then m else n)"
  by simp

lemma keeps_option: "(x = None \<Longrightarrow> keeps R B m) \<Longrightarrow> (\<And>y. x = Some y \<Longrightarrow> keeps R B (f y)) \<Longrightarrow>
    keeps R B (case x of None \<Rightarrow> m | Some y \<Rightarrow> f y)"
  by (cases x) auto

lemma keeps_sum: "(\<And>y. keeps R B (f y)) \<Longrightarrow> (\<And>y. keeps R B (g y)) \<Longrightarrow> keeps R B (case x of Inl y \<Rightarrow> f y | Inr y \<Rightarrow> g y)"
  by (cases x) auto

lemmas frame_rules = keeps_kret keeps_kgets keeps_kpanic keeps_kspin keeps_kbind keeps_kwhen
  keeps_kdo keeps_kthen keeps_keach keeps_kfor keeps_if keeps_option keeps_sum

end

section \<open>Lists\<close>

text \<open>\<open>index_of P xs\<close> is the position a scan \<open>for (p = a; p < &a[N]; p++) if (P p)\<close> stops at.\<close>

fun index_of :: "('a \<Rightarrow> bool) \<Rightarrow> 'a list \<Rightarrow> nat option" where
  "index_of P [] = None"
| "index_of P (x # xs) = (if P x then Some 0 else map_option Suc (index_of P xs))"

lemma index_of_None: "index_of P xs = None \<longleftrightarrow> (\<forall>x\<in>set xs. \<not> P x)"
  by (induction xs) auto

lemma index_of_Some:
  "index_of P xs = Some i \<longleftrightarrow> i < length xs \<and> P (xs ! i) \<and> (\<forall>j<i. \<not> P (xs ! j))"
proof (induction xs arbitrary: i)
  case Nil
  then show ?case by simp
next
  case (Cons x xs)
  show ?case
    by (cases i) (auto simp: Cons.IH All_less_Suc2)
qed

lemma index_of_SomeD:
  "index_of P xs = Some i \<Longrightarrow> i < length xs \<and> P (xs ! i)"
  by (simp add: index_of_Some)

lemma index_of_lt_length [dest]: "index_of P xs = Some i \<Longrightarrow> i < length xs"
  by (simp add: index_of_Some)

lemma index_of_exists: "i < length xs \<Longrightarrow> P (xs ! i) \<Longrightarrow> \<exists>j. index_of P xs = Some j"
  by (metis index_of_None not_Some_eq nth_mem)

definition upd_at :: "nat \<Rightarrow> ('a \<Rightarrow> 'a) \<Rightarrow> 'a list \<Rightarrow> 'a list" where
  "upd_at i f xs = (if i < length xs then xs[i := f (xs ! i)] else xs)"

lemma length_upd_at [simp]: "length (upd_at i f xs) = length xs"
  by (simp add: upd_at_def)

lemma nth_upd_at:
  "j < length xs \<Longrightarrow> upd_at i f xs ! j = (if j = i then f (xs ! j) else xs ! j)"
  by (auto simp: upd_at_def)

lemma nth_upd_at_same [simp]: "i < length xs \<Longrightarrow> upd_at i f xs ! i = f (xs ! i)"
  by (simp add: nth_upd_at)

lemma nth_upd_at_other [simp]: "j \<noteq> i \<Longrightarrow> upd_at i f xs ! j = xs ! j"
  by (auto simp: upd_at_def)

lemma upd_at_upd_at [simp]: "upd_at i f (upd_at i g xs) = upd_at i (f \<circ> g) xs"
  by (auto simp: upd_at_def)

lemma set_upd_at_subset: "set (upd_at i f xs) \<subseteq> insert (f (xs ! i)) (set xs)"
  by (auto simp: upd_at_def dest!: set_update_subset_insert [THEN subsetD])

section \<open>Little-endian words in byte memory\<close>

text \<open>A 32-bit load and store through a \<open>uint*\<close> on the byte-addressed memory of the x86.\<close>

definition load32 :: "byte_mem \<Rightarrow> addr \<Rightarrow> uint" where
  "load32 m a = ucast (m a) OR push_bit 8 (ucast (m (a + 1)))
     OR push_bit 16 (ucast (m (a + 2))) OR push_bit 24 (ucast (m (a + 3)))"

definition store32 :: "addr \<Rightarrow> uint \<Rightarrow> byte_mem \<Rightarrow> byte_mem" where
  "store32 a v m = m(a := ucast v, a + 1 := ucast (drop_bit 8 v),
     a + 2 := ucast (drop_bit 16 v), a + 3 := ucast (drop_bit 24 v))"

lemma word_bytes_roundtrip:
  fixes v :: uint
  shows "(ucast (ucast v :: uchar) :: uint) OR push_bit 8 (ucast (ucast (drop_bit 8 v) :: uchar))
     OR push_bit 16 (ucast (ucast (drop_bit 16 v) :: uchar))
     OR push_bit 24 (ucast (ucast (drop_bit 24 v) :: uchar)) = v"
proof (rule bit_word_eqI)
  fix n assume "n < LENGTH(32)"
  then have n: "n < 32" by simp
  consider "n < 8" | "8 \<le> n" "n < 16" | "16 \<le> n" "n < 24" | "24 \<le> n" by linarith
  then show "bit ((ucast (ucast v :: uchar) :: uint) OR push_bit 8 (ucast (ucast (drop_bit 8 v) :: uchar))
     OR push_bit 16 (ucast (ucast (drop_bit 16 v) :: uchar))
     OR push_bit 24 (ucast (ucast (drop_bit 24 v) :: uchar))) n = bit v n"
    using n by cases (auto simp: bit_or_iff bit_push_bit_iff bit_ucast_iff bit_drop_bit_eq)
qed

lemma load32_store32_same [simp]: "load32 (store32 a v m) a = v"
  by (simp add: load32_def store32_def word_bytes_roundtrip)

text \<open>Two aligned words are the same or do not overlap.\<close>

definition aligned4 :: "addr \<Rightarrow> bool" where
  "aligned4 a \<longleftrightarrow> unat a mod 4 = 0"

lemma aligned4_unat_add:
  assumes "aligned4 a" "i < 4"
  shows "unat (a + of_nat i) = unat a + i"
proof -
  obtain k where k: "unat a = 4 * k" using assms(1) by (auto simp: aligned4_def)
  have "unat a < 4294967296" using unsigned_less [of a] by simp
  with k have "k < 1073741824" by linarith
  with k assms(2) have "unat a + i < 4294967296" by linarith
  then show ?thesis using assms(2) by (simp add: unat_word_ariths unat_of_nat)
qed

lemma aligned4_div_add:
  assumes "aligned4 a" "i < 4"
  shows "unat (a + of_nat i) div 4 = unat a div 4"
proof -
  obtain k where k: "unat a = 4 * k" using assms(1) by (auto simp: aligned4_def)
  then show ?thesis using aligned4_unat_add [OF assms] assms(2) by simp
qed

lemma aligned4_disjoint:
  assumes "aligned4 a" "aligned4 b" "a \<noteq> b" "i < 4" "j < 4"
  shows "a + of_nat i \<noteq> b + of_nat j"
proof
  assume "a + of_nat i = b + of_nat j"
  then have "unat a div 4 = unat b div 4"
    using aligned4_div_add [OF assms(1,4)] aligned4_div_add [OF assms(2,5)] by simp
  moreover have "unat a mod 4 = unat b mod 4" using assms(1,2) by (simp add: aligned4_def)
  ultimately have "unat a = unat b" by (metis div_mult_mod_eq)
  with assms(3) show False by (simp add: word_unat_eq_iff)
qed

lemma store32_other:
  assumes "aligned4 a" "aligned4 b" "a \<noteq> b" "i < 4"
  shows "store32 a v m (b + of_nat i) = m (b + of_nat i)"
  using aligned4_disjoint [OF assms(2,1) assms(3) [symmetric] assms(4), of 0]
    aligned4_disjoint [OF assms(2,1) assms(3) [symmetric] assms(4), of 1]
    aligned4_disjoint [OF assms(2,1) assms(3) [symmetric] assms(4), of 2]
    aligned4_disjoint [OF assms(2,1) assms(3) [symmetric] assms(4), of 3]
  by (simp add: store32_def)

lemma load32_store32_other:
  assumes "aligned4 a" "aligned4 b" "a \<noteq> b"
  shows "load32 (store32 a v m) b = load32 m b"
  using store32_other [OF assms, of 0 v m] store32_other [OF assms, of 1 v m]
    store32_other [OF assms, of 2 v m] store32_other [OF assms, of 3 v m]
  by (simp add: load32_def)

lemma load32_cong:
  "(\<And>i. i < 4 \<Longrightarrow> m (a + of_nat i) = m' (a + of_nat i)) \<Longrightarrow> load32 m a = load32 m' a"
proof -
  assume h: "\<And>i. i < 4 \<Longrightarrow> m (a + of_nat i) = m' (a + of_nat i)"
  show ?thesis using h [of 0] h [of 1] h [of 2] h [of 3] by (simp add: load32_def)
qed

end
