(* ===== verification/Xv6_Param.thy ===== *)
theory Xv6_Param
  imports Xv6_Prelude
begin

text \<open>
  The constants of param.h and memlayout.h and the address arithmetic of mmu.h, on 32-bit
  words, with the facts about page rounding and address splitting that the memory
  components use.
\<close>

section \<open>param.h, memlayout.h, cflags.h\<close>

abbreviation (input) NPROC :: nat where "NPROC \<equiv> 64"
abbreviation (input) KSTACKSIZE :: addr where "KSTACKSIZE \<equiv> 4096"
abbreviation (input) NCPU :: nat where "NCPU \<equiv> 8"
abbreviation (input) NOFILE :: nat where "NOFILE \<equiv> 16"
abbreviation (input) NFILE :: nat where "NFILE \<equiv> 100"
abbreviation (input) NINODE :: nat where "NINODE \<equiv> 50"
abbreviation (input) NDEV :: nat where "NDEV \<equiv> 10"
abbreviation (input) ROOTDEV :: nat where "ROOTDEV \<equiv> 1"
abbreviation (input) MAXARG :: nat where "MAXARG \<equiv> 32"
abbreviation (input) MAXOPBLOCKS :: nat where "MAXOPBLOCKS \<equiv> 10"
abbreviation (input) LOGSIZE :: nat where "LOGSIZE \<equiv> 30"
abbreviation (input) NBUF :: nat where "NBUF \<equiv> 30"
abbreviation (input) FSSIZE :: nat where "FSSIZE \<equiv> 1000"

abbreviation (input) EXTMEM :: addr where "EXTMEM \<equiv> 0x100000"
abbreviation (input) PHYSTOP :: addr where "PHYSTOP \<equiv> 0xE000000"
abbreviation (input) DEVSPACE :: addr where "DEVSPACE \<equiv> 0xFE000000"
abbreviation (input) KERNBASE :: addr where "KERNBASE \<equiv> 0xC800000"
abbreviation (input) KERNLINK :: addr where "KERNLINK \<equiv> 0xC900000"

definition V2P :: "addr \<Rightarrow> addr" where
  "V2P a = a - KERNBASE"

definition P2V :: "addr \<Rightarrow> addr" where
  "P2V a = a + KERNBASE"

lemma V2P_P2V [simp]: "V2P (P2V a) = a"
  by (simp add: V2P_def P2V_def)

lemma P2V_V2P [simp]: "P2V (V2P a) = a"
  by (simp add: V2P_def P2V_def)

lemma P2V_inj [simp]: "P2V a = P2V b \<longleftrightarrow> a = b"
  by (simp add: P2V_def)

section \<open>mmu.h\<close>

abbreviation (input) PGSIZE :: addr where "PGSIZE \<equiv> 4096"
abbreviation (input) NPDENTRIES :: nat where "NPDENTRIES \<equiv> 1024"
abbreviation (input) NPTENTRIES :: nat where "NPTENTRIES \<equiv> 1024"
abbreviation (input) PTE_P :: uint where "PTE_P \<equiv> 0x001"
abbreviation (input) PTE_W :: uint where "PTE_W \<equiv> 0x002"
abbreviation (input) PTE_U :: uint where "PTE_U \<equiv> 0x004"
abbreviation (input) PTE_PS :: uint where "PTE_PS \<equiv> 0x080"

definition PDX :: "addr \<Rightarrow> addr" where
  "PDX va = drop_bit 22 va AND 0x3FF"

definition PTX :: "addr \<Rightarrow> addr" where
  "PTX va = drop_bit 12 va AND 0x3FF"

definition PGADDR :: "addr \<Rightarrow> addr \<Rightarrow> addr \<Rightarrow> addr" where
  "PGADDR d t off = push_bit 22 d OR push_bit 12 t OR off"

definition PGROUNDUP :: "addr \<Rightarrow> addr" where
  "PGROUNDUP sz = (sz + PGSIZE - 1) AND NOT (PGSIZE - 1)"

definition PGROUNDDOWN :: "addr \<Rightarrow> addr" where
  "PGROUNDDOWN a = a AND NOT (PGSIZE - 1)"

definition PTE_ADDR :: "uint \<Rightarrow> addr" where
  "PTE_ADDR pte = pte AND NOT 0xFFF"

definition PTE_FLAGS :: "uint \<Rightarrow> uint" where
  "PTE_FLAGS pte = pte AND 0xFFF"

definition page_aligned :: "addr \<Rightarrow> bool" where
  "page_aligned a \<longleftrightarrow> unat a mod 4096 = 0"

subsection \<open>Rounding as arithmetic\<close>

lemma mask12: "(0xFFF :: uint) = mask 12"
  by (simp add: mask_eq_exp_minus_1)

lemma unat_and_FFF: "unat (a AND (0xFFF :: uint)) = unat a mod 4096"
proof -
  have "a AND 0xFFF = take_bit 12 a" by (simp only: mask12 take_bit_eq_mask)
  then show ?thesis by (simp only: unsigned_take_bit_eq) (simp add: take_bit_eq_mod)
qed

lemma and_not_FFF: "a AND NOT (0xFFF :: uint) = a - (a AND 0xFFF)"
proof -
  have "a AND NOT 0xFFF OR (a AND 0xFFF) = a"
    by (rule bit_word_eqI) (auto simp: bit_simps)
  moreover have "(a AND NOT 0xFFF) AND (a AND 0xFFF) = 0"
    by (rule bit_word_eqI) (auto simp: bit_simps)
  ultimately have "(a AND NOT 0xFFF) + (a AND 0xFFF) = a"
    by (simp add: disjunctive_add_eq_or)
  then show ?thesis by (simp add: algebra_simps)
qed

lemma unat_and_not_FFF: "unat (a AND NOT (0xFFF :: uint)) = unat a - unat a mod 4096"
proof -
  have "a AND 0xFFF \<le> a" by (rule word_and_le2)
  then show ?thesis by (simp only: and_not_FFF unat_sub unat_and_FFF)
qed

lemma unat_PGROUNDDOWN: "unat (PGROUNDDOWN a) = unat a - unat a mod 4096"
  using unat_and_not_FFF [of a] by (simp add: PGROUNDDOWN_def)

lemma unat_PTE_ADDR: "unat (PTE_ADDR a) = unat a - unat a mod 4096"
  using unat_and_not_FFF [of a] by (simp add: PTE_ADDR_def)

lemma PGROUNDDOWN_aligned [simp]: "page_aligned (PGROUNDDOWN a)"
  by (simp add: page_aligned_def unat_PGROUNDDOWN)

lemma PTE_ADDR_aligned [simp]: "page_aligned (PTE_ADDR a)"
  by (simp add: page_aligned_def unat_PTE_ADDR)

lemma page_aligned_PGROUNDDOWN: "page_aligned a \<Longrightarrow> PGROUNDDOWN a = a"
  by (simp add: page_aligned_def word_unat_eq_iff unat_PGROUNDDOWN)

lemma page_aligned_PTE_ADDR: "page_aligned a \<Longrightarrow> PTE_ADDR a = a"
  by (simp add: page_aligned_def word_unat_eq_iff unat_PTE_ADDR)

lemma PGROUNDDOWN_bounds: "unat (PGROUNDDOWN a) \<le> unat a" "unat a < unat (PGROUNDDOWN a) + 4096"
  using mod_less_divisor [of 4096 "unat a"] by (simp_all add: unat_PGROUNDDOWN)

lemma page_aligned_aligned4: "page_aligned a \<Longrightarrow> aligned4 a"
proof -
  assume "page_aligned a"
  then have "4096 dvd unat a" by (auto simp: page_aligned_def)
  moreover have "(4::nat) dvd 4096" by simp
  ultimately have "4 dvd unat a" using dvd_trans by blast
  then show ?thesis by (auto simp: aligned4_def)
qed

lemma unat_PGROUNDUP:
  assumes "unat sz + 4095 < 2 ^ 32"
  shows "unat (PGROUNDUP sz) = (unat sz + 4095) - (unat sz + 4095) mod 4096"
proof -
  have "unat (sz + 4095) = unat sz + 4095"
    using assms by (simp add: unat_word_ariths)
  then show ?thesis
    using unat_and_not_FFF [of "sz + 4095"] by (simp add: PGROUNDUP_def add.commute)
qed

lemma PGROUNDUP_props:
  assumes "unat sz + 4095 < 2 ^ 32"
  shows "page_aligned (PGROUNDUP sz)" "sz \<le> PGROUNDUP sz" "unat (PGROUNDUP sz) < unat sz + 4096"
  using unat_PGROUNDUP [OF assms] mod_less_divisor [of 4096 "unat sz + 4095"]
  by (simp_all add: page_aligned_def word_le_nat_alt)

lemma PTE_ADDR_or_flags:
  assumes "page_aligned pa" "unat f < 4096"
  shows "PTE_ADDR (pa OR f) = pa" "PTE_FLAGS (pa OR f) = f"
proof -
  have f: "f AND 0xFFF = f"
    using assms(2) by (simp add: word_unat_eq_iff unat_and_FFF)
  have p: "pa AND 0xFFF = 0"
    using assms(1) by (simp add: word_unat_eq_iff unat_and_FFF page_aligned_def)
  have pn: "pa AND NOT 0xFFF = pa" by (simp only: and_not_FFF p diff_zero)
  have fn: "f AND NOT 0xFFF = 0" by (simp only: and_not_FFF f diff_self)
  show "PTE_ADDR (pa OR f) = pa"
    by (simp only: PTE_ADDR_def bit.conj_disj_distrib2 pn fn) simp
  show "PTE_FLAGS (pa OR f) = f"
    by (simp only: PTE_FLAGS_def bit.conj_disj_distrib2 p f) simp
qed

subsection \<open>Splitting an address\<close>

lemma PGADDR_split: "PGADDR (PDX va) (PTX va) (va AND 0xFFF) = va"
proof (rule bit_word_eqI)
  fix n assume "n < LENGTH(32)"
  then have n: "n < 32" by simp
  have m: "(0x3FF :: uint) = mask 10" by (simp add: mask_eq_exp_minus_1)
  show "bit (PGADDR (PDX va) (PTX va) (va AND 0xFFF)) n = bit va n"
    unfolding PGADDR_def PDX_def PTX_def m mask12
    using n by (cases "n < 12"; cases "n < 22") (auto simp: bit_simps)
qed

lemma unat_3FF: "unat (a AND (0x3FF :: uint)) = unat a mod 1024"
proof -
  have m: "(0x3FF :: uint) = mask 10" by (simp add: mask_eq_exp_minus_1)
  have "a AND 0x3FF = take_bit 10 a" by (simp only: m take_bit_eq_mask)
  then show ?thesis by (simp only: unsigned_take_bit_eq) (simp add: take_bit_eq_mod)
qed

lemma unat_drop: "unat (drop_bit n (a :: uint)) = unat a div 2 ^ n"
  using unat32_lt [of a]
  by (simp only: unsigned_drop_bit_eq) (simp add: drop_bit_eq_div take_bit_nat_eq_self)

lemma unat_PDX: "unat (PDX va) = unat va div 2 ^ 22"
proof -
  have "unat va < 4294967296" using unsigned_less [of va] by simp
  then have "unat va div 2 ^ 22 < 1024" by simp
  then show ?thesis
    by (simp only: PDX_def unat_3FF unat_drop mod_less)
qed

lemma unat_PTX: "unat (PTX va) = unat va div 4096 mod 1024"
  by (simp only: PTX_def unat_3FF unat_drop) simp

lemma PDX_lt [simp]: "unat (PDX va) < 1024"
  by (simp add: PDX_def unat_3FF)

lemma PTX_lt [simp]: "unat (PTX va) < 1024"
  by (simp add: PTX_def unat_3FF)

text \<open>Two page-aligned addresses with the same directory and table index are equal.\<close>

lemma page_index_inj:
  assumes "page_aligned a" "page_aligned b" "PDX a = PDX b" "PTX a = PTX b"
  shows "a = b"
proof -
  have "a AND 0xFFF = 0" "b AND 0xFFF = 0"
    using assms(1,2) by (simp_all add: word_unat_eq_iff unat_and_FFF page_aligned_def)
  then show ?thesis using PGADDR_split [of a] PGADDR_split [of b] assms(3,4) by simp
qed

lemma page_frame_index: "unat a div 4096 = 1024 * unat (PDX a) + unat (PTX a)"
proof -
  have "unat a div 4194304 = unat a div 4096 div 1024" by (simp add: div_mult2_eq [symmetric])
  then show ?thesis using mult_div_mod_eq [of 1024 "unat a div 4096"] by (simp add: unat_PDX unat_PTX)
qed

lemma page_indexes:
  assumes "PDX a = PDX b" "PTX a = PTX b"
  shows "PGROUNDDOWN a = PGROUNDDOWN b"
proof -
  have "unat a div 4096 = unat b div 4096" using assms by (simp add: page_frame_index)
  then show ?thesis
    by (simp add: word_unat_eq_iff unat_PGROUNDDOWN minus_mod_eq_mult_div)
qed

end
