(* ===== verification/Xv6_Spinlock.thy ===== *)
theory Xv6_Spinlock
  imports Xv6_Param
begin

text \<open>
  The processor state and the spinlocks: struct cpu (proc.h), struct spinlock
  (spinlock.h), mycpu (proc.c) and all of spinlock.c. The state is the one the executing
  processor sees; its interrupt flag and its local APIC id are the registers the code
  reads. The second half of the theory is the multiprocessor protocol: any number of
  processors run the instructions of \<open>acquire\<close> and \<open>release\<close> one atomic step at a time.
\<close>

section \<open>struct cpu, struct spinlock\<close>

datatype slid = SL_buf nat | SL_inode nat

datatype lockid =
    PtableLock | KmemLock | TicksLock | BcacheLock | IcacheLock | LogLock | FtableLock
  | ConsLock | IdeLock | ThreadLock nat | PipeLock addr | SleepLk slid

record cpu =
  apicid :: nat
  started :: bool
  ncli :: int
  intena :: bool
  cproc :: "nat option"

record spinlock =
  locked :: bool
  lname :: string
  lcpu :: "nat option"
  pcs :: "uint list"

text \<open>
  \<open>cpus\<close> is the array \<open>cpus[0..ncpu)\<close>; \<open>lapic_id\<close> and \<open>fl_if\<close> are the local APIC id
  register and the interrupt flag of the executing processor; \<open>locks\<close> holds every spinlock
  of the kernel; \<open>mem\<close> is memory at kernel virtual addresses; \<open>arg_addr\<close> is the stack
  address of the first argument of the running function, which \<open>getcallerpcs\<close> starts from.
\<close>

record mach =
  cpus :: "cpu list"
  lapic_id :: nat
  fl_if :: bool
  locks :: "lockid \<Rightarrow> spinlock"
  mem :: byte_mem
  arg_addr :: addr

section \<open>mycpu, cpuid (proc.c)\<close>

definition mycpu_index :: "'x mach_scheme \<Rightarrow> nat option" where
  "mycpu_index s = index_of (\<lambda>c. apicid c = lapic_id s) (cpus s)"

definition mycpu :: "('x mach_scheme, nat) K" where
  "mycpu s = (if fl_if s then Panic ''mycpu called with interrupts enabled''
              else case mycpu_index s of Some i \<Rightarrow> Ok i s | None \<Rightarrow> Panic ''unknown apicid'')"

definition cpuid :: "('x mach_scheme, nat) K" where
  "cpuid = mycpu"

definition cpu_mod :: "nat \<Rightarrow> (cpu \<Rightarrow> cpu) \<Rightarrow> ('x mach_scheme, unit) K" where
  "cpu_mod i f = kmod (\<lambda>s. s\<lparr>cpus := upd_at i f (cpus s)\<rparr>)"

definition cli :: "('x mach_scheme, unit) K" where
  "cli = kmod (\<lambda>s. s\<lparr>fl_if := False\<rparr>)"

definition sti :: "('x mach_scheme, unit) K" where
  "sti = kmod (\<lambda>s. s\<lparr>fl_if := True\<rparr>)"

section \<open>spinlock.c\<close>

definition lock_mod :: "lockid \<Rightarrow> (spinlock \<Rightarrow> spinlock) \<Rightarrow> ('x mach_scheme, unit) K" where
  "lock_mod l f = kmod (\<lambda>s. s\<lparr>locks := (locks s)(l := f (locks s l))\<rparr>)"

definition initlock :: "lockid \<Rightarrow> string \<Rightarrow> ('x mach_scheme, unit) K" where
  "initlock l name = lock_mod l (\<lambda>k. k\<lparr>lname := name, locked := False, lcpu := None\<rparr>)"

definition pushcli :: "('x mach_scheme, unit) K" where
  "pushcli =
     kbind (kgets fl_if) (\<lambda>eflags.
     kthen [cli]
       (kbind mycpu (\<lambda>c.
        kbind (kgets (\<lambda>s. ncli (cpus s ! c))) (\<lambda>n.
        kdo [kwhen (n = 0) (cpu_mod c (\<lambda>k. k\<lparr>intena := eflags\<rparr>)),
             cpu_mod c (\<lambda>k. k\<lparr>ncli := ncli k + 1\<rparr>)]))))"

definition popcli :: "('x mach_scheme, unit) K" where
  "popcli =
     kbind (kgets fl_if) (\<lambda>eflags.
     if eflags then kpanic ''popcli - interruptible''
     else kbind mycpu (\<lambda>c.
       kthen [cpu_mod c (\<lambda>k. k\<lparr>ncli := ncli k - 1\<rparr>)]
         (kbind (kgets (\<lambda>s. cpus s ! c)) (\<lambda>k.
          if ncli k < 0 then kpanic ''popcli''
          else kwhen (ncli k = 0 \<and> intena k) sti))))"

definition holding :: "lockid \<Rightarrow> ('x mach_scheme, bool) K" where
  "holding l =
     kthen [pushcli]
       (kbind mycpu (\<lambda>c.
        kbind (kgets (\<lambda>s. locked (locks s l) \<and> lcpu (locks s l) = Some c)) (\<lambda>r.
        kthen [popcli] (kret r))))"

text \<open>\<open>getcallerpcs\<close> follows the chain of saved frame pointers, ten frames at most.\<close>

primrec frame_pcs :: "byte_mem \<Rightarrow> nat \<Rightarrow> addr \<Rightarrow> uint list" where
  "frame_pcs m 0 ebp = []"
| "frame_pcs m (Suc n) ebp =
     (if ebp = 0 \<or> ebp < KERNBASE \<or> ebp = 0xffffffff then replicate (Suc n) 0
      else load32 m (ebp + 4) # frame_pcs m n (load32 m ebp))"

definition getcallerpcs :: "byte_mem \<Rightarrow> addr \<Rightarrow> uint list" where
  "getcallerpcs m v = frame_pcs m 10 (v - 8)"

definition acquire :: "lockid \<Rightarrow> ('x mach_scheme, unit) K" where
  "acquire l =
     kthen [pushcli]
       (kbind (holding l) (\<lambda>h.
        if h then kpanic ''acquire''
        else kbind (kgets (\<lambda>s. locked (locks s l))) (\<lambda>old.
          if old then kspin
          else kthen [lock_mod l (\<lambda>k. k\<lparr>locked := True\<rparr>)]
            (kbind mycpu (\<lambda>c.
             kbind (kgets (\<lambda>s. getcallerpcs (mem s) (arg_addr s))) (\<lambda>ps.
             lock_mod l (\<lambda>k. k\<lparr>lcpu := Some c, pcs := ps\<rparr>)))))))"

definition release :: "lockid \<Rightarrow> ('x mach_scheme, unit) K" where
  "release l =
     kbind (holding l) (\<lambda>h.
     if \<not> h then kpanic ''release''
     else kdo [lock_mod l (\<lambda>k. k\<lparr>pcs := (pcs k)[0 := 0], lcpu := None\<rparr>),
               lock_mod l (\<lambda>k. k\<lparr>locked := False\<rparr>),
               popcli])"

section \<open>The lock discipline of one processor\<close>

text \<open>
  \<open>held s\<close> is the set of locks that are taken. \<open>lk_ok s\<close>: the executing processor is one of
  \<open>cpus\<close>, every taken lock is its own, \<open>ncli\<close> counts the taken locks and interrupts are off
  while there is one.
\<close>

definition held :: "'x mach_scheme \<Rightarrow> lockid set" where
  "held s = {l. locked (locks s l)}"

definition lk_ok :: "'x mach_scheme \<Rightarrow> bool" where
  "lk_ok s \<longleftrightarrow> (\<exists>c. mycpu_index s = Some c \<and>
       (\<forall>l\<in>held s. lcpu (locks s l) = Some c) \<and>
       ncli (cpus s ! c) = int (card (held s))) \<and>
     finite (held s) \<and> (fl_if s \<longrightarrow> held s = {})"

definition acquired :: "lockid \<Rightarrow> 'x mach_scheme \<Rightarrow> 'x mach_scheme" where
  "acquired l s =
     (let c = the (mycpu_index s) in
      s\<lparr>fl_if := False,
        cpus := upd_at c (\<lambda>k. k\<lparr>intena := if ncli k = 0 then fl_if s else intena k,
                  ncli := ncli k + 1\<rparr>) (cpus s),
        locks := (locks s)(l := (locks s l)\<lparr>locked := True, lcpu := Some c,
                   pcs := getcallerpcs (mem s) (arg_addr s)\<rparr>)\<rparr>)"

definition released :: "lockid \<Rightarrow> 'x mach_scheme \<Rightarrow> 'x mach_scheme" where
  "released l s =
     (let c = the (mycpu_index s); k = cpus s ! c in
      s\<lparr>fl_if := (ncli k = 1 \<and> intena k),
        cpus := upd_at c (\<lambda>k. k\<lparr>ncli := ncli k - 1\<rparr>) (cpus s),
        locks := (locks s)(l := (locks s l)\<lparr>locked := False, lcpu := None,
                   pcs := (pcs (locks s l))[0 := 0]\<rparr>)\<rparr>)"

lemma index_of_upd_at:
  assumes "\<And>c. P (f c) = P c"
  shows "index_of P (upd_at i f xs) = index_of P xs"
proof -
  have "map P (upd_at i f xs) = map P xs"
    by (rule nth_equalityI) (auto simp: nth_upd_at assms)
  moreover have "index_of P ys = index_of id (map P ys)" for ys
    by (induction ys) auto
  ultimately show ?thesis by metis
qed

lemma mycpu_index_upd [simp]:
  "(\<And>c. apicid (f c) = apicid c) \<Longrightarrow>
     mycpu_index (s\<lparr>cpus := upd_at i f (cpus s)\<rparr>) = mycpu_index s"
  "mycpu_index (s\<lparr>fl_if := b\<rparr>) = mycpu_index s"
  "mycpu_index (s\<lparr>locks := k\<rparr>) = mycpu_index s"
  "mycpu_index (s\<lparr>mem := m\<rparr>) = mycpu_index s"
  by (simp_all add: mycpu_index_def index_of_upd_at)

lemma mycpu_run:
  "\<not> fl_if s \<Longrightarrow> mycpu_index s = Some c \<Longrightarrow> mycpu s = Ok c s"
  by (simp add: mycpu_def)

lemma pushcli_run:
  assumes "mycpu_index s = Some c"
  shows "pushcli s = Ok () (s\<lparr>fl_if := False,
     cpus := upd_at c (\<lambda>k. k\<lparr>intena := if ncli k = 0 then fl_if s else intena k,
                  ncli := ncli k + 1\<rparr>) (cpus s)\<rparr>)"
  using assms index_of_SomeD [OF assms [unfolded mycpu_index_def]]
  by (auto simp: pushcli_def cli_def cpu_mod_def kthen_def mycpu_run upd_at_def)

lemma fl_if_same: "\<not> fl_if s \<Longrightarrow> s\<lparr>fl_if := False\<rparr> = s"
  by (cases s) simp

lemma popcli_run:
  assumes "mycpu_index s = Some c" "\<not> fl_if s" "1 \<le> ncli (cpus s ! c)"
  shows "popcli s = Ok () (s\<lparr>fl_if := (ncli (cpus s ! c) = 1 \<and> intena (cpus s ! c)),
     cpus := upd_at c (\<lambda>k. k\<lparr>ncli := ncli k - 1\<rparr>) (cpus s)\<rparr>)"
proof -
  have "s\<lparr>fl_if := False, cpus := u\<rparr> = s\<lparr>cpus := u\<rparr>" for u
    using fl_if_same [OF assms(2)] by (metis mach.surjective mach.update_convs(2))
  then show ?thesis
    using assms index_of_SomeD [OF assms(1) [unfolded mycpu_index_def]]
    by (auto simp: popcli_def sti_def cpu_mod_def kthen_def mycpu_run kwhen_def)
qed

text \<open>A \<open>pushcli\<close>/\<open>popcli\<close> pair around a test leaves the processor as it was, except that a
  \<open>pushcli\<close> at depth 0 records the interrupt flag.\<close>

lemma holding_run:
  assumes "mycpu_index s = Some c" "0 \<le> ncli (cpus s ! c)" "fl_if s \<longrightarrow> ncli (cpus s ! c) = 0"
  shows "holding l s = Ok (locked (locks s l) \<and> lcpu (locks s l) = Some c)
     (s\<lparr>cpus := upd_at c (\<lambda>k. k\<lparr>intena := if ncli k = 0 then fl_if s else intena k\<rparr>) (cpus s)\<rparr>)"
proof -
  let ?f = "\<lambda>k. k\<lparr>intena := if ncli k = 0 then fl_if s else intena k, ncli := ncli k + 1\<rparr>"
  let ?s1 = "s\<lparr>fl_if := False, cpus := upd_at c ?f (cpus s)\<rparr>"
  have c: "c < length (cpus s)" using index_of_SomeD [OF assms(1) [unfolded mycpu_index_def]] by simp
  have m1: "mycpu_index ?s1 = Some c"
    using assms(1) mycpu_index_upd(1) [where f = ?f and s = "s\<lparr>fl_if := False\<rparr>" and i = c] by simp
  have p: "popcli ?s1 = Ok () (?s1\<lparr>fl_if := (ncli (cpus ?s1 ! c) = 1 \<and> intena (cpus ?s1 ! c)),
     cpus := upd_at c (\<lambda>k. k\<lparr>ncli := ncli k - 1\<rparr>) (cpus ?s1)\<rparr>)"
    by (rule popcli_run [OF m1]) (use c assms(2) in simp_all)
  have "(\<lambda>k. k\<lparr>ncli := ncli k - 1\<rparr>) \<circ> ?f
      = (\<lambda>k :: cpu. k\<lparr>intena := if ncli k = 0 then fl_if s else intena k\<rparr>)"
    by (rule ext) (rename_tac k, case_tac k, simp)
  then have "?s1\<lparr>fl_if := (ncli (cpus ?s1 ! c) = 1 \<and> intena (cpus ?s1 ! c)),
     cpus := upd_at c (\<lambda>k. k\<lparr>ncli := ncli k - 1\<rparr>) (cpus ?s1)\<rparr>
    = s\<lparr>cpus := upd_at c (\<lambda>k. k\<lparr>intena := if ncli k = 0 then fl_if s else intena k\<rparr>) (cpus s)\<rparr>"
    using c assms(3) by (cases s) auto
  with p m1 show ?thesis
    by (simp add: holding_def kthen_def pushcli_run [OF assms(1)] mycpu_run)
qed


lemma holding_run_nested:
  assumes "mycpu_index s = Some c" "1 \<le> ncli (cpus s ! c)" "\<not> fl_if s"
  shows "holding l s = Ok (locked (locks s l) \<and> lcpu (locks s l) = Some c) s"
proof -
  have "upd_at c (\<lambda>k. k\<lparr>intena := if ncli k = 0 then fl_if s else intena k\<rparr>) (cpus s) = cpus s"
    using assms(2) by (cases "cpus s ! c") (simp add: upd_at_def list_update_same_conv)
  then show ?thesis using holding_run [OF assms(1), of l] assms by (cases s) simp
qed

lemma lk_okE:
  assumes "lk_ok s"
  obtains c where "mycpu_index s = Some c" "c < length (cpus s)"
    "\<forall>l\<in>held s. lcpu (locks s l) = Some c" "ncli (cpus s ! c) = int (card (held s))"
    "finite (held s)" "fl_if s \<longrightarrow> held s = {}"
  using assms by (auto simp: lk_ok_def mycpu_index_def dest: index_of_SomeD)

text \<open>\<open>acquire\<close> of a free lock succeeds, \<open>release\<close> of a held one succeeds.\<close>

lemma acquire_run [simp]:
  assumes "lk_ok s" "l \<notin> held s"
  shows "acquire l s = Ok () (acquired l s)"
proof -
  obtain c where c: "mycpu_index s = Some c" "c < length (cpus s)"
    "ncli (cpus s ! c) = int (card (held s))" "fl_if s \<longrightarrow> held s = {}"
    using assms(1) by (rule lk_okE)
  let ?f = "\<lambda>k. k\<lparr>intena := if ncli k = 0 then fl_if s else intena k, ncli := ncli k + 1\<rparr>"
  let ?s1 = "s\<lparr>fl_if := False, cpus := upd_at c ?f (cpus s)\<rparr>"
  have m1: "mycpu_index ?s1 = Some c"
    using c(1) mycpu_index_upd(1) [where f = ?f and s = "s\<lparr>fl_if := False\<rparr>" and i = c] by simp
  have nl: "\<not> locked (locks s l)" using assms(2) by (simp add: held_def)
  have h: "holding l ?s1 = Ok False ?s1"
    using holding_run_nested [OF m1, of l] c nl by simp
  show ?thesis
    using h m1 nl c
    by (simp add: acquire_def kthen_def pushcli_run [OF c(1)] lock_mod_def mycpu_run acquired_def Let_def)
qed


lemma release_run [simp]:
  assumes "lk_ok s" "l \<in> held s"
  shows "release l s = Ok () (released l s)"
proof -
  obtain c where c: "mycpu_index s = Some c" "c < length (cpus s)"
    "\<forall>l\<in>held s. lcpu (locks s l) = Some c"
    "ncli (cpus s ! c) = int (card (held s))" "finite (held s)" "fl_if s \<longrightarrow> held s = {}"
    using assms(1) by (rule lk_okE)
  have n: "1 \<le> ncli (cpus s ! c)"
    using c(4,5) assms(2) by (metis One_nat_def Suc_leI card_gt_0_iff empty_iff nat_int_comparison(3) of_nat_1)
  have i: "\<not> fl_if s" using c(6) assms(2) by auto
  have l: "locked (locks s l)" "lcpu (locks s l) = Some c"
    using assms(2) c(3) by (auto simp: held_def)
  let ?s1 = "s\<lparr>locks := (locks s)(l := (locks s l)\<lparr>locked := False, lcpu := None,
                   pcs := (pcs (locks s l))[0 := 0]\<rparr>)\<rparr>"
  have p: "popcli ?s1 = Ok () (?s1\<lparr>fl_if := (ncli (cpus s ! c) = 1 \<and> intena (cpus s ! c)),
     cpus := upd_at c (\<lambda>k. k\<lparr>ncli := ncli k - 1\<rparr>) (cpus s)\<rparr>)"
    using popcli_run [of ?s1 c] c(1) i n by simp
  have e: "(locks s l)\<lparr>pcs := ps, lcpu := None, locked := False\<rparr>
      = (locks s l)\<lparr>locked := False, lcpu := None, pcs := ps\<rparr>" for ps
    by (cases "locks s l") simp
  show ?thesis
    using p l c(1) holding_run_nested [OF c(1) n i, of l]
    by (simp add: release_def lock_mod_def released_def Let_def e)
qed

lemma acquire_held_panics:
  assumes "lk_ok s" "l \<in> held s"
  shows "acquire l s = Panic ''acquire''"
proof -
  obtain c where c: "mycpu_index s = Some c" "c < length (cpus s)"
    "\<forall>l\<in>held s. lcpu (locks s l) = Some c"
    "ncli (cpus s ! c) = int (card (held s))"
    using assms(1) by (rule lk_okE)
  let ?f = "\<lambda>k. k\<lparr>intena := if ncli k = 0 then fl_if s else intena k, ncli := ncli k + 1\<rparr>"
  let ?s1 = "s\<lparr>fl_if := False, cpus := upd_at c ?f (cpus s)\<rparr>"
  have m1: "mycpu_index ?s1 = Some c"
    using c(1) mycpu_index_upd(1) [where f = ?f and s = "s\<lparr>fl_if := False\<rparr>" and i = c] by simp
  have "holding l ?s1 = Ok True ?s1"
    using holding_run_nested [OF m1, of l] c assms(2) by (simp add: held_def)
  then show ?thesis
    by (simp add: acquire_def kthen_def pushcli_run [OF c(1)])
qed

lemma held_acquired [simp]: "held (acquired l s) = insert l (held s)"
  by (auto simp: held_def acquired_def Let_def)

lemma held_released [simp]: "held (released l s) = held s - {l}"
  by (auto simp: held_def released_def Let_def)

lemma lk_ok_acquired [simp]:
  assumes "lk_ok s" "l \<notin> held s"
  shows "lk_ok (acquired l s)"
proof -
  obtain c where c: "mycpu_index s = Some c" "c < length (cpus s)"
    "\<forall>l\<in>held s. lcpu (locks s l) = Some c"
    "ncli (cpus s ! c) = int (card (held s))" "finite (held s)"
    using assms(1) by (rule lk_okE)
  let ?f = "\<lambda>k. k\<lparr>intena := if ncli k = 0 then fl_if s else intena k, ncli := ncli k + 1\<rparr>"
  have "mycpu_index (acquired l s) = Some c"
    using c(1) mycpu_index_upd(1) [where f = ?f and s = s and i = c]
    by (simp add: acquired_def Let_def mycpu_index_def)
  moreover have "ncli (cpus (acquired l s) ! c) = int (card (held (acquired l s)))"
    using c assms(2) by (simp only: held_acquired) (simp add: acquired_def)
  moreover have "\<forall>k\<in>held (acquired l s). lcpu (locks (acquired l s) k) = Some c"
    using c(1,3) by (simp only: held_acquired) (auto simp: acquired_def Let_def)
  moreover have "\<not> fl_if (acquired l s)" by (simp add: acquired_def Let_def)
  ultimately show ?thesis using c(5) by (simp add: lk_ok_def)
qed

lemma lk_ok_released [simp]:
  assumes "lk_ok s" "l \<in> held s"
  shows "lk_ok (released l s)"
proof -
  obtain c where c: "mycpu_index s = Some c" "c < length (cpus s)"
    "\<forall>l\<in>held s. lcpu (locks s l) = Some c"
    "ncli (cpus s ! c) = int (card (held s))" "finite (held s)"
    using assms(1) by (rule lk_okE)
  let ?f = "\<lambda>k. k\<lparr>ncli := ncli k - 1\<rparr>"
  have "mycpu_index (released l s) = Some c"
    using c(1) mycpu_index_upd(1) [where f = ?f and s = s and i = c]
    by (simp add: released_def Let_def mycpu_index_def)
  moreover have "card (held s) = Suc (card (held s - {l}))"
    using c(5) assms(2) by (metis card_Suc_Diff1)
  then have "ncli (cpus (released l s) ! c) = int (card (held (released l s)))"
    using c by (simp only: held_released) (simp add: released_def)
  moreover have "\<forall>k\<in>held (released l s). lcpu (locks (released l s) k) = Some c"
    using c(1,3) by (simp only: held_released) (auto simp: released_def Let_def)
  moreover have "fl_if (released l s) \<longrightarrow> held (released l s) = {}"
    using c \<open>card (held s) = Suc (card (held s - {l}))\<close>
    by (simp only: held_released) (auto simp: released_def Let_def)
  ultimately show ?thesis using c(5) by (simp add: lk_ok_def)
qed

text \<open>What the locks do not touch.\<close>

lemma acquired_frame [simp]:
  "mem (acquired l s) = mem s" "arg_addr (acquired l s) = arg_addr s"
  "lapic_id (acquired l s) = lapic_id s"
  "mem (released l s) = mem s" "arg_addr (released l s) = arg_addr s"
  "lapic_id (released l s) = lapic_id s"
  by (simp_all add: acquired_def released_def Let_def)

lemma lk_ok_mem [simp]: "lk_ok (s\<lparr>mem := m\<rparr>) = lk_ok s" "held (s\<lparr>mem := m\<rparr>) = held s"
  by (simp_all add: lk_ok_def held_def mycpu_index_def)


section \<open>myproc (proc.c)\<close>

definition myproc :: "('x mach_scheme, nat option) K" where
  "myproc =
     kthen [pushcli]
       (kbind mycpu (\<lambda>c.
        kbind (kgets (\<lambda>s. cproc (cpus s ! c))) (\<lambda>p.
        kthen [popcli] (kret p))))"

definition curproc :: "'x mach_scheme \<Rightarrow> nat option" where
  "curproc s = cproc (cpus s ! the (mycpu_index s))"

text \<open>The state after \<open>pushcli\<close> and \<open>popcli\<close>.\<close>

definition probed :: "'x mach_scheme \<Rightarrow> 'x mach_scheme" where
  "probed s = s\<lparr>cpus := upd_at (the (mycpu_index s))
     (\<lambda>k. k\<lparr>intena := if ncli k = 0 then fl_if s else intena k\<rparr>) (cpus s)\<rparr>"

lemma myproc_as_holding:
  assumes "mycpu_index s = Some c" "0 \<le> ncli (cpus s ! c)" "fl_if s \<longrightarrow> ncli (cpus s ! c) = 0"
  shows "myproc s = Ok (cproc (cpus s ! c)) (probed s)"
proof -
  have "holding l s = Ok (locked (locks s l) \<and> lcpu (locks s l) = Some c) (probed s)" for l
    using holding_run [OF assms] assms(1) by (simp add: probed_def)
  moreover have c: "c < length (cpus s)"
    using index_of_SomeD [OF assms(1) [unfolded mycpu_index_def]] by simp
  let ?f = "\<lambda>k. k\<lparr>intena := if ncli k = 0 then fl_if s else intena k, ncli := ncli k + 1\<rparr>"
  have "mycpu_index (s\<lparr>fl_if := False, cpus := upd_at c ?f (cpus s)\<rparr>) = Some c"
    using assms(1) mycpu_index_upd(1) [where f = ?f and s = "s\<lparr>fl_if := False\<rparr>" and i = c] by simp
  ultimately show ?thesis
    using c by (simp add: myproc_def holding_def kthen_def pushcli_run [OF assms(1)] mycpu_run kbind_eq_Ok)
qed

lemma myproc_run [simp]: "lk_ok s \<Longrightarrow> myproc s = Ok (curproc s) (probed s)"
  by (erule lk_okE) (simp add: myproc_as_holding curproc_def)

lemma mycpu_index_probed [simp]: "mycpu_index (probed s) = mycpu_index s"
  by (simp add: probed_def)

lemma held_probed [simp]: "held (probed s) = held s"
  by (simp add: held_def probed_def)

lemma lk_ok_probed [simp]: "lk_ok s \<Longrightarrow> lk_ok (probed s)"
  by (erule lk_okE) (simp add: lk_ok_def held_def, simp add: probed_def)

lemma curproc_frame [simp]:
  "lk_ok s \<Longrightarrow> curproc (probed s) = curproc s"
  "lk_ok s \<Longrightarrow> curproc (acquired l s) = curproc s"
  "lk_ok s \<Longrightarrow> curproc (released l s) = curproc s"
  "curproc (s\<lparr>mem := m\<rparr>) = curproc s"
proof -
  assume "lk_ok s"
  then obtain c where c: "mycpu_index s = Some c" "c < length (cpus s)" by (rule lk_okE)
  show "curproc (probed s) = curproc s"
    using c by (simp add: curproc_def) (simp add: probed_def)
  have "mycpu_index (acquired l s) = Some c" "mycpu_index (released l s) = Some c"
    using c(1) by (auto simp: acquired_def released_def Let_def mycpu_index_def index_of_upd_at)
  then show "curproc (acquired l s) = curproc s" "curproc (released l s) = curproc s"
    using c by (simp_all add: curproc_def) (simp_all add: acquired_def released_def Let_def)
qed (simp add: curproc_def mycpu_index_def)

lemma probed_frame [simp]:
  "mem (probed s) = mem s" "arg_addr (probed s) = arg_addr s" "lapic_id (probed s) = lapic_id s"
  "locks (probed s) = locks s"
  by (simp_all add: probed_def)

section \<open>Mutual exclusion between processors\<close>

text \<open>
  The interface of a test-and-set lock: a step enters the critical section only when the
  lock word was free and leaves it taken, and frees the word only as it leaves. The kernel
  lock and the user-level lock of ulock.c both implement it.
\<close>

locale tas_lock =
  fixes init :: "'s \<Rightarrow> bool"
    and step :: "'s \<Rightarrow> 's \<Rightarrow> bool"
    and taken :: "'s \<Rightarrow> bool"
    and holders :: "'s \<Rightarrow> nat set"
  assumes init_free: "init s \<Longrightarrow> \<not> taken s \<and> holders s = {}"
    and step_cases: "step s t \<Longrightarrow>
      (holders t = holders s \<and> taken t = taken s)
      \<or> (\<not> taken s \<and> taken t \<and> (\<exists>i. holders t = insert i (holders s)))
      \<or> (\<exists>i\<in>holders s. holders t = holders s - {i} \<and> \<not> taken t)"
begin

lemma word_matches_holders:
  assumes "init s0" "step\<^sup>*\<^sup>* s0 s"
  shows "if taken s then (\<exists>i. holders s = {i}) else holders s = {}"
  using assms(2)
proof (induction rule: rtranclp_induct)
  case base
  show ?case using init_free [OF assms(1)] by simp
next
  case (step y z)
  from step_cases [OF step.hyps(2)] step.IH show ?case
    by (cases "taken y") auto
qed

lemma mutual_exclusion:
  assumes "init s0" "step\<^sup>*\<^sup>* s0 s" "i \<in> holders s" "j \<in> holders s"
  shows "i = j"
  using word_matches_holders [OF assms(1,2)] assms(3,4) by (auto split: if_splits)

end

text \<open>
  Where a processor is in \<open>acquire\<close> or \<open>release\<close>: outside, about to execute \<open>xchg\<close>, past
  it, inside with \<open>lk->cpu\<close> recorded, and in \<open>release\<close> with \<open>lk->cpu\<close> cleared but the word
  still set. One step is one atomic access to the lock.
\<close>

datatype lkpc = Outside | Spinning | Taken | Inside | Leaving

record smp =
  lk :: spinlock
  lkpc :: "nat \<Rightarrow> lkpc"

inductive smp_step :: "smp \<Rightarrow> smp \<Rightarrow> bool" where
  start: "lkpc s i = Outside \<Longrightarrow> \<not> (locked (lk s) \<and> lcpu (lk s) = Some i) \<Longrightarrow>
     smp_step s (s\<lparr>lkpc := (lkpc s)(i := Spinning)\<rparr>)"
| xchg_fails: "lkpc s i = Spinning \<Longrightarrow> locked (lk s) \<Longrightarrow>
     smp_step s (s\<lparr>lk := (lk s)\<lparr>locked := True\<rparr>\<rparr>)"
| xchg_wins: "lkpc s i = Spinning \<Longrightarrow> \<not> locked (lk s) \<Longrightarrow>
     smp_step s (s\<lparr>lk := (lk s)\<lparr>locked := True\<rparr>, lkpc := (lkpc s)(i := Taken)\<rparr>)"
| record_cpu: "lkpc s i = Taken \<Longrightarrow>
     smp_step s (s\<lparr>lk := (lk s)\<lparr>lcpu := Some i\<rparr>, lkpc := (lkpc s)(i := Inside)\<rparr>)"
| clear_cpu: "lkpc s i = Inside \<Longrightarrow> locked (lk s) \<Longrightarrow> lcpu (lk s) = Some i \<Longrightarrow>
     smp_step s (s\<lparr>lk := (lk s)\<lparr>lcpu := None\<rparr>, lkpc := (lkpc s)(i := Leaving)\<rparr>)"
| unlock: "lkpc s i = Leaving \<Longrightarrow>
     smp_step s (s\<lparr>lk := (lk s)\<lparr>locked := False\<rparr>, lkpc := (lkpc s)(i := Outside)\<rparr>)"

definition smp_init :: "smp \<Rightarrow> bool" where
  "smp_init s \<longleftrightarrow> \<not> locked (lk s) \<and> lcpu (lk s) = None \<and> (\<forall>i. lkpc s i = Outside)"

definition in_section :: "smp \<Rightarrow> nat set" where
  "in_section s = {i. lkpc s i \<in> {Taken, Inside, Leaving}}"

inductive_cases smp_stepE: "smp_step s t"

interpretation kernel_lock: tas_lock smp_init smp_step "\<lambda>s. locked (lk s)" in_section
proof unfold_locales
  show "\<not> locked (lk s) \<and> in_section s = {}" if "smp_init s" for s
    using that by (auto simp: smp_init_def in_section_def)
next
  fix s t assume "smp_step s t"
  then show "(in_section t = in_section s \<and> locked (lk t) = locked (lk s))
      \<or> (\<not> locked (lk s) \<and> locked (lk t) \<and> (\<exists>i. in_section t = insert i (in_section s)))
      \<or> (\<exists>i\<in>in_section s. in_section t = in_section s - {i} \<and> \<not> locked (lk t))"
  proof cases
    case (xchg_wins i)
    then show ?thesis by (intro disjI2 disjI1) (auto simp: in_section_def intro!: exI [of _ i])
  next
    case (unlock i)
    then show ?thesis by (intro disjI2) (auto simp: in_section_def intro!: bexI [of _ i])
  qed (auto simp: in_section_def)
qed


definition cpu_recorded :: "smp \<Rightarrow> bool" where
  "cpu_recorded s \<longleftrightarrow> (\<forall>i. lkpc s i = Inside \<longrightarrow> locked (lk s) \<and> lcpu (lk s) = Some i)"

lemma cpu_recorded_reachable:
  assumes "smp_init s0" "smp_step\<^sup>*\<^sup>* s0 s"
  shows "cpu_recorded s"
  using assms(2)
proof (induction rule: rtranclp_induct)
  case base
  show ?case using assms(1) by (auto simp: smp_init_def cpu_recorded_def)
next
  case (step y z)
  have only: "in_section y = {i}" if "i \<in> in_section y" for i
    using kernel_lock.mutual_exclusion [OF assms(1) step.hyps(1)] that by blast
  have free: "in_section y = {}" if "\<not> locked (lk y)"
    using kernel_lock.word_matches_holders [OF assms(1) step.hyps(1)] that by simp
  have rec: "locked (lk y) \<and> lcpu (lk y) = Some j" if "lkpc y j = Inside" for j
    using step.IH that by (simp add: cpu_recorded_def)
  have other: "lkpc y j \<noteq> Inside" if "lkpc y i \<in> {Taken, Inside, Leaving}" "j \<noteq> i" for i j
    using only [of i] that by (auto simp: in_section_def)
  from step.hyps(2) show ?case
  proof cases
    case (start i)
    then show ?thesis using rec by (simp add: cpu_recorded_def)
  next
    case (xchg_fails i)
    then show ?thesis using rec by (simp add: cpu_recorded_def)
  next
    case (xchg_wins i)
    then show ?thesis using free by (simp add: cpu_recorded_def in_section_def)
  next
    case (record_cpu i)
    moreover have "locked (lk y)" using free record_cpu by (auto simp: in_section_def)
    ultimately show ?thesis using other [of i] by (simp add: cpu_recorded_def)
  next
    case (clear_cpu i)
    then show ?thesis using other [of i] by (simp add: cpu_recorded_def)
  next
    case (unlock i)
    then show ?thesis using other [of i] by (simp add: cpu_recorded_def)
  qed
qed

section \<open>Properties\<close>

text \<open>C7: at most one processor is inside the section a kernel spinlock protects, in every
  state that any number of processors running \<open>acquire\<close> and \<open>release\<close> can reach.\<close>

theorem spinlock_mutual_exclusion:
  assumes "smp_init s0" "smp_step\<^sup>*\<^sup>* s0 s" "i \<in> in_section s" "j \<in> in_section s"
  shows "i = j"
  using assms by (rule kernel_lock.mutual_exclusion)

theorem spinlock_mutual_exclusion_witness:
  "\<exists>s. smp_step\<^sup>*\<^sup>* \<lparr>lk = \<lparr>locked = False, lname = [], lcpu = None, pcs = []\<rparr>, lkpc = (\<lambda>_. Outside)\<rparr> s
     \<and> 3 \<in> in_section s \<and> (\<forall>j\<in>in_section s. 3 = j)"
proof -
  let ?k = "\<lparr>locked = False, lname = [], lcpu = None, pcs = []\<rparr>"
  let ?s0 = "\<lparr>lk = ?k, lkpc = (\<lambda>_. Outside)\<rparr>"
  let ?s1 = "?s0\<lparr>lkpc := (lkpc ?s0)(3 := Spinning)\<rparr>"
  let ?s2 = "?s1\<lparr>lk := (lk ?s1)\<lparr>locked := True\<rparr>, lkpc := (lkpc ?s1)(3 := Taken)\<rparr>"
  have i: "smp_init ?s0" by (simp add: smp_init_def)
  have "smp_step ?s0 ?s1" by (rule smp_step.start) simp_all
  moreover have "smp_step ?s1 ?s2" by (rule smp_step.xchg_wins) simp_all
  ultimately have r: "smp_step\<^sup>*\<^sup>* ?s0 ?s2" by (meson r_into_rtranclp rtranclp.rtrancl_into_rtrancl)
  have "3 \<in> in_section ?s2" by (simp add: in_section_def)
  with r spinlock_mutual_exclusion [OF i r this] show ?thesis by blast
qed

text \<open>C28: a processor inside the section is the one the lock records, so the \<open>holding\<close> test
  at the start of \<open>release\<close> succeeds and its panic is unreachable for a matched release.\<close>

theorem release_never_panics:
  assumes "smp_init s0" "smp_step\<^sup>*\<^sup>* s0 s" "lkpc s i = Inside"
  shows "locked (lk s) \<and> lcpu (lk s) = Some i"
  using cpu_recorded_reachable [OF assms(1,2)] assms(3) by (simp add: cpu_recorded_def)

theorem release_never_panics_witness:
  "\<exists>s. smp_step\<^sup>*\<^sup>* \<lparr>lk = \<lparr>locked = False, lname = [], lcpu = None, pcs = []\<rparr>, lkpc = (\<lambda>_. Outside)\<rparr> s
     \<and> lkpc s 1 = Inside \<and> lcpu (lk s) = Some 1"
proof -
  let ?k = "\<lparr>locked = False, lname = [], lcpu = None, pcs = []\<rparr>"
  let ?s0 = "\<lparr>lk = ?k, lkpc = (\<lambda>_. Outside)\<rparr>"
  let ?s1 = "?s0\<lparr>lkpc := (lkpc ?s0)(1 := Spinning)\<rparr>"
  let ?s2 = "?s1\<lparr>lk := (lk ?s1)\<lparr>locked := True\<rparr>, lkpc := (lkpc ?s1)(1 := Taken)\<rparr>"
  let ?s3 = "?s2\<lparr>lk := (lk ?s2)\<lparr>lcpu := Some 1\<rparr>, lkpc := (lkpc ?s2)(1 := Inside)\<rparr>"
  have i: "smp_init ?s0" by (simp add: smp_init_def)
  have "smp_step ?s0 ?s1" by (rule smp_step.start) simp_all
  moreover have "smp_step ?s1 ?s2" by (rule smp_step.xchg_wins) simp_all
  moreover have "smp_step ?s2 ?s3" by (rule smp_step.record_cpu) simp_all
  ultimately have r: "smp_step\<^sup>*\<^sup>* ?s0 ?s3" by (meson r_into_rtranclp rtranclp.rtrancl_into_rtrancl)
  have c: "lkpc ?s3 1 = Inside" by simp
  from r release_never_panics [OF i r c] show ?thesis by auto
qed

text \<open>C29: \<open>acquire\<close> of a free lock followed by \<open>release\<close> returns, leaves the same locks
  taken and puts the interrupt flag back as it was.\<close>

theorem acquire_release_restores:
  assumes "lk_ok s" "l \<notin> held s"
  shows "\<exists>t. kdo [acquire l, release l] s = Ok () t
     \<and> held t = held s \<and> lk_ok t \<and> fl_if t = fl_if s \<and> mem t = mem s"
proof -
  obtain c where c: "mycpu_index s = Some c" "c < length (cpus s)"
    "ncli (cpus s ! c) = int (card (held s))" "finite (held s)" "fl_if s \<longrightarrow> held s = {}"
    using assms(1) by (rule lk_okE)
  let ?a = "acquired l s"
  have a: "lk_ok ?a" "l \<in> held ?a" using assms by simp_all
  have "mycpu_index ?a = Some c"
    using c(1) by (simp add: acquired_def Let_def mycpu_index_def index_of_upd_at)
  then have "fl_if (released l ?a) = fl_if s"
    using c by (auto simp: released_def Let_def) (auto simp: acquired_def)
  then show ?thesis using assms a by simp
qed

definition smp_boot :: mach where
  "smp_boot = \<lparr>cpus = [\<lparr>apicid = 0, started = True, ncli = 0, intena = False, cproc = Some 0\<rparr>],
     lapic_id = 0, fl_if = True,
     locks = (\<lambda>_. \<lparr>locked = False, lname = [], lcpu = None, pcs = replicate 10 0\<rparr>),
     mem = (\<lambda>_. 0), arg_addr = 0\<rparr>"

theorem acquire_release_restores_witness:
  "lk_ok smp_boot \<and> PtableLock \<notin> held smp_boot
     \<and> (\<exists>t. kdo [acquire PtableLock, release PtableLock] smp_boot = Ok () t \<and> fl_if t)"
proof -
  have h: "lk_ok smp_boot" "PtableLock \<notin> held smp_boot"
    by (simp_all add: lk_ok_def held_def mycpu_index_def smp_boot_def)
  from acquire_release_restores [OF h] h show ?thesis by (auto simp: smp_boot_def)
qed

end
