(* ===== verification/Xv6_String.thy ===== *)
theory Xv6_String
  imports Xv6_Param
begin

text \<open>
  string.c: the memory functions on byte-addressed memory, the string functions on byte
  lists (a pointer into a string is the list from there on; reading past the end of the
  list reads the terminating NUL). \<open>stosb\<close> and \<open>stosl\<close> are the x86 string stores of x86.h.
\<close>

section \<open>memset, memcmp, memmove\<close>

primrec stosb :: "nat \<Rightarrow> addr \<Rightarrow> uchar \<Rightarrow> byte_mem \<Rightarrow> byte_mem" where
  "stosb 0 d c m = m"
| "stosb (Suc n) d c m = stosb n (d + 1) c (m(d := c))"

primrec stosl :: "nat \<Rightarrow> addr \<Rightarrow> uint \<Rightarrow> byte_mem \<Rightarrow> byte_mem" where
  "stosl 0 d v m = m"
| "stosl (Suc n) d v m = stosl n (d + 4) v (store32 d v m)"

definition memset :: "addr \<Rightarrow> uint \<Rightarrow> nat \<Rightarrow> byte_mem \<Rightarrow> byte_mem" where
  "memset dst c n m =
     (if unat dst mod 4 = 0 \<and> n mod 4 = 0
      then let c = c AND 0xFF
           in stosl (n div 4) dst (push_bit 24 c OR push_bit 16 c OR push_bit 8 c OR c) m
      else stosb n dst (ucast c) m)"

primrec memcmp :: "byte_mem \<Rightarrow> nat \<Rightarrow> addr \<Rightarrow> addr \<Rightarrow> int" where
  "memcmp m 0 s1 s2 = 0"
| "memcmp m (Suc n) s1 s2 =
     (if m s1 \<noteq> m s2 then int (unat (m s1)) - int (unat (m s2))
      else memcmp m n (s1 + 1) (s2 + 1))"

primrec move_up :: "nat \<Rightarrow> addr \<Rightarrow> addr \<Rightarrow> byte_mem \<Rightarrow> byte_mem" where
  "move_up 0 d s m = m"
| "move_up (Suc n) d s m = move_up n (d + 1) (s + 1) (m(d := m s))"

primrec move_down :: "nat \<Rightarrow> addr \<Rightarrow> addr \<Rightarrow> byte_mem \<Rightarrow> byte_mem" where
  "move_down 0 d s m = m"
| "move_down (Suc n) d s m = move_down n (d - 1) (s - 1) (m(d - 1 := m (s - 1)))"

definition memmove :: "addr \<Rightarrow> addr \<Rightarrow> nat \<Rightarrow> byte_mem \<Rightarrow> byte_mem" where
  "memmove dst src n m =
     (if src < dst \<and> dst < src + of_nat n
      then move_down n (dst + of_nat n) (src + of_nat n) m
      else move_up n dst src m)"

definition memcpy :: "addr \<Rightarrow> addr \<Rightarrow> nat \<Rightarrow> byte_mem \<Rightarrow> byte_mem" where
  "memcpy dst src n m = memmove dst src n m"

subsection \<open>Closed forms\<close>

definition filled :: "addr \<Rightarrow> uchar \<Rightarrow> nat \<Rightarrow> byte_mem \<Rightarrow> byte_mem" where
  "filled d c n m = (\<lambda>a. if unat (a - d) < n then c else m a)"

definition copied :: "addr \<Rightarrow> addr \<Rightarrow> nat \<Rightarrow> byte_mem \<Rightarrow> byte_mem" where
  "copied d s n m = (\<lambda>a. if unat (a - d) < n then m (s + (a - d)) else m a)"

lemma unat_diff_Suc:
  fixes a d :: addr
  assumes "a \<noteq> d"
  shows "unat (a - d) = Suc (unat (a - (d + 1)))"
proof -
  have "a - d \<noteq> 0" using assms by simp
  then have "unat (a - d - 1) = unat (a - d) - 1" by (rule unat_minus_one)
  moreover have "unat (a - d) \<noteq> 0" using assms by (simp add: unat_eq_zero)
  ultimately show ?thesis by (simp add: diff_diff_add)
qed

lemma unat_m1: "unat (- 1 :: addr) = 4294967295"
  by (simp add: unsigned_minus_1_eq_mask mask_eq_exp_minus_1)

lemma unat_diff_self: "unat (d - (d + 1) :: addr) = 4294967295"
  by (simp add: unat_m1)

lemma stosb_filled:
  "n \<le> 4294967296 \<Longrightarrow> stosb n d c m = filled d c n m"
proof (induction n arbitrary: d m)
  case 0
  then show ?case by (simp add: filled_def)
next
  case (Suc n)
  show ?case
  proof
    fix a
    show "stosb (Suc n) d c m a = filled d c (Suc n) m a"
    proof (cases "a = d")
      case True
      then show ?thesis using Suc by (simp add: filled_def unat_m1)
    next
      case False
      then show ?thesis using Suc unat_diff_Suc [OF False] by (simp add: filled_def)
    qed
  qed
qed

lemma stosb_add: "stosb (i + j) d c m = stosb j (d + of_nat i) c (stosb i d c m)"
  by (induction i arbitrary: d m) (simp_all add: algebra_simps)

lemma store32_splat:
  "store32 d (push_bit 24 (c AND 0xFF) OR push_bit 16 (c AND 0xFF) OR push_bit 8 (c AND 0xFF)
     OR (c AND 0xFF)) m = stosb 4 d (ucast c) m"
proof -
  let ?v = "push_bit 24 (c AND 0xFF) OR push_bit 16 (c AND 0xFF) OR push_bit 8 (c AND 0xFF)
     OR (c AND 0xFF) :: uint"
  have m8: "(0xFF :: uint) = mask 8" by (simp add: mask_eq_exp_minus_1)
  have b: "(ucast (drop_bit (8 * k) ?v) :: uchar) = ucast c" if k: "k < 4" for k
  proof (rule bit_word_eqI)
    fix n assume "n < LENGTH(8)"
    then have n: "n < 8" by simp
    consider "k = 0" | "k = 1" | "k = 2" | "k = 3" using k by linarith
    then show "bit (ucast (drop_bit (8 * k) ?v) :: uchar) n = bit (ucast c :: uchar) n"
      unfolding m8 using n by cases (auto simp: bit_simps)
  qed
  have "ucast ?v = (ucast c :: uchar)" "ucast (drop_bit 8 ?v) = (ucast c :: uchar)"
    "ucast (drop_bit 16 ?v) = (ucast c :: uchar)" "ucast (drop_bit 24 ?v) = (ucast c :: uchar)"
    using b [of 0] b [of 1] b [of 2] b [of 3] by simp_all
  then show ?thesis
    by (simp add: store32_def numeral_eq_Suc add.assoc)
qed

lemma stosl_splat:
  "stosl n d (push_bit 24 (c AND 0xFF) OR push_bit 16 (c AND 0xFF) OR push_bit 8 (c AND 0xFF)
     OR (c AND 0xFF)) m = stosb (4 * n) d (ucast c) m"
proof (induction n arbitrary: d m)
  case 0
  then show ?case by simp
next
  case (Suc n)
  have "4 * Suc n = 4 + 4 * n" by simp
  then show ?case by (simp only: stosl.simps store32_splat Suc.IH stosb_add) simp
qed

text \<open>Both paths of \<open>memset\<close> fill exactly \<open>n\<close> bytes.\<close>

lemma memset_filled:
  assumes "n \<le> 4294967296"
  shows "memset dst c n m = filled dst (ucast c) n m"
proof (cases "unat dst mod 4 = 0 \<and> n mod 4 = 0")
  case True
  then have "4 * (n div 4) = n" by auto
  then have "memset dst c n m = stosb n dst (ucast c) m"
    using True stosl_splat [of "n div 4" dst c m] by (simp only: memset_def Let_def if_True simp_thms)
  then show ?thesis using assms by (simp add: stosb_filled)
next
  case False
  then show ?thesis using assms by (simp only: memset_def if_False stosb_filled)
qed


lemma copied_shift:
  assumes "n < 4294967296" and "d \<le> s \<or> unat s + Suc n \<le> unat d" and "unat s + Suc n \<le> 4294967296"
  shows "copied (d + 1) (s + 1) n (m(d := m s)) = copied d s (Suc n) m"
proof
  fix a
  show "copied (d + 1) (s + 1) n (m(d := m s)) a = copied d s (Suc n) m a"
  proof (cases "a = d")
    case True
    then show ?thesis using assms(1) by (simp add: copied_def unat_m1)
  next
    case False
    have "s + (a - d) \<noteq> d" if k: "unat (a - d) < Suc n"
    proof
      assume e: "s + (a - d) = d"
      have "unat (s + (a - d)) = unat s + unat (a - d)"
        using k assms(3) by (simp add: unat_word_ariths)
      with e have "unat d = unat s + unat (a - d)" by (simp only:)
      then show False using assms(2) k False
        by (auto simp: word_le_nat_alt unat_eq_zero)
    qed
    moreover have "s + 1 + (a - (d + 1)) = s + (a - d)" by simp
    ultimately show ?thesis using False unat_diff_Suc [OF False] by (auto simp: copied_def)
  qed
qed

lemma move_up_copied:
  assumes "unat s + n \<le> 4294967296" "d \<le> s \<or> unat s + n \<le> unat d" "unat d + n \<le> 4294967296"
  shows "move_up n d s m = copied d s n m"
  using assms
proof (induction n arbitrary: d s m)
  case 0
  then show ?case by (simp add: copied_def)
next
  case (Suc n)
  show ?case
  proof (cases "n = 0")
    case True
    then show ?thesis by (auto simp: copied_def unat_eq_zero)
  next
    case False
    have s1: "unat (s + 1) = unat s + 1" and d1: "unat (d + 1) = unat d + 1"
      using Suc.prems(1,3) False by (simp_all add: unat_word_ariths)
    have "move_up n (d + 1) (s + 1) (m(d := m s)) = copied (d + 1) (s + 1) n (m(d := m s))"
      by (rule Suc.IH) (use Suc.prems s1 d1 in \<open>auto simp: word_le_nat_alt\<close>)
    moreover have "n < 4294967296" using Suc.prems(1) by simp
    ultimately show ?thesis using Suc.prems copied_shift [of n d s m] by simp
  qed
qed

lemma move_down_copied:
  assumes "unat s + n \<le> 4294967296" "unat d + n \<le> 4294967296" "s \<le> d"
  shows "move_down n (d + of_nat n) (s + of_nat n) m = copied d s n m"
  using assms
proof (induction n arbitrary: m)
  case 0
  then show ?case by (simp add: copied_def)
next
  case (Suc n)
  let ?m = "m(d + of_nat n := m (s + of_nat n))"
  have un: "unat (of_nat n :: addr) = n" using Suc.prems(1) by (simp add: unat_of_nat)
  have "d + of_nat (Suc n) - 1 = d + of_nat n" "s + of_nat (Suc n) - 1 = s + of_nat n" by simp_all
  then have "move_down (Suc n) (d + of_nat (Suc n)) (s + of_nat (Suc n)) m
      = move_down n (d + of_nat n) (s + of_nat n) ?m"
    by (simp only: move_down.simps)
  also have "\<dots> = copied d s n ?m"
    by (rule Suc.IH) (use Suc.prems in simp_all)
  also have "\<dots> = copied d s (Suc n) m"
  proof
    fix a
    have sn: "s + (a - d) \<noteq> d + of_nat n" if "unat (a - d) < n"
    proof
      assume e: "s + (a - d) = d + of_nat n"
      have "unat (s + (a - d)) = unat s + unat (a - d)" "unat (d + of_nat n) = unat d + n"
        using that Suc.prems un by (simp_all add: unat_word_ariths)
      with e have "unat s + unat (a - d) = unat d + n" by (simp only:)
      with that Suc.prems(3) show False by (simp add: word_le_nat_alt)
    qed
    have eq: "unat (a - d) = n \<longleftrightarrow> a = d + of_nat n"
      using un word_unat_eq_iff [of "a - d" "of_nat n"] by (auto simp: algebra_simps)
    show "copied d s n ?m a = copied d s (Suc n) m a"
      using sn eq by (auto simp: copied_def less_Suc_eq)
  qed
  finally show ?case .
qed

lemma memmove_copied:
  assumes "unat src + n < 4294967296" "unat dst + n \<le> 4294967296"
  shows "memmove dst src n m = copied dst src n m"
proof (cases "src < dst \<and> dst < src + of_nat n")
  case True
  then show ?thesis
    using assms move_down_copied [of src n dst m] by (auto simp: memmove_def)
next
  case False
  have "unat (src + of_nat n) = unat src + n"
    using assms(1) by (simp add: unat_word_ariths unat_of_nat)
  then have "dst \<le> src \<or> unat src + n \<le> unat dst"
    using False by (auto simp: word_le_nat_alt word_less_nat_alt)
  then show ?thesis
    using False assms move_up_copied [of src n dst m] by (auto simp: memmove_def)
qed

section \<open>strncmp, strncpy, safestrcpy, strlen\<close>

type_synonym cstr = "uchar list"

definition hdc :: "cstr \<Rightarrow> uchar" where
  "hdc p = (case p of [] \<Rightarrow> 0 | c # _ \<Rightarrow> c)"

lemma hdc_simps [simp]: "hdc [] = 0" "hdc (c # p) = c"
  by (simp_all add: hdc_def)

primrec strncmp :: "nat \<Rightarrow> cstr \<Rightarrow> cstr \<Rightarrow> int" where
  "strncmp 0 p q = 0"
| "strncmp (Suc n) p q =
     (if hdc p \<noteq> 0 \<and> hdc p = hdc q then strncmp n (tl p) (tl q)
      else int (unat (hdc p)) - int (unat (hdc q)))"

text \<open>\<open>strncpy n t\<close>: the \<open>n\<close> bytes written to the destination.\<close>

primrec strncpy :: "nat \<Rightarrow> cstr \<Rightarrow> cstr" where
  "strncpy 0 t = []"
| "strncpy (Suc n) t =
     (if hdc t = 0 then 0 # replicate n 0 else hdc t # strncpy n (tl t))"

text \<open>\<open>safestrcpy n s t\<close> overwrites the array \<open>s\<close>. The loop leaves \<open>s\<close> one past the NUL it
  copied, so the final \<open>*s = 0\<close> clears the byte after it too.\<close>

fun safestrcpy :: "nat \<Rightarrow> cstr \<Rightarrow> cstr \<Rightarrow> cstr" where
  "safestrcpy 0 s t = s"
| "safestrcpy (Suc 0) s t = s[0 := 0]"
| "safestrcpy (Suc (Suc n)) [] t = []"
| "safestrcpy (Suc (Suc n)) (_ # s) t =
     (if hdc t = 0 then 0 # s[0 := 0] else hdc t # safestrcpy (Suc n) s (tl t))"

fun strlen :: "cstr \<Rightarrow> nat" where
  "strlen [] = 0"
| "strlen (c # s) = (if c = 0 then 0 else Suc (strlen s))"

definition str_of :: "cstr \<Rightarrow> cstr" where
  "str_of s = takeWhile (\<lambda>c. c \<noteq> 0) s"

lemma strlen_str_of: "strlen s = length (str_of s)"
  by (induction s) (simp_all add: str_of_def)

lemma length_strncpy [simp]: "length (strncpy n t) = n"
  by (induction n arbitrary: t) auto

lemma length_safestrcpy [simp]: "length (safestrcpy n s t) = length s"
  by (induction n s t rule: safestrcpy.induct) auto

lemma str_of_Cons [simp]: "str_of (c # s) = (if c = 0 then [] else c # str_of s)" "str_of [] = []"
  by (simp_all add: str_of_def)

lemma str_of_unfold: "str_of t = (if hdc t = 0 then [] else hdc t # str_of (tl t))"
  by (cases t) auto

lemma strncmp_zero:
  "strncmp n p q = 0 \<longleftrightarrow> take n (str_of p) = take n (str_of q)"
proof (induction n arbitrary: p q)
  case 0
  then show ?case by simp
next
  case (Suc n)
  show ?case
  proof (cases "hdc p \<noteq> 0 \<and> hdc p = hdc q")
    case True
    then show ?thesis
      using Suc.IH [of "tl p" "tl q"] str_of_unfold [of p] str_of_unfold [of q] by simp
  next
    case False
    then show ?thesis
      using str_of_unfold [of p] str_of_unfold [of q]
      by (auto simp: unat_gt_0 simp del: of_nat_unat dest: unsigned_word_eqI)
  qed
qed

lemma str_of_strncpy: "str_of (strncpy n t) = take n (str_of t)"
proof (induction n arbitrary: t)
  case (Suc n)
  then show ?case using str_of_unfold [of t] by auto
qed simp

lemma str_of_safestrcpy:
  "0 < n \<Longrightarrow> n \<le> length s \<Longrightarrow> str_of (safestrcpy n s t) = take (n - 1) (str_of t)"
proof (induction n s t rule: safestrcpy.induct)
  case (2 s t)
  then show ?case by (cases s) auto
next
  case (4 n c s t)
  then show ?case using str_of_unfold [of t] by auto
qed auto

lemma drop_safestrcpy: "drop n (safestrcpy n s t) = drop n s"
proof (induction n s t rule: safestrcpy.induct)
  case (2 s t)
  then show ?case by (cases s) auto
next
  case (4 n c s t)
  then show ?case by (cases s) auto
qed auto

section \<open>Properties\<close>

text \<open>C30: \<open>memmove\<close> moves the source bytes as they were before the call, whether or not the
  regions overlap, and changes nothing outside the destination.\<close>

theorem memmove_correct:
  assumes "unat src + n < 4294967296" "unat dst + n \<le> 4294967296"
  shows "memmove dst src n m a = (if unat (a - dst) < n then m (src + (a - dst)) else m a)"
  using memmove_copied [OF assms] by (simp add: copied_def)

theorem memmove_correct_witness:
  "memmove 101 100 3 (\<lambda>a. ucast a) 103 = 102 \<and> memmove 101 100 3 (\<lambda>a. ucast a) 104 = 104"
  using memmove_correct [of 100 3 101 "\<lambda>a. ucast a" 103]
    memmove_correct [of 100 3 101 "\<lambda>a. ucast a" 104] by simp

text \<open>C31: \<open>safestrcpy\<close> stores the longest prefix of the string that leaves room for a NUL in
  an array of at least \<open>n\<close> bytes, terminates it, and does not write past \<open>n\<close>.\<close>

theorem safestrcpy_correct:
  assumes "0 < n" "n \<le> length s"
  shows "str_of (safestrcpy n s t) = take (n - 1) (str_of t)
     \<and> length (safestrcpy n s t) = length s \<and> drop n (safestrcpy n s t) = drop n s"
  using str_of_safestrcpy [OF assms] by (simp add: drop_safestrcpy)

theorem safestrcpy_correct_witness:
  "str_of (safestrcpy 3 [9, 9, 9, 9] [1, 2, 3, 4]) = [1, 2]"
  using safestrcpy_correct [of 3 "[9, 9, 9, 9]" "[1, 2, 3, 4]"] by simp

end
