(* ===== verification/Xv6_Kalloc.thy ===== *)
theory Xv6_Kalloc
  imports Xv6_Spinlock Xv6_String
begin

text \<open>
  kalloc.c: the physical page allocator. The free list is threaded through the free pages
  themselves (struct run), so it lives in \<open>mem\<close>; \<open>kend\<close> is the linker symbol \<open>end\<close>.
\<close>

record kmem_state = mach +
  kmem_freelist :: addr
  kmem_use_lock :: bool
  kend :: addr

section \<open>Operations\<close>

definition mem_mod :: "(byte_mem \<Rightarrow> byte_mem) \<Rightarrow> ('x mach_scheme, unit) K" where
  "mem_mod f = kmod (\<lambda>s. s\<lparr>mem := f (mem s)\<rparr>)"

definition kfree :: "addr \<Rightarrow> ('x kmem_state_scheme, unit) K" where
  "kfree v =
     kbind (kgets kend) (\<lambda>e.
     if unat v mod 4096 \<noteq> 0 \<or> v < e \<or> V2P v \<ge> PHYSTOP then kpanic ''kfree''
     else kthen [mem_mod (memset v 1 4096)]
       (kbind (kgets kmem_use_lock) (\<lambda>use_lock.
        kdo [kwhen use_lock (acquire KmemLock),
             kmod (\<lambda>s. s\<lparr>mem := store32 v (kmem_freelist s) (mem s)\<rparr>),
             kmod (\<lambda>s. s\<lparr>kmem_freelist := v\<rparr>),
             kwhen use_lock (release KmemLock)])))"

definition kalloc :: "('x kmem_state_scheme, addr) K" where
  "kalloc =
     kbind (kgets kmem_use_lock) (\<lambda>use_lock.
     kthen [kwhen use_lock (acquire KmemLock)]
       (kbind (kgets kmem_freelist) (\<lambda>r.
        kthen [kwhen (r \<noteq> 0) (kmod (\<lambda>s. s\<lparr>kmem_freelist := load32 (mem s) r\<rparr>)),
               kwhen use_lock (release KmemLock)]
          (kret r))))"

text \<open>The loop \<open>for(; p + PGSIZE <= vend; p += PGSIZE)\<close>; the first argument bounds the number
  of pages and running out of it would be a loop that does not end.\<close>

primrec freerange_loop :: "nat \<Rightarrow> addr \<Rightarrow> addr \<Rightarrow> ('x kmem_state_scheme, unit) K" where
  "freerange_loop 0 p vend = (if p + PGSIZE \<le> vend then kspin else kret ())"
| "freerange_loop (Suc n) p vend =
     (if p + PGSIZE \<le> vend then kbind (kfree p) (\<lambda>_. freerange_loop n (p + PGSIZE) vend)
      else kret ())"

definition freerange :: "addr \<Rightarrow> addr \<Rightarrow> ('x kmem_state_scheme, unit) K" where
  "freerange vstart vend = freerange_loop (unat vend div 4096) (PGROUNDUP vstart) vend"

definition kinit1 :: "addr \<Rightarrow> addr \<Rightarrow> ('x kmem_state_scheme, unit) K" where
  "kinit1 vstart vend =
     kdo [initlock KmemLock ''kmem'', kmod (\<lambda>s. s\<lparr>kmem_use_lock := False\<rparr>), freerange vstart vend]"

definition kinit2 :: "addr \<Rightarrow> addr \<Rightarrow> ('x kmem_state_scheme, unit) K" where
  "kinit2 vstart vend =
     kdo [freerange vstart vend, kmod (\<lambda>s. s\<lparr>kmem_use_lock := True\<rparr>)]"

section \<open>The free list as a list\<close>

primrec chain :: "byte_mem \<Rightarrow> addr \<Rightarrow> addr list \<Rightarrow> bool" where
  "chain m p [] \<longleftrightarrow> p = 0"
| "chain m p (q # qs) \<longleftrightarrow> p = q \<and> q \<noteq> 0 \<and> chain m (load32 m q) qs"

lemma chain_cong:
  "(\<And>p. p \<in> set ps \<Longrightarrow> load32 m p = load32 m' p) \<Longrightarrow> chain m x ps = chain m' x ps"
  by (induction ps arbitrary: x) auto

lemma chain_unique: "chain m x ps \<Longrightarrow> chain m x qs \<Longrightarrow> ps = qs"
proof (induction ps arbitrary: x qs)
  case Nil
  then show ?case by (cases qs) auto
next
  case (Cons p ps)
  then show ?case by (cases qs) auto
qed

definition kpage :: "'x kmem_state_scheme \<Rightarrow> addr \<Rightarrow> bool" where
  "kpage s p \<longleftrightarrow> page_aligned p \<and> kend s \<le> p \<and> V2P p < PHYSTOP \<and> p \<noteq> 0"

definition kmem_ok :: "'x kmem_state_scheme \<Rightarrow> addr list \<Rightarrow> bool" where
  "kmem_ok s ps \<longleftrightarrow> chain (mem s) (kmem_freelist s) ps \<and> distinct ps \<and> (\<forall>p\<in>set ps. kpage s p)"

text \<open>An address is in a page exactly when it rounds down to it.\<close>

definition in_page :: "addr \<Rightarrow> addr \<Rightarrow> bool" where
  "in_page p a \<longleftrightarrow> unat (a - p) < 4096"

lemma in_page_iff:
  assumes "page_aligned p"
  shows "in_page p a \<longleftrightarrow> PGROUNDDOWN a = p"
proof
  obtain k where k: "unat p = 4096 * k" using assms by (auto simp: page_aligned_def)
  assume h: "in_page p a"
  then have lt: "unat (a - p) < 4096" by (simp add: in_page_def)
  have k2: "k < 1048576" using unat32_lt [of p] k by linarith
  have "unat (p + (a - p)) = unat p + unat (a - p)"
    using lt k k2 by (subst unat_word_ariths) simp
  then have "unat a = 4096 * k + unat (a - p)" using k by simp
  then have "unat a - unat a mod 4096 = 4096 * k" using lt by simp
  then show "PGROUNDDOWN a = p" using k by (simp add: word_unat_eq_iff unat_PGROUNDDOWN)
next
  assume h: "PGROUNDDOWN a = p"
  then have u: "unat p = unat a - unat a mod 4096" by (simp add: unat_PGROUNDDOWN flip: h)
  then have "p \<le> a" by (simp add: word_le_nat_alt)
  then have "unat (a - p) = unat a mod 4096"
    using u mod_less_eq_dividend [of "unat a" 4096] by (simp add: unat_sub)
  then show "in_page p a" by (simp add: in_page_def)
qed

lemma in_page_disjoint:
  "page_aligned p \<Longrightarrow> page_aligned q \<Longrightarrow> in_page p a \<Longrightarrow> in_page q a \<Longrightarrow> p = q"
  by (simp add: in_page_iff)

lemma in_page_offset: "unat off < 4096 \<Longrightarrow> in_page p (p + off)"
  by (simp add: in_page_def)

lemma load32_outside_page:
  assumes "\<And>a. \<not> in_page v a \<Longrightarrow> m' a = m a" "page_aligned v" "page_aligned p" "p \<noteq> v"
    and "unat off + 3 < 4096"
  shows "load32 m' (p + off) = load32 m (p + off)"
proof (rule load32_cong)
  fix i :: nat assume i: "i < 4"
  have "unat (off + of_nat i) < 4096"
    using assms(5) i by (simp add: unat_word_ariths unat_of_nat)
  then have "in_page p (p + off + of_nat i)"
    by (simp only: add.assoc in_page_offset)
  then have "\<not> in_page v (p + off + of_nat i)"
    using in_page_disjoint [OF assms(3,2)] assms(4) by blast
  then show "m' (p + off + of_nat i) = m (p + off + of_nat i)" by (rule assms(1))
qed

lemma in_page_word:
  assumes "in_page v (v + off)" "unat off + i < 4096" "i < 4"
  shows "in_page v (v + off + of_nat i)"
proof -
  have "unat (off + of_nat i) < 4096"
    using assms(2,3) by (simp add: unat_word_ariths unat_of_nat)
  then show ?thesis by (simp only: add.assoc in_page_offset)
qed

lemma store32_in_page:
  assumes "unat off + 3 < 4096" "\<not> in_page v a"
  shows "store32 (v + off) x m a = m a"
proof -
  have "a \<noteq> v + off + of_nat i" if "i < 4" for i
    using in_page_word [of v off i] in_page_offset [of off v] assms that by auto
  from this [of 0] this [of 1] this [of 2] this [of 3] show ?thesis
    by (simp add: store32_def)
qed

lemma filled_outside: "\<not> in_page v a \<Longrightarrow> filled v c 4096 m a = m a"
  by (simp add: filled_def in_page_def)

section \<open>kalloc and kfree on the list of free pages\<close>

lemma kmem_frame [simp]:
  fixes s :: "'x kmem_state_scheme"
  shows "kmem_freelist (acquired l s) = kmem_freelist s" "kmem_use_lock (acquired l s) = kmem_use_lock s"
    "kend (acquired l s) = kend s"
    "kmem_freelist (released l s) = kmem_freelist s" "kmem_use_lock (released l s) = kmem_use_lock s"
    "kend (released l s) = kend s"
    "kmem_freelist (probed s) = kmem_freelist s" "kmem_use_lock (probed s) = kmem_use_lock s"
    "kend (probed s) = kend s"
  by (simp_all add: acquired_def released_def probed_def Let_def)

lemma lk_ok_kmem [simp]:
  fixes s :: "'x kmem_state_scheme"
  shows "lk_ok (s\<lparr>kmem_freelist := x\<rparr>) = lk_ok s" "held (s\<lparr>kmem_freelist := x\<rparr>) = held s"
    "lk_ok (s\<lparr>kmem_use_lock := b\<rparr>) = lk_ok s" "held (s\<lparr>kmem_use_lock := b\<rparr>) = held s"
    "curproc (s\<lparr>kmem_freelist := x\<rparr>) = curproc s"
  by (simp_all add: lk_ok_def held_def mycpu_index_def curproc_def)

definition with_kmem_lock :: "('x kmem_state_scheme \<Rightarrow> 'x kmem_state_scheme) \<Rightarrow> 'x kmem_state_scheme \<Rightarrow> 'x kmem_state_scheme" where
  "with_kmem_lock f s = (if kmem_use_lock s then released KmemLock (f (acquired KmemLock s)) else f s)"

definition after_kalloc :: "'x kmem_state_scheme \<Rightarrow> 'x kmem_state_scheme" where
  "after_kalloc s = with_kmem_lock (\<lambda>t. if kmem_freelist t \<noteq> 0
     then t\<lparr>kmem_freelist := load32 (mem t) (kmem_freelist t)\<rparr> else t) s"

definition after_kfree :: "addr \<Rightarrow> 'x kmem_state_scheme \<Rightarrow> 'x kmem_state_scheme" where
  "after_kfree v s = with_kmem_lock (\<lambda>t. t\<lparr>mem := store32 v (kmem_freelist t) (mem t),
     kmem_freelist := v\<rparr>) (s\<lparr>mem := memset v 1 4096 (mem s)\<rparr>)"

lemma kalloc_run [simp]:
  assumes "lk_ok s" "KmemLock \<notin> held s"
  shows "kalloc s = Ok (kmem_freelist s) (after_kalloc s)"
  using assms
  by (auto simp: kalloc_def kthen_def after_kalloc_def with_kmem_lock_def kwhen_def)

lemma kfree_run:
  assumes "lk_ok s" "KmemLock \<notin> held s" "kpage s v"
  shows "kfree v s = Ok () (after_kfree v s)"
proof -
  have "\<not> (unat v mod 4096 \<noteq> 0 \<or> v < kend s \<or> V2P v \<ge> PHYSTOP)"
    using assms(3) by (auto simp: kpage_def page_aligned_def)
  then show ?thesis
    using assms(1,2)
    by (auto simp: kfree_def kthen_def after_kfree_def with_kmem_lock_def kwhen_def mem_mod_def)
qed

lemma kfree_panics:
  "\<not> (page_aligned v \<and> kend s \<le> v \<and> V2P v < PHYSTOP) \<Longrightarrow> kfree v s = Panic ''kfree''"
  by (auto simp: kfree_def page_aligned_def)

lemma after_kalloc_frame [simp]:
  assumes "lk_ok s" "KmemLock \<notin> held s"
  shows "lk_ok (after_kalloc s)" "held (after_kalloc s) = held s" "mem (after_kalloc s) = mem s"
    "curproc (after_kalloc s) = curproc s" "kend (after_kalloc s) = kend s"
    "kmem_use_lock (after_kalloc s) = kmem_use_lock s"
    "kmem_freelist (after_kalloc s) = (if kmem_freelist s \<noteq> 0 then load32 (mem s) (kmem_freelist s) else 0)"
  using assms by (auto simp: after_kalloc_def with_kmem_lock_def)

lemma after_kfree_frame [simp]:
  assumes "lk_ok s" "KmemLock \<notin> held s"
  shows "lk_ok (after_kfree v s)" "held (after_kfree v s) = held s"
    "mem (after_kfree v s) = store32 v (kmem_freelist s) (memset v 1 4096 (mem s))"
    "curproc (after_kfree v s) = curproc s" "kend (after_kfree v s) = kend s"
    "kmem_use_lock (after_kfree v s) = kmem_use_lock s"
    "kmem_freelist (after_kfree v s) = v"
  using assms by (auto simp: after_kfree_def with_kmem_lock_def)

lemma kmem_ok_alloc:
  assumes "lk_ok s" "KmemLock \<notin> held s" "kmem_ok s ps"
  shows "kmem_ok (after_kalloc s) (tl ps)" "kmem_freelist s = (if ps = [] then 0 else hd ps)"
  using assms by (cases ps; auto simp: kmem_ok_def kpage_def)+

lemma kfree_mem_outside:
  "\<not> in_page v a \<Longrightarrow> store32 v x (memset v 1 4096 m) a = m a"
  using store32_in_page [of 0 v a x "memset v 1 4096 m"]
  by (simp add: memset_filled filled_outside)

lemma kmem_ok_free:
  assumes "lk_ok s" "KmemLock \<notin> held s" "kmem_ok s ps" "kpage s v" "v \<notin> set ps"
  shows "kmem_ok (after_kfree v s) (v # ps)"
proof -
  let ?m = "store32 v (kmem_freelist s) (memset v 1 4096 (mem s))"
  have v: "page_aligned v" "v \<noteq> 0" using assms(4) by (simp_all add: kpage_def)
  have "load32 ?m p = load32 (mem s) p" if "p \<in> set ps" for p
  proof -
    have "page_aligned p" "p \<noteq> v" using that assms(3,5) by (auto simp: kmem_ok_def kpage_def)
    then show ?thesis
      using load32_outside_page [of v ?m "mem s" p 0] v(1) by (simp add: kfree_mem_outside)
  qed
  then have "chain ?m (kmem_freelist s) ps = chain (mem s) (kmem_freelist s) ps"
    by (rule chain_cong) simp
  then show ?thesis
    using assms v by (simp add: kmem_ok_def kpage_def)
qed


section \<open>freerange\<close>

primrec pages_from :: "nat \<Rightarrow> addr \<Rightarrow> addr list" where
  "pages_from 0 p = []"
| "pages_from (Suc n) p = p # pages_from n (p + PGSIZE)"

lemma unat_next_page:
  "unat p + 4096 < 4294967296 \<Longrightarrow> unat (p + PGSIZE) = unat p + 4096"
  by (simp add: unat_word_ariths)

lemma pages_from_range:
  assumes "unat p + 4096 * n < 4294967296" "q \<in> set (pages_from n p)"
  shows "p \<le> q \<and> unat q + 4096 \<le> unat p + 4096 * n"
  using assms
proof (induction n arbitrary: p)
  case (Suc n)
  then show ?case
    using Suc.IH [of "p + PGSIZE"] unat_next_page [of p]
    by (auto simp: word_le_nat_alt)
qed simp

lemma page_aligned_next: "page_aligned p \<Longrightarrow> unat p + 4096 < 4294967296 \<Longrightarrow> page_aligned (p + PGSIZE)"
  by (simp add: page_aligned_def unat_next_page)

lemma page_count:
  "d div 4096 = 0 \<Longrightarrow> d < (4096 :: nat)"
  "d div 4096 = Suc n \<Longrightarrow> 4096 * Suc n \<le> d"
  "d div 4096 = Suc n \<Longrightarrow> (d - 4096) div 4096 = n"
  by (simp_all add: div_eq_0_iff)

lemma freerange_loop_run:
  assumes "lk_ok s" "KmemLock \<notin> held s" "kmem_ok s ps" "page_aligned p"
    and "kend s \<le> p" "KERNBASE \<le> p" "unat vend \<le> unat (P2V PHYSTOP)"
    and "n = (unat vend - unat p) div 4096" "n \<le> fuel"
    and "\<forall>q\<in>set ps. q < p \<or> vend \<le> q" "unat p < 4294963200"
  shows "\<exists>t. freerange_loop fuel p vend s = Ok () t \<and> lk_ok t \<and> held t = held s
      \<and> kmem_ok t (rev (pages_from n p) @ ps) \<and> kend t = kend s \<and> kmem_use_lock t = kmem_use_lock s"
  using assms
proof (induction n arbitrary: s p ps fuel)
  case 0
  have "unat vend < unat p + 4096" using page_count(1) [of "unat vend - unat p"] "0.prems"(8) by linarith
  moreover have "unat vend < 4294967296 - 4096" using "0.prems"(7) by (simp add: P2V_def)
  ultimately have "\<not> p + PGSIZE \<le> vend"
    using "0.prems"(11) by (simp add: word_le_nat_alt unat_next_page)
  then show ?case using "0.prems" by (cases fuel) auto
next
  case (Suc n)
  have vlt: "unat vend \<le> 444596224" using Suc.prems(7) by (simp add: P2V_def)
  have ge: "unat p + 4096 * Suc n \<le> unat vend"
    using page_count(2) [of "unat vend - unat p" n] Suc.prems(8) by linarith
  then have np: "unat (p + PGSIZE) = unat p + 4096" using vlt by (intro unat_next_page) linarith
  have le: "p + PGSIZE \<le> vend" using np ge by (simp add: word_le_nat_alt)
  have kp: "kpage s p"
  proof -
    have "unat p < 444596224" using ge vlt by simp
    then have "V2P p < PHYSTOP"
      using Suc.prems(6) by (simp add: V2P_def word_less_nat_alt word_le_nat_alt unat_sub)
    moreover have "p \<noteq> 0" using Suc.prems(6) by auto
    ultimately show ?thesis using Suc.prems(4,5) by (simp add: kpage_def)
  qed
  have notin: "p \<notin> set ps" using Suc.prems(10) ge by (auto simp: word_le_nat_alt)
  let ?t = "after_kfree p s"
  have t: "lk_ok ?t" "held ?t = held s" "kmem_ok ?t (p # ps)" "kend ?t = kend s"
    using Suc.prems kmem_ok_free [OF Suc.prems(1-3) kp notin] by simp_all
  obtain f where f: "fuel = Suc f" using Suc.prems(9) by (cases fuel) auto
  have step: "\<exists>u. freerange_loop f (p + PGSIZE) vend ?t = Ok () u \<and> lk_ok u \<and> held u = held ?t
      \<and> kmem_ok u (rev (pages_from n (p + PGSIZE)) @ p # ps) \<and> kend u = kend ?t
      \<and> kmem_use_lock u = kmem_use_lock ?t"
  proof (rule Suc.IH)
    show "n = (unat vend - unat (p + PGSIZE)) div 4096"
      using page_count(3) [of "unat vend - unat p" n] Suc.prems(8) np by simp
  qed (use Suc.prems t np f page_aligned_next [of p] ge vlt in \<open>auto simp: word_le_nat_alt word_less_nat_alt\<close>)
  then show ?case
    using kfree_run [OF Suc.prems(1,2) kp] le f t Suc.prems(1,2) by auto
qed


lemma freerange_run:
  assumes "lk_ok s" "KmemLock \<notin> held s" "kmem_ok s ps"
    and "kend s \<le> vstart" "KERNBASE \<le> vstart" "vstart \<le> vend" "vend \<le> P2V PHYSTOP"
    and "\<forall>q\<in>set ps. q < vstart \<or> vend \<le> q"
  shows "\<exists>t. freerange vstart vend s = Ok () t \<and> lk_ok t \<and> held t = held s
      \<and> kmem_ok t (rev (pages_from ((unat vend - unat (PGROUNDUP vstart)) div 4096) (PGROUNDUP vstart)) @ ps)
      \<and> kend t = kend s \<and> kmem_use_lock t = kmem_use_lock s"
proof -
  have v: "unat vend \<le> 444596224" "unat vstart \<le> unat vend"
    using assms(6,7) by (simp_all add: word_le_nat_alt P2V_def)
  then have r: "page_aligned (PGROUNDUP vstart)" "vstart \<le> PGROUNDUP vstart"
    "unat (PGROUNDUP vstart) < unat vstart + 4096"
    by (intro PGROUNDUP_props; simp)+
  show ?thesis
    unfolding freerange_def
    by (rule freerange_loop_run [where ps = ps and p = "PGROUNDUP vstart"])
      (use assms r v in \<open>auto simp: word_le_nat_alt word_less_nat_alt div_le_mono\<close>)
qed

section \<open>Properties\<close>

text \<open>C32: with the free list holding the pages \<open>ps\<close>, \<open>kalloc\<close> returns the first of them, or
  0 when there is none; the page leaves the list, no memory changes, and the lock is
  released on every path.\<close>

theorem kalloc_correct:
  assumes "lk_ok s" "KmemLock \<notin> held s" "kmem_ok s ps"
  shows "\<exists>t. kalloc s = Ok (if ps = [] then 0 else hd ps) t
     \<and> kmem_ok t (tl ps) \<and> (ps \<noteq> [] \<longrightarrow> kpage t (hd ps) \<and> hd ps \<notin> set (tl ps))
     \<and> mem t = mem s \<and> held t = held s"
proof -
  have "ps \<noteq> [] \<longrightarrow> kpage (after_kalloc s) (hd ps) \<and> hd ps \<notin> set (tl ps)"
    using assms by (cases ps) (auto simp: kmem_ok_def kpage_def)
  then show ?thesis using assms kmem_ok_alloc [OF assms] by simp
qed

definition kmem_demo :: kmem_state where
  "kmem_demo = mach.extend smp_boot
     \<lparr>kmem_freelist = 0, kmem_use_lock = True, kend = 0xC900000\<rparr>"

lemma kmem_demo_ok:
  "lk_ok kmem_demo" "KmemLock \<notin> held kmem_demo" "kmem_ok kmem_demo []"
  "kend kmem_demo = 0xC900000"
  by (simp_all add: kmem_demo_def lk_ok_def held_def mycpu_index_def smp_boot_def kmem_ok_def
      mach.defs kmem_state.defs)

theorem kalloc_correct_witness:
  "\<exists>t u. kfree 0xC900000 kmem_demo = Ok () t \<and> kmem_ok t [0xC900000]
     \<and> kalloc t = Ok 0xC900000 u \<and> kmem_ok u []"
proof -
  have kp: "kpage kmem_demo 0xC900000"
    using kmem_demo_ok(4) by (simp add: kpage_def page_aligned_def V2P_def)
  let ?t = "after_kfree 0xC900000 kmem_demo"
  have t: "lk_ok ?t" "KmemLock \<notin> held ?t" "kmem_ok ?t [0xC900000]"
    using kmem_demo_ok kmem_ok_free [OF kmem_demo_ok(1-3) kp] by simp_all
  from kalloc_correct [OF t] kfree_run [OF kmem_demo_ok(1,2) kp] t(3) show ?thesis by auto
qed

text \<open>C33: \<open>freerange\<close> puts exactly the whole pages of the range on the free list, each once,
  and always returns.\<close>

theorem freerange_correct:
  assumes "lk_ok s" "KmemLock \<notin> held s" "kmem_ok s ps"
    and "kend s \<le> vstart" "KERNBASE \<le> vstart" "vstart \<le> vend" "vend \<le> P2V PHYSTOP"
    and "\<forall>q\<in>set ps. q < vstart \<or> vend \<le> q"
  shows "\<exists>t. freerange vstart vend s = Ok () t
      \<and> kmem_ok t (rev (pages_from ((unat vend - unat (PGROUNDUP vstart)) div 4096) (PGROUNDUP vstart)) @ ps)
      \<and> held t = held s"
  using freerange_run [OF assms] by blast

theorem freerange_correct_witness:
  "\<exists>t. freerange 0xC900001 0xC903FFF kmem_demo = Ok () t \<and> kmem_ok t [0xC902000, 0xC901000]"
proof -
  have up: "PGROUNDUP 0xC900001 = 0xC901000" by (simp add: PGROUNDUP_def)
  have two: "pages_from 2 p = [p, p + PGSIZE]" for p by (simp add: numeral_2_eq_2)
  show ?thesis
    using freerange_correct [OF kmem_demo_ok(1-3), where vstart = "0xC900001" and vend = "0xC903FFF"]
      kmem_demo_ok(4) two
    by (auto simp: up P2V_def)
qed

end
