(* ===== verification/Xv6_Vm.thy ===== *)
theory Xv6_Vm
  imports Xv6_Kalloc
begin

text \<open>
  vm.c: two-level page tables in memory. Page directories, page tables and user pages are
  pages of the allocator, addressed by kernel virtual address; an entry is a 32-bit word
  in memory. \<open>kdata\<close> is the linker symbol \<open>data\<close>; \<open>cr3\<close> and \<open>esp0\<close> are the page table
  register and the task state segment's stack pointer of the executing processor.
\<close>

record vm_state = kmem_state +
  kdata :: addr
  kpgdir :: addr
  cr3 :: addr
  esp0 :: addr

section \<open>Page table walk\<close>

definition rd :: "addr \<Rightarrow> ('x mach_scheme, uint) K" where
  "rd a = kgets (\<lambda>s. load32 (mem s) a)"

definition wr :: "addr \<Rightarrow> uint \<Rightarrow> ('x mach_scheme, unit) K" where
  "wr a v = mem_mod (store32 a v)"

definition walkpgdir :: "addr \<Rightarrow> addr \<Rightarrow> bool \<Rightarrow> ('x vm_state_scheme, addr) K" where
  "walkpgdir pgdir va alloc =
     (let pde = pgdir + 4 * PDX va in
      kbind (rd pde) (\<lambda>e.
      if e AND PTE_P \<noteq> 0 then kret (P2V (PTE_ADDR e) + 4 * PTX va)
      else if \<not> alloc then kret 0
      else kbind kalloc (\<lambda>pgtab.
        if pgtab = 0 then kret 0
        else kthen [mem_mod (memset pgtab 0 4096),
                    wr pde (V2P pgtab OR PTE_P OR PTE_W OR PTE_U)]
               (kret (pgtab + 4 * PTX va)))))"

primrec mappages_loop :: "nat \<Rightarrow> addr \<Rightarrow> addr \<Rightarrow> addr \<Rightarrow> addr \<Rightarrow> uint \<Rightarrow> ('x vm_state_scheme, int) K" where
  "mappages_loop 0 pgdir a last_page pa perm = kspin"
| "mappages_loop (Suc n) pgdir a last_page pa perm =
     kbind (walkpgdir pgdir a True) (\<lambda>pte.
     if pte = 0 then kret (- 1)
     else kbind (rd pte) (\<lambda>e.
       if e AND PTE_P \<noteq> 0 then kpanic ''remap''
       else kthen [wr pte (pa OR perm OR PTE_P)]
         (if a = last_page then kret 0
          else mappages_loop n pgdir (a + PGSIZE) last_page (pa + PGSIZE) perm)))"

definition mappages :: "addr \<Rightarrow> addr \<Rightarrow> addr \<Rightarrow> addr \<Rightarrow> uint \<Rightarrow> ('x vm_state_scheme, int) K" where
  "mappages pgdir va sz pa perm =
     (let a = PGROUNDDOWN va; last_page = PGROUNDDOWN (va + sz - 1)
      in mappages_loop (Suc (unat (last_page - a) div 4096)) pgdir a last_page pa perm)"

section \<open>Growing and shrinking user memory\<close>

primrec deallocuvm_loop :: "nat \<Rightarrow> addr \<Rightarrow> addr \<Rightarrow> addr \<Rightarrow> ('x vm_state_scheme, unit) K" where
  "deallocuvm_loop 0 pgdir a oldsz = (if a < oldsz then kspin else kret ())"
| "deallocuvm_loop (Suc n) pgdir a oldsz =
     (if a < oldsz then
        kbind (walkpgdir pgdir a False) (\<lambda>pte.
        if pte = 0 then deallocuvm_loop n pgdir (PGADDR (PDX a + 1) 0 0 - PGSIZE + PGSIZE) oldsz
        else kbind (rd pte) (\<lambda>e.
          if e AND PTE_P \<noteq> 0 then
            (if PTE_ADDR e = 0 then kpanic ''kfree''
             else kthen [kfree (P2V (PTE_ADDR e)), wr pte 0]
                    (deallocuvm_loop n pgdir (a + PGSIZE) oldsz))
          else deallocuvm_loop n pgdir (a + PGSIZE) oldsz))
      else kret ())"

definition deallocuvm :: "addr \<Rightarrow> addr \<Rightarrow> addr \<Rightarrow> ('x vm_state_scheme, addr) K" where
  "deallocuvm pgdir oldsz newsz =
     (if newsz \<ge> oldsz then kret oldsz
      else kthen [deallocuvm_loop (Suc (unat oldsz div 4096)) pgdir (PGROUNDUP newsz) oldsz]
             (kret newsz))"

primrec allocuvm_loop :: "nat \<Rightarrow> addr \<Rightarrow> addr \<Rightarrow> addr \<Rightarrow> addr \<Rightarrow> ('x vm_state_scheme, addr) K" where
  "allocuvm_loop 0 pgdir a oldsz newsz = (if a < newsz then kspin else kret newsz)"
| "allocuvm_loop (Suc n) pgdir a oldsz newsz =
     (if a < newsz then
        kbind kalloc (\<lambda>m.
        if m = 0 then kbind (deallocuvm pgdir newsz oldsz) (\<lambda>_. kret 0)
        else kthen [mem_mod (memset m 0 4096)]
          (kbind (mappages pgdir a PGSIZE (V2P m) (PTE_W OR PTE_U)) (\<lambda>r.
           if r < 0 then kbind (deallocuvm pgdir newsz oldsz) (\<lambda>_. kthen [kfree m] (kret 0))
           else allocuvm_loop n pgdir (a + PGSIZE) oldsz newsz)))
      else kret newsz)"

definition allocuvm :: "addr \<Rightarrow> addr \<Rightarrow> addr \<Rightarrow> ('x vm_state_scheme, addr) K" where
  "allocuvm pgdir oldsz newsz =
     (if newsz \<ge> KERNBASE then kret 0
      else if newsz < oldsz then kret oldsz
      else allocuvm_loop (Suc (unat newsz div 4096)) pgdir (PGROUNDUP oldsz) oldsz newsz)"

definition freevm :: "addr \<Rightarrow> ('x vm_state_scheme, unit) K" where
  "freevm pgdir =
     (if pgdir = 0 then kpanic ''freevm: no pgdir''
      else kbind (deallocuvm pgdir KERNBASE 0) (\<lambda>_.
        kdo [keach (\<lambda>i. kbind (rd (pgdir + 4 * of_nat i)) (\<lambda>e.
               kwhen (e AND PTE_P \<noteq> 0) (kfree (P2V (PTE_ADDR e))))) [0..<NPDENTRIES],
             kfree pgdir]))"

section \<open>Address spaces\<close>

record kmap =
  virt :: addr
  phys_start :: addr
  phys_end :: addr
  kperm :: uint

definition kmap_table :: "addr \<Rightarrow> kmap list" where
  "kmap_table data =
     [\<lparr>virt = KERNBASE, phys_start = 0, phys_end = EXTMEM, kperm = PTE_W\<rparr>,
      \<lparr>virt = KERNLINK, phys_start = V2P KERNLINK, phys_end = V2P data, kperm = 0\<rparr>,
      \<lparr>virt = data, phys_start = V2P data, phys_end = PHYSTOP, kperm = PTE_W\<rparr>,
      \<lparr>virt = DEVSPACE, phys_start = DEVSPACE, phys_end = 0, kperm = PTE_W\<rparr>]"

definition setupkvm :: "('x vm_state_scheme, addr) K" where
  "setupkvm =
     kbind kalloc (\<lambda>pgdir.
     if pgdir = 0 then kret 0
     else kthen [mem_mod (memset pgdir 0 4096)]
       (if P2V PHYSTOP > DEVSPACE then kpanic ''PHYSTOP too high''
        else kbind (kgets (\<lambda>s. kmap_table (kdata s))) (\<lambda>ks.
          kbind (kfor (\<lambda>k. kbind (mappages pgdir (virt k) (phys_end k - phys_start k) (phys_start k) (kperm k))
                   (\<lambda>r. if r < 0 then kthen [freevm pgdir] (kret (Some (0 :: addr))) else kret None)) ks)
            (\<lambda>r. case r of Some z \<Rightarrow> kret z | None \<Rightarrow> kret pgdir))))"

definition switchkvm :: "('x vm_state_scheme, unit) K" where
  "switchkvm = kmod (\<lambda>s. s\<lparr>cr3 := V2P (kpgdir s)\<rparr>)"

definition kvmalloc :: "('x vm_state_scheme, unit) K" where
  "kvmalloc = kbind setupkvm (\<lambda>p. kdo [kmod (\<lambda>s. s\<lparr>kpgdir := p\<rparr>), switchkvm])"

primrec put_bytes :: "uchar list \<Rightarrow> addr \<Rightarrow> byte_mem \<Rightarrow> byte_mem" where
  "put_bytes [] a m = m"
| "put_bytes (b # bs) a m = put_bytes bs (a + 1) (m(a := b))"

text \<open>\<open>inituvm\<close> uses the result of \<open>kalloc\<close> unchecked; \<open>code\<close> is the \<open>sz\<close> bytes at \<open>init\<close>.\<close>

definition inituvm :: "addr \<Rightarrow> uchar list \<Rightarrow> ('x vm_state_scheme, unit) K" where
  "inituvm pgdir code =
     (if length code \<ge> 4096 then kpanic ''inituvm: more than a page''
      else kbind kalloc (\<lambda>m.
        kthen [mem_mod (memset m 0 4096)]
          (kbind (mappages pgdir 0 PGSIZE (V2P m) (PTE_W OR PTE_U)) (\<lambda>_.
           mem_mod (put_bytes code m)))))"

definition clearpteu :: "addr \<Rightarrow> addr \<Rightarrow> ('x vm_state_scheme, unit) K" where
  "clearpteu pgdir uva =
     kbind (walkpgdir pgdir uva False) (\<lambda>pte.
     if pte = 0 then kpanic ''clearpteu''
     else kbind (rd pte) (\<lambda>e. wr pte (e AND NOT PTE_U)))"

primrec copyuvm_loop :: "nat \<Rightarrow> addr \<Rightarrow> addr \<Rightarrow> addr \<Rightarrow> addr \<Rightarrow> ('x vm_state_scheme, addr) K" where
  "copyuvm_loop 0 pgdir d i sz = (if i < sz then kspin else kret d)"
| "copyuvm_loop (Suc n) pgdir d i sz =
     (if i < sz then
        kbind (walkpgdir pgdir i False) (\<lambda>pte.
        if pte = 0 then kpanic ''copyuvm: pte should exist''
        else kbind (rd pte) (\<lambda>e.
          if e AND PTE_P = 0 then kpanic ''copyuvm: page not present''
          else kbind kalloc (\<lambda>m.
            if m = 0 then kthen [freevm d] (kret 0)
            else kthen [mem_mod (memmove m (P2V (PTE_ADDR e)) 4096)]
              (kbind (mappages d i PGSIZE (V2P m) (PTE_FLAGS e)) (\<lambda>r.
               if r < 0 then kthen [kfree m, freevm d] (kret 0)
               else copyuvm_loop n pgdir d (i + PGSIZE) sz)))))
      else kret d)"

definition copyuvm :: "addr \<Rightarrow> addr \<Rightarrow> ('x vm_state_scheme, addr) K" where
  "copyuvm pgdir sz =
     kbind setupkvm (\<lambda>d.
     if d = 0 then kret 0 else copyuvm_loop (Suc (unat sz div 4096)) pgdir d 0 sz)"

section \<open>Thread stacks\<close>

text \<open>The search of \<open>cloneuvm\<close> for an empty slot, from the top of user memory down.\<close>

primrec find_slot :: "nat \<Rightarrow> addr \<Rightarrow> addr \<Rightarrow> addr \<Rightarrow> ('x vm_state_scheme, addr) K" where
  "find_slot 0 pgdir va sz = kspin"
| "find_slot (Suc n) pgdir va sz =
     kbind (walkpgdir pgdir va False) (\<lambda>pte.
     if pte = 0 then kret va
     else kbind (rd pte) (\<lambda>e.
       if e AND PTE_P = 0 then kret va
       else if va < sz then kret va
       else find_slot n pgdir (va - PGSIZE) sz))"

definition cloneuvm :: "addr \<Rightarrow> addr \<Rightarrow> addr \<Rightarrow> ('x vm_state_scheme, addr) K" where
  "cloneuvm pgdir sz guard_page =
     kbind (find_slot (unat KERNBASE div 4096 + 1) pgdir (KERNBASE - PGSIZE) sz) (\<lambda>va.
     if va < sz then kret 0
     else let tstack = va + PGSIZE in
       kbind (walkpgdir pgdir va True) (\<lambda>stack_pte.
       if stack_pte = 0 then kret 0
       else kbind kalloc (\<lambda>stack_page.
         if stack_page = 0 then kret 0
         else kthen [mem_mod (memset stack_page 0 4096),
                     wr stack_pte (V2P stack_page OR PTE_U OR PTE_W OR PTE_P)]
           (let va = va - PGSIZE in
            if va < sz then kthen [wr stack_pte 0, kfree stack_page] (kret 0)
            else kbind (walkpgdir pgdir va True) (\<lambda>pte.
              if pte = 0 then kthen [kfree stack_page] (kret 0)
              else kbind (walkpgdir pgdir guard_page False) (\<lambda>guard_pte.
                if guard_pte = 0 then kpanic ''guard page not found''
                else kbind (rd guard_pte) (\<lambda>g. kthen [wr pte g] (kret tstack))))))))"

definition freecloneuvm :: "addr \<Rightarrow> addr \<Rightarrow> ('x vm_state_scheme, unit) K" where
  "freecloneuvm pgdir tstack =
     kbind (walkpgdir pgdir (tstack - PGSIZE) False) (\<lambda>pte.
     if pte = 0 then kpanic ''clone process has no stack !!''
     else kbind (rd pte) (\<lambda>e.
       kthen [kfree (P2V (PTE_ADDR e)), wr pte 0]
         (kbind (walkpgdir pgdir (tstack - 2 * PGSIZE) False) (\<lambda>pte.
          if pte = 0 then kpanic ''clone process has no guard page !!''
          else wr pte 0))))"

definition copy_thread_stack :: "addr \<Rightarrow> addr \<Rightarrow> addr \<Rightarrow> addr \<Rightarrow> ('x vm_state_scheme, int) K" where
  "copy_thread_stack dest dest_stack src src_stack =
     kbind (walkpgdir src src_stack False) (\<lambda>src_pte.
     if src_pte = 0 then kret (- 1)
     else kbind (rd src_pte) (\<lambda>se.
       if se AND PTE_P = 0 then kret (- 1)
       else kbind (walkpgdir dest dest_stack False) (\<lambda>dest_pte.
         if dest_pte = 0 then kret (- 1)
         else kbind (rd dest_pte) (\<lambda>de.
           if de AND PTE_P = 0 then kret (- 1)
           else kthen [mem_mod (memmove (P2V (PTE_ADDR de)) (P2V (PTE_ADDR se)) 4096)] (kret 0)))))"

section \<open>Copying to user memory\<close>

text \<open>\<open>uva2ka\<close> reads through the entry's address without checking that the walk found one.\<close>

definition uva2ka :: "addr \<Rightarrow> addr \<Rightarrow> ('x vm_state_scheme, addr) K" where
  "uva2ka pgdir uva =
     kbind (walkpgdir pgdir uva False) (\<lambda>pte.
     kbind (rd pte) (\<lambda>e.
     if e AND PTE_P = 0 then kret 0
     else if e AND PTE_U = 0 then kret 0
     else kret (P2V (PTE_ADDR e))))"

text \<open>\<open>buf\<close> is the remaining bytes at \<open>p\<close>; every round copies at least one of them.\<close>

primrec copyout_loop :: "nat \<Rightarrow> addr \<Rightarrow> addr \<Rightarrow> uchar list \<Rightarrow> ('x vm_state_scheme, int) K" where
  "copyout_loop 0 pgdir va buf = (if buf \<noteq> [] then kspin else kret 0)"
| "copyout_loop (Suc f) pgdir va buf =
     (if buf \<noteq> [] then
        let va0 = PGROUNDDOWN va in
        kbind (uva2ka pgdir va0) (\<lambda>pa0.
        if pa0 = 0 then kret (- 1)
        else let n = min (unat (PGSIZE - (va - va0))) (length buf) in
          kthen [mem_mod (put_bytes (take n buf) (pa0 + (va - va0)))]
            (copyout_loop f pgdir (va0 + PGSIZE) (drop n buf)))
      else kret 0)"

definition copyout :: "addr \<Rightarrow> addr \<Rightarrow> uchar list \<Rightarrow> ('x vm_state_scheme, int) K" where
  "copyout pgdir va buf = copyout_loop (length buf) pgdir va buf"

section \<open>Page tables as partial maps\<close>

text \<open>What the hardware finds: the directory entry, the table it names and the page table
  entry of a virtual address (0 where there is no table).\<close>

definition pde_of :: "byte_mem \<Rightarrow> addr \<Rightarrow> addr \<Rightarrow> uint" where
  "pde_of m pgdir va = load32 m (pgdir + 4 * PDX va)"

definition has_tab :: "byte_mem \<Rightarrow> addr \<Rightarrow> addr \<Rightarrow> bool" where
  "has_tab m pgdir va \<longleftrightarrow> pde_of m pgdir va AND PTE_P \<noteq> 0"

definition tab_of :: "byte_mem \<Rightarrow> addr \<Rightarrow> addr \<Rightarrow> addr" where
  "tab_of m pgdir va = P2V (PTE_ADDR (pde_of m pgdir va))"

definition pte_addr :: "byte_mem \<Rightarrow> addr \<Rightarrow> addr \<Rightarrow> addr" where
  "pte_addr m pgdir va = (if has_tab m pgdir va then tab_of m pgdir va + 4 * PTX va else 0)"

definition pte_of :: "byte_mem \<Rightarrow> addr \<Rightarrow> addr \<Rightarrow> uint" where
  "pte_of m pgdir va = (if has_tab m pgdir va then load32 m (tab_of m pgdir va + 4 * PTX va) else 0)"

definition tables :: "byte_mem \<Rightarrow> addr \<Rightarrow> addr set" where
  "tables m pgdir = insert pgdir (tab_of m pgdir ` {va. has_tab m pgdir va})"

definition pt_ok :: "'x kmem_state_scheme \<Rightarrow> addr \<Rightarrow> bool" where
  "pt_ok s pgdir \<longleftrightarrow> kpage s pgdir
     \<and> (\<forall>va. has_tab (mem s) pgdir va \<longrightarrow> kpage s (tab_of (mem s) pgdir va) \<and> tab_of (mem s) pgdir va \<noteq> pgdir)
     \<and> (\<forall>va vb. has_tab (mem s) pgdir va \<longrightarrow> has_tab (mem s) pgdir vb
          \<longrightarrow> tab_of (mem s) pgdir va = tab_of (mem s) pgdir vb \<longrightarrow> PDX va = PDX vb)"

text \<open>A page directory, its tables and the free list use disjoint pages.\<close>

definition vm_ok :: "addr list \<Rightarrow> addr \<Rightarrow> 'x kmem_state_scheme \<Rightarrow> bool" where
  "vm_ok ps pgdir s \<longleftrightarrow> lk_ok s \<and> KmemLock \<notin> held s \<and> kmem_ok s ps \<and> pt_ok s pgdir
     \<and> set ps \<inter> tables (mem s) pgdir = {}"

lemma rd_run [simp]: "rd a s = Ok (load32 (mem s) a) s"
  by (simp add: rd_def)

lemma wr_run [simp]: "wr a v s = Ok () (s\<lparr>mem := store32 a v (mem s)\<rparr>)"
  by (simp add: wr_def mem_mod_def)

lemma mem_mod_run [simp]: "mem_mod f s = Ok () (s\<lparr>mem := f (mem s)\<rparr>)"
  by (simp add: mem_mod_def)

lemma walk_run [simp]: "walkpgdir pgdir va False s = Ok (pte_addr (mem s) pgdir va) s"
  by (simp add: walkpgdir_def Let_def pte_addr_def has_tab_def pde_of_def tab_of_def)

lemma entry_offset:
  assumes "unat i < 1024"
  shows "unat (4 * i :: addr) = 4 * unat i" "unat (4 * i :: addr) + 3 < 4096"
  using assms by (simp_all add: unat_word_ariths)

lemma entry_offset_inj:
  assumes "unat i < 1024" "unat j < 1024" "4 * i = (4 * j :: addr)"
  shows "i = j"
  using assms entry_offset(1) [of i] entry_offset(1) [of j] by (simp add: word_unat_eq_iff)

lemma entry_aligned4:
  assumes "page_aligned p" "unat i < 1024"
  shows "aligned4 (p + 4 * i)"
proof -
  obtain k where k: "unat p = 4096 * k" using assms(1) by (auto simp: page_aligned_def)
  have "k < 1048576" using unat32_lt [of p] k by linarith
  then have "unat (p + 4 * i) = 4 * (1024 * k + unat i)"
    using k entry_offset [OF assms(2)] assms(2) by (subst unat_word_ariths) simp
  then show ?thesis by (simp add: aligned4_def)
qed

lemma load_entry_other_page:
  assumes "page_aligned p" "page_aligned q" "p \<noteq> q" "unat i < 1024" "unat j < 1024"
  shows "load32 (store32 (q + 4 * j) x m) (p + 4 * i) = load32 m (p + 4 * i)"
  by (rule load32_outside_page [of q])
    (use assms entry_offset in \<open>auto intro: store32_in_page\<close>)

lemma load_entry_other_index:
  assumes "page_aligned p" "i \<noteq> j" "unat i < 1024" "unat j < 1024"
  shows "load32 (store32 (p + 4 * j) x m) (p + 4 * i) = load32 m (p + 4 * i)"
  by (rule load32_store32_other)
    (use assms entry_aligned4 entry_offset_inj in \<open>auto\<close>)

lemma vm_okD:
  assumes "vm_ok ps pgdir s"
  shows "lk_ok s" "KmemLock \<notin> held s" "kmem_ok s ps" "pt_ok s pgdir" "page_aligned pgdir"
    "pgdir \<notin> set ps" "has_tab (mem s) pgdir va \<Longrightarrow> page_aligned (tab_of (mem s) pgdir va)"
    "has_tab (mem s) pgdir va \<Longrightarrow> tab_of (mem s) pgdir va \<noteq> pgdir"
    "has_tab (mem s) pgdir va \<Longrightarrow> tab_of (mem s) pgdir va \<notin> set ps"
    "has_tab (mem s) pgdir va \<Longrightarrow> has_tab (mem s) pgdir vb \<Longrightarrow>
      tab_of (mem s) pgdir va = tab_of (mem s) pgdir vb \<Longrightarrow> PDX va = PDX vb"
  using assms unfolding vm_ok_def pt_ok_def kpage_def tables_def by blast+

lemma kpage_mem [simp]: "kpage (s\<lparr>mem := m\<rparr>) = kpage s"
  by (rule ext) (simp add: kpage_def)

lemma kmem_ok_mem:
  assumes "kmem_ok s ps" "\<And>a. (\<exists>p\<in>set ps. in_page p a) \<Longrightarrow> m' a = mem s a"
  shows "kmem_ok (s\<lparr>mem := m'\<rparr>) ps"
proof -
  have "load32 m' p = load32 (mem s) p" if p: "p \<in> set ps" for p
  proof (rule load32_cong)
    fix i :: nat assume "i < 4"
    then have "in_page p (p + of_nat i)" by (intro in_page_offset) (simp add: unat_of_nat)
    then show "m' (p + of_nat i) = mem s (p + of_nat i)" using assms(2) p by blast
  qed
  then have "chain m' (kmem_freelist s) ps = chain (mem s) (kmem_freelist s) ps" by (rule chain_cong)
  then show ?thesis using assms(1) by (simp add: kmem_ok_def)
qed

subsection \<open>Changing an entry\<close>

lemma store_pte:
  fixes e :: uint
  assumes v: "vm_ok ps pgdir s" and h: "has_tab (mem s) pgdir va"
  defines "m' \<equiv> store32 (pte_addr (mem s) pgdir va) e (mem s)"
  shows "pde_of m' pgdir vb = pde_of (mem s) pgdir vb" "has_tab m' pgdir vb = has_tab (mem s) pgdir vb"
    "tab_of m' pgdir vb = tab_of (mem s) pgdir vb"
    "pte_addr m' pgdir vb = pte_addr (mem s) pgdir vb"
    "tables m' pgdir = tables (mem s) pgdir"
    "pte_of m' pgdir va = e"
    "PGROUNDDOWN vb \<noteq> PGROUNDDOWN va \<Longrightarrow> pte_of m' pgdir vb = pte_of (mem s) pgdir vb"
    "vm_ok ps pgdir (s\<lparr>mem := m'\<rparr>)"
proof -
  let ?T = "tab_of (mem s) pgdir va"
  note d = vm_okD [OF v]
  have m': "m' = store32 (?T + 4 * PTX va) e (mem s)" using h by (simp add: m'_def pte_addr_def)
  show pde: "pde_of m' pgdir vc = pde_of (mem s) pgdir vc" for vc
    unfolding pde_of_def m' by (rule load_entry_other_page) (use d(5) d(7,8) [OF h] in auto)
  show ht: "has_tab m' pgdir vc = has_tab (mem s) pgdir vc" for vc by (simp add: has_tab_def pde)
  show tb: "tab_of m' pgdir vc = tab_of (mem s) pgdir vc" for vc by (simp add: tab_of_def pde)
  show "pte_addr m' pgdir vb = pte_addr (mem s) pgdir vb" by (simp add: pte_addr_def ht tb)
  show tbs: "tables m' pgdir = tables (mem s) pgdir" by (simp add: tables_def ht tb)
  show "pte_of m' pgdir va = e" using h by (simp add: pte_of_def ht tb) (simp add: m')
  show "pte_of m' pgdir vb = pte_of (mem s) pgdir vb" if n: "PGROUNDDOWN vb \<noteq> PGROUNDDOWN va"
  proof (cases "has_tab (mem s) pgdir vb")
    case True
    show ?thesis
    proof (cases "tab_of (mem s) pgdir vb = ?T")
      case same: True
      then have "PDX vb = PDX va" using d(10) [OF True h] by blast
      then have "PTX vb \<noteq> PTX va" using n page_indexes [of vb va] by blast
      then have "load32 m' (?T + 4 * PTX vb) = load32 (mem s) (?T + 4 * PTX vb)"
        unfolding m' by (intro load_entry_other_index) (use d(7) [OF h] in auto)
      then show ?thesis using True same by (simp add: pte_of_def ht tb)
    next
      case False
      then have "load32 m' (tab_of (mem s) pgdir vb + 4 * PTX vb)
          = load32 (mem s) (tab_of (mem s) pgdir vb + 4 * PTX vb)"
        unfolding m' by (intro load_entry_other_page) (use d(7) [OF h] d(7) [OF True] in auto)
      then show ?thesis using True by (simp add: pte_of_def ht tb)
    qed
  qed (simp add: pte_of_def ht)
  have "m' a = mem s a" if "p \<in> set ps" "in_page p a" for p a
  proof -
    have "page_aligned p" "p \<noteq> ?T" using that d(3) d(9) [OF h] by (auto simp: kmem_ok_def kpage_def)
    then have "\<not> in_page ?T a" using in_page_disjoint [OF _ d(7) [OF h] that(2)] by blast
    then show ?thesis unfolding m' by (intro store32_in_page entry_offset(2)) auto
  qed
  then have "kmem_ok (s\<lparr>mem := m'\<rparr>) ps" by (intro kmem_ok_mem d(3)) blast
  moreover have "pt_ok (s\<lparr>mem := m'\<rparr>) pgdir = pt_ok s pgdir" by (simp add: pt_ok_def ht tb)
  ultimately show "vm_ok ps pgdir (s\<lparr>mem := m'\<rparr>)"
    using v by (simp add: vm_ok_def tbs)
qed

subsection \<open>What the operations of this file leave alone\<close>

lemma vm_frame [simp]:
  fixes s :: "'x vm_state_scheme"
  shows "kdata (acquired l s) = kdata s" "kpgdir (acquired l s) = kpgdir s" "cr3 (acquired l s) = cr3 s"
    "esp0 (acquired l s) = esp0 s" "vm_state.more (acquired l s) = vm_state.more s"
    "kdata (released l s) = kdata s" "kpgdir (released l s) = kpgdir s" "cr3 (released l s) = cr3 s"
    "esp0 (released l s) = esp0 s" "vm_state.more (released l s) = vm_state.more s"
    "kdata (probed s) = kdata s" "kpgdir (probed s) = kpgdir s" "cr3 (probed s) = cr3 s"
    "esp0 (probed s) = esp0 s" "vm_state.more (probed s) = vm_state.more s"
  by (simp_all add: acquired_def released_def probed_def Let_def)

lemma vm_alloc_frame [simp]:
  fixes s :: "'x vm_state_scheme"
  shows "kdata (after_kalloc s) = kdata s" "kpgdir (after_kalloc s) = kpgdir s" "cr3 (after_kalloc s) = cr3 s"
    "esp0 (after_kalloc s) = esp0 s" "vm_state.more (after_kalloc s) = vm_state.more s"
    "kdata (after_kfree v s) = kdata s" "kpgdir (after_kfree v s) = kpgdir s" "cr3 (after_kfree v s) = cr3 s"
    "esp0 (after_kfree v s) = esp0 s" "vm_state.more (after_kfree v s) = vm_state.more s"
  by (simp_all add: after_kalloc_def after_kfree_def with_kmem_lock_def)

definition same_vm :: "'x vm_state_scheme \<Rightarrow> 'x vm_state_scheme \<Rightarrow> bool" where
  "same_vm s t \<longleftrightarrow> vm_state.more t = vm_state.more s \<and> kdata t = kdata s \<and> kpgdir t = kpgdir s
     \<and> cr3 t = cr3 s \<and> esp0 t = esp0 s \<and> kend t = kend s \<and> kmem_use_lock t = kmem_use_lock s
     \<and> held t = held s \<and> curproc t = curproc s"

lemma same_vm_refl [simp]: "same_vm s s"
  by (simp add: same_vm_def)

lemma same_vm_mem [simp]: "same_vm s (t\<lparr>mem := m\<rparr>) = same_vm s t"
  by (simp add: same_vm_def)

lemma same_vm_trans [trans]: "same_vm s t \<Longrightarrow> same_vm t u \<Longrightarrow> same_vm s u"
  by (simp add: same_vm_def)

lemma same_vm_alloc [simp]:
  "lk_ok s \<Longrightarrow> KmemLock \<notin> held s \<Longrightarrow> same_vm s (after_kalloc s)"
  "lk_ok s \<Longrightarrow> KmemLock \<notin> held s \<Longrightarrow> same_vm s (after_kfree v s)"
  by (simp_all add: same_vm_def)

text \<open>Growth of a page table: pages \<open>ps\<close> were free, \<open>ps'\<close> are left, the table pages are the old
  ones and some of those taken, and memory changed only in tables and pages taken.\<close>

definition vm_ext :: "addr \<Rightarrow> addr list \<Rightarrow> 'x vm_state_scheme \<Rightarrow> addr list \<Rightarrow> 'x vm_state_scheme \<Rightarrow> bool" where
  "vm_ext pgdir ps s ps' t \<longleftrightarrow> vm_ok ps' pgdir t \<and> same_vm s t \<and> (\<exists>qs. ps = qs @ ps')
     \<and> tables (mem s) pgdir \<subseteq> tables (mem t) pgdir
     \<and> tables (mem t) pgdir \<subseteq> tables (mem s) pgdir \<union> (set ps - set ps')
     \<and> (\<forall>a. mem t a \<noteq> mem s a \<longrightarrow> (\<exists>q \<in> tables (mem t) pgdir \<union> (set ps - set ps'). in_page q a))"

lemma vm_ext_refl: "vm_ok ps pgdir s \<Longrightarrow> vm_ext pgdir ps s ps s"
  by (simp add: vm_ext_def)

lemma vm_ext_trans:
  assumes "vm_ext pgdir ps s ps' t" "vm_ext pgdir ps' t ps'' u"
  shows "vm_ext pgdir ps s ps'' u"
proof -
  have sub: "set ps'' \<subseteq> set ps'" "set ps' \<subseteq> set ps" using assms by (auto simp: vm_ext_def)
  have tt: "tables (mem t) pgdir \<subseteq> tables (mem u) pgdir" using assms(2) by (simp add: vm_ext_def)
  have "\<exists>q \<in> tables (mem u) pgdir \<union> (set ps - set ps''). in_page q a" if "mem u a \<noteq> mem s a" for a
  proof (cases "mem t a = mem s a")
    case True
    then have "\<exists>q \<in> tables (mem u) pgdir \<union> (set ps' - set ps''). in_page q a"
      using assms(2) that by (simp add: vm_ext_def)
    then show ?thesis using sub by blast
  next
    case False
    then have "\<exists>q \<in> tables (mem t) pgdir \<union> (set ps - set ps'). in_page q a"
      using assms(1) by (simp add: vm_ext_def)
    then show ?thesis using sub tt by blast
  qed
  moreover have "tables (mem u) pgdir \<subseteq> tables (mem s) pgdir \<union> (set ps - set ps'')"
    using assms sub unfolding vm_ext_def by blast
  moreover have "tables (mem s) pgdir \<subseteq> tables (mem u) pgdir" using assms tt unfolding vm_ext_def by blast
  moreover have "\<exists>qs. ps = qs @ ps''" using assms unfolding vm_ext_def by (metis append.assoc)
  ultimately show ?thesis using assms same_vm_trans unfolding vm_ext_def by blast
qed

lemma vm_ext_store:
  assumes "vm_ok ps pgdir s" "has_tab (mem s) pgdir va"
  shows "vm_ext pgdir ps s ps (s\<lparr>mem := store32 (pte_addr (mem s) pgdir va) e (mem s)\<rparr>)"
proof -
  let ?T = "tab_of (mem s) pgdir va"
  have T: "?T \<in> tables (mem s) pgdir" using assms(2) by (auto simp: tables_def)
  have "store32 (pte_addr (mem s) pgdir va) e (mem s) a = mem s a" if "\<not> in_page ?T a" for a
    using that assms(2) by (simp add: pte_addr_def store32_in_page entry_offset(2))
  then show ?thesis
    using T store_pte(5,8) [OF assms, of e] unfolding vm_ext_def by auto
qed

subsection \<open>Walking with allocation\<close>

lemma pte_addr_nonzero:
  assumes "vm_ok ps pgdir s" "has_tab (mem s) pgdir va"
  shows "pte_addr (mem s) pgdir va \<noteq> 0"
proof
  let ?T = "tab_of (mem s) pgdir va"
  assume "pte_addr (mem s) pgdir va = 0"
  then have "in_page ?T 0" using assms(2) in_page_offset [of "4 * PTX va" ?T] entry_offset [of "PTX va"]
    by (simp add: pte_addr_def)
  then have "PGROUNDDOWN 0 = ?T" using vm_okD(7) [OF assms] in_page_iff by blast
  moreover have "?T \<noteq> 0" using assms by (auto simp: vm_ok_def pt_ok_def kpage_def)
  ultimately show False by (simp add: PGROUNDDOWN_def)
qed

lemma page_aligned_V2P: "page_aligned p \<Longrightarrow> KERNBASE \<le> p \<Longrightarrow> page_aligned (V2P p)"
  by (auto simp: page_aligned_def V2P_def word_le_nat_alt unat_sub dvd_minus_self intro!: dvd_imp_mod_0 dvd_diff_nat)

lemma new_table_entry:
  assumes "page_aligned p" "KERNBASE \<le> p"
  shows "PTE_ADDR (V2P p OR PTE_P OR PTE_W OR PTE_U) = V2P p"
    "(V2P p OR PTE_P OR PTE_W OR PTE_U) AND PTE_P \<noteq> 0"
proof -
  have f: "V2P p OR PTE_P OR PTE_W OR PTE_U = V2P p OR 7" by (simp add: or.assoc)
  show "PTE_ADDR (V2P p OR PTE_P OR PTE_W OR PTE_U) = V2P p"
    unfolding f using page_aligned_V2P [OF assms] by (simp add: PTE_ADDR_or_flags)
  show "(V2P p OR PTE_P OR PTE_W OR PTE_U) AND PTE_P \<noteq> 0"
    by (simp add: bit.conj_disj_distrib2)
qed

lemma kpage_KERNBASE: "kpage s p \<Longrightarrow> KERNBASE \<le> p"
proof (rule ccontr)
  assume k: "kpage s p" and "\<not> KERNBASE \<le> p"
  then have lt: "unat p < 209715200" by (simp add: word_le_nat_alt)
  have "unat (V2P p) = unat p + 4294967296 - 209715200"
    using lt by (simp add: V2P_def unat_sub_if' word_le_nat_alt)
  then show False using k lt by (simp add: kpage_def word_less_nat_alt)
qed

lemma zero_page_load:
  assumes "page_aligned p" "unat i < 1024"
  shows "load32 (filled p 0 4096 m) (p + 4 * i) = 0"
proof -
  have "load32 (filled p 0 4096 m) (p + 4 * i) = load32 (\<lambda>_. 0) (p + 4 * i)"
  proof (rule load32_cong)
    fix k :: nat assume "k < 4"
    then have "in_page p (p + 4 * i + of_nat k)"
      using in_page_word [of p "4 * i" k] in_page_offset [of "4 * i" p] entry_offset [OF assms(2)] by simp
    then show "filled p 0 4096 m (p + 4 * i + of_nat k) = 0" by (simp add: filled_def in_page_def)
  qed
  then show ?thesis by (simp add: load32_def)
qed

text \<open>Installing a zeroed page \<open>p\<close> as the table of \<open>va\<close> changes no page table entry.\<close>

lemma install_table:
  assumes v: "vm_ok ps pgdir s" and h: "\<not> has_tab (mem s) pgdir va"
    and p: "page_aligned p" "KERNBASE \<le> p" "p \<notin> tables (mem s) pgdir"
  defines "m' \<equiv> store32 (pgdir + 4 * PDX va) (V2P p OR PTE_P OR PTE_W OR PTE_U) (memset p 0 4096 (mem s))"
  shows "PDX vb = PDX va \<Longrightarrow> has_tab m' pgdir vb \<and> tab_of m' pgdir vb = p"
    "PDX vb \<noteq> PDX va \<Longrightarrow> has_tab m' pgdir vb = has_tab (mem s) pgdir vb \<and> tab_of m' pgdir vb = tab_of (mem s) pgdir vb"
    "pte_of m' pgdir vb = pte_of (mem s) pgdir vb"
    "\<not> in_page p a \<Longrightarrow> \<not> in_page pgdir a \<Longrightarrow> m' a = mem s a"
    "tables m' pgdir = insert p (tables (mem s) pgdir)"
proof -
  note d = vm_okD [OF v]
  have pd: "p \<noteq> pgdir" using p(3) by (auto simp: tables_def)
  have m': "m' = store32 (pgdir + 4 * PDX va) (V2P p OR PTE_P OR PTE_W OR PTE_U) (filled p 0 4096 (mem s))"
    by (simp add: m'_def memset_filled)
  have keep: "load32 m' (q + 4 * i) = load32 (mem s) (q + 4 * i)"
    if "page_aligned q" "q \<noteq> p" "q \<noteq> pgdir \<or> i \<noteq> PDX va" "unat i < 1024" for q i
  proof -
    have "load32 m' (q + 4 * i) = load32 (filled p 0 4096 (mem s)) (q + 4 * i)"
      using that d(5) load_entry_other_page [of q pgdir i "PDX va"] load_entry_other_index [of pgdir i "PDX va"]
      unfolding m' by (cases "q = pgdir") simp_all
    also have "\<dots> = load32 (mem s) (q + 4 * i)"
      by (rule load32_outside_page [of p]) (use that p entry_offset(2) in \<open>auto intro: filled_outside\<close>)
    finally show ?thesis .
  qed
  have new: "has_tab m' pgdir vc \<and> tab_of m' pgdir vc = p" if "PDX vc = PDX va" for vc
  proof -
    have "pde_of m' pgdir vc = V2P p OR PTE_P OR PTE_W OR PTE_U" by (simp add: pde_of_def that m')
    then show ?thesis using new_table_entry [OF p(1,2)] by (simp add: has_tab_def tab_of_def)
  qed
  have old: "has_tab m' pgdir vc = has_tab (mem s) pgdir vc \<and> tab_of m' pgdir vc = tab_of (mem s) pgdir vc"
    if "PDX vc \<noteq> PDX va" for vc
    using keep [of pgdir "PDX vc"] d(5) pd that by (simp add: has_tab_def tab_of_def pde_of_def)
  show "PDX vb = PDX va \<Longrightarrow> has_tab m' pgdir vb \<and> tab_of m' pgdir vb = p" by (rule new)
  show "PDX vb \<noteq> PDX va \<Longrightarrow> has_tab m' pgdir vb = has_tab (mem s) pgdir vb
      \<and> tab_of m' pgdir vb = tab_of (mem s) pgdir vb" by (rule old)
  have same_dir: "has_tab (mem s) pgdir vc = has_tab (mem s) pgdir va" if "PDX vc = PDX va" for vc
    by (simp add: has_tab_def pde_of_def that)
  show "pte_of m' pgdir vb = pte_of (mem s) pgdir vb"
  proof (cases "PDX vb = PDX va")
    case True
    have "load32 m' (p + 4 * PTX vb) = 0"
      using load_entry_other_page [OF p(1) d(5) pd PTX_lt PDX_lt] zero_page_load [OF p(1) PTX_lt] by (simp add: m')
    then show ?thesis using new [OF True] same_dir [OF True] h by (simp add: pte_of_def)
  next
    case False
    show ?thesis
    proof (cases "has_tab (mem s) pgdir vb")
      case True
      then have "tab_of (mem s) pgdir vb \<in> tables (mem s) pgdir" by (auto simp: tables_def)
      then have "tab_of (mem s) pgdir vb \<noteq> p" using p(3) by blast
      then show ?thesis
        using keep [of "tab_of (mem s) pgdir vb" "PTX vb"] old [OF False] True d(7,8) [OF True]
        by (simp add: pte_of_def)
    qed (use old [OF False] in \<open>simp add: pte_of_def\<close>)
  qed
  show "m' a = mem s a" if "\<not> in_page p a" "\<not> in_page pgdir a"
    using that by (simp add: m' store32_in_page entry_offset(2) filled_outside)
  have "tab_of m' pgdir ` {vc. has_tab m' pgdir vc} = insert p (tab_of (mem s) pgdir ` {vc. has_tab (mem s) pgdir vc})"
  proof (intro set_eqI iffI)
    fix q assume "q \<in> tab_of m' pgdir ` {vc. has_tab m' pgdir vc}"
    then obtain vc where "q = tab_of m' pgdir vc" "has_tab m' pgdir vc" by blast
    then show "q \<in> insert p (tab_of (mem s) pgdir ` {vc. has_tab (mem s) pgdir vc})"
      using new [of vc] old [of vc] by (cases "PDX vc = PDX va") auto
  next
    fix q assume "q \<in> insert p (tab_of (mem s) pgdir ` {vc. has_tab (mem s) pgdir vc})"
    then consider "q = p" | vc where "q = tab_of (mem s) pgdir vc" "has_tab (mem s) pgdir vc" by blast
    then show "q \<in> tab_of m' pgdir ` {vc. has_tab m' pgdir vc}"
    proof cases
      case 1
      then show ?thesis using new [of va] by blast
    next
      case 2
      then have "PDX vc \<noteq> PDX va" using same_dir [of vc] h by blast
      then show ?thesis using old [of vc] 2 by (intro image_eqI [of _ _ vc]) auto
    qed
  qed
  then show "tables m' pgdir = insert p (tables (mem s) pgdir)" by (simp add: tables_def insert_commute)
qed

lemma walk_alloc_new:
  assumes v: "vm_ok (p # ps) pgdir s" and h: "\<not> has_tab (mem s) pgdir va"
  shows "\<exists>t. walkpgdir pgdir va True s = Ok (p + 4 * PTX va) t \<and> vm_ext pgdir (p # ps) s ps t
     \<and> has_tab (mem t) pgdir va \<and> tab_of (mem t) pgdir va = p
     \<and> (\<forall>x. pte_of (mem t) pgdir x = pte_of (mem s) pgdir x)"
proof -
  note d = vm_okD [OF v]
  let ?s = "after_kalloc s"
  have p: "kpage s p" "p \<notin> set ps" using d(3) by (simp_all add: kmem_ok_def)
  have pt: "p \<notin> tables (mem s) pgdir" using v by (simp add: vm_ok_def)
  have pa: "page_aligned p" "p \<noteq> 0" "KERNBASE \<le> p" using p(1) kpage_KERNBASE by (auto simp: kpage_def)
  define m' where "m' = store32 (pgdir + 4 * PDX va) (V2P p OR PTE_P OR PTE_W OR PTE_U) (memset p 0 4096 (mem s))"
  note inst = install_table [OF v h pa(1,3) pt, folded m'_def]
  let ?t = "?s\<lparr>mem := m'\<rparr>"
  have fl: "kmem_freelist s = p" using d(3) by (simp add: kmem_ok_def)
  have run: "walkpgdir pgdir va True s = Ok (p + 4 * PTX va) ?t"
    using d(1,2) h pa(2) fl
    by (simp add: walkpgdir_def Let_def kthen_def m'_def has_tab_def pde_of_def)
  have km: "kmem_ok ?t ps"
  proof (rule kmem_ok_mem)
    show "kmem_ok ?s ps" using kmem_ok_alloc(1) [OF d(1,2,3)] by simp
    show "m' a = mem ?s a" if h: "\<exists>q\<in>set ps. in_page q a" for a
    proof -
      obtain q where q: "q \<in> set ps" "in_page q a" using h by blast
      have qa: "page_aligned q" "q \<noteq> p" "q \<noteq> pgdir"
        using q(1) d(3,6) p(2) by (auto simp: kmem_ok_def kpage_def)
      have "\<not> in_page p a" "\<not> in_page pgdir a"
        using in_page_disjoint [OF qa(1) pa(1) q(2)] in_page_disjoint [OF qa(1) d(5) q(2)] qa(2,3) by auto
      then show ?thesis using inst(4) d(1,2) by simp
    qed
  qed
  have old_tab: "kpage s (tab_of (mem s) pgdir vb) \<and> tab_of (mem s) pgdir vb \<noteq> pgdir
      \<and> tab_of (mem s) pgdir vb \<noteq> p" if "has_tab (mem s) pgdir vb" for vb
  proof -
    have "tab_of (mem s) pgdir vb \<in> tables (mem s) pgdir" using that by (auto simp: tables_def)
    then show ?thesis using that d(4) pt unfolding pt_ok_def by blast
  qed
  have kp: "kpage ?t = kpage s" using d(1,2) by (intro ext) (simp add: kpage_def)
  have ppd: "p \<noteq> pgdir" using pt by (auto simp: tables_def)
  have "pt_ok ?t pgdir"
    unfolding pt_ok_def kp
  proof (intro conjI allI impI)
    show "kpage s pgdir" using d(4) by (simp add: pt_ok_def)
    fix vb assume hb: "has_tab (mem ?t) pgdir vb"
    show "kpage s (tab_of (mem ?t) pgdir vb)" "tab_of (mem ?t) pgdir vb \<noteq> pgdir"
      using inst(1) [of vb] inst(2) [of vb] hb old_tab [of vb] p(1) ppd by (cases "PDX vb = PDX va"; simp)+
    fix vc assume hc: "has_tab (mem ?t) pgdir vc" and eq: "tab_of (mem ?t) pgdir vb = tab_of (mem ?t) pgdir vc"
    show "PDX vb = PDX vc"
      using inst(1) [of vb] inst(2) [of vb] inst(1) [of vc] inst(2) [of vc] hb hc eq
        old_tab [of vb] old_tab [of vc] d(10) [of vb vc]
      by (cases "PDX vb = PDX va"; cases "PDX vc = PDX va") simp_all
  qed
  moreover have "set ps \<inter> tables m' pgdir = {}" using inst(5) p(2) v by (auto simp: vm_ok_def)
  ultimately have vt: "vm_ok ps pgdir ?t" using km d(1,2) by (simp add: vm_ok_def)
  have "\<exists>q \<in> tables m' pgdir \<union> (set (p # ps) - set ps). in_page q a" if "m' a \<noteq> mem s a" for a
    using inst(4) [of a] that inst(5) by (auto simp: tables_def)
  then have "vm_ext pgdir (p # ps) s ps ?t"
    using vt d(1,2) inst(5) p(2) unfolding vm_ext_def by auto
  then show ?thesis using run inst(1) [of va] inst(3) by auto
qed

lemma walk_alloc_full:
  assumes "vm_ok [] pgdir s" "\<not> has_tab (mem s) pgdir va"
  shows "walkpgdir pgdir va True s = Ok 0 (after_kalloc s)" "vm_ext pgdir [] s [] (after_kalloc s)"
proof -
  note d = vm_okD [OF assms(1)]
  have fl: "kmem_freelist s = 0" using d(3) by (simp add: kmem_ok_def)
  show "walkpgdir pgdir va True s = Ok 0 (after_kalloc s)"
    using d(1,2) assms(2) fl by (simp add: walkpgdir_def Let_def has_tab_def pde_of_def)
  have "kpage (after_kalloc s) = kpage s" using d(1,2) by (intro ext) (simp add: kpage_def)
  then have "pt_ok (after_kalloc s) pgdir = pt_ok s pgdir" using d(1,2) by (simp add: pt_ok_def)
  then show "vm_ext pgdir [] s [] (after_kalloc s)"
    using d(1-4) kmem_ok_alloc(1) [OF d(1-3)] by (simp add: vm_ext_def vm_ok_def)
qed

text \<open>The three outcomes of a walk that may allocate: no table and no page for one, or the
  address of the entry, in an old table or in one just installed.\<close>

lemma walk_alloc:
  assumes "vm_ok ps pgdir s"
  shows "\<exists>r t ps'. walkpgdir pgdir va True s = Ok r t \<and> vm_ext pgdir ps s ps' t
     \<and> length ps \<le> Suc (length ps') \<and> (\<forall>x. pte_of (mem t) pgdir x = pte_of (mem s) pgdir x)
     \<and> (if r = 0 then \<not> has_tab (mem s) pgdir va \<and> ps = [] \<and> mem t = mem s
        else has_tab (mem t) pgdir va \<and> r = pte_addr (mem t) pgdir va)"
proof (cases "has_tab (mem s) pgdir va")
  case True
  have "walkpgdir pgdir va True s = Ok (pte_addr (mem s) pgdir va) s"
    using True by (simp add: walkpgdir_def Let_def pte_addr_def has_tab_def pde_of_def tab_of_def)
  then show ?thesis
    using vm_ext_refl [OF assms] True pte_addr_nonzero [OF assms True]
    by (intro exI [of _ "pte_addr (mem s) pgdir va"] exI [of _ s] exI [of _ ps]) simp
next
  case False
  show ?thesis
  proof (cases ps)
    case Nil
    then show ?thesis
      using walk_alloc_full [of pgdir s va] assms False vm_okD(1,2) [OF assms] by auto
  next
    case (Cons p qs)
    then obtain t where t: "walkpgdir pgdir va True s = Ok (p + 4 * PTX va) t" "vm_ext pgdir ps s qs t"
        "has_tab (mem t) pgdir va" "tab_of (mem t) pgdir va = p"
        "\<forall>x. pte_of (mem t) pgdir x = pte_of (mem s) pgdir x"
      using walk_alloc_new [of p qs pgdir s va] assms False by blast
    then have "pte_addr (mem t) pgdir va = p + 4 * PTX va" by (simp add: pte_addr_def)
    moreover have "vm_ok qs pgdir t" using t(2) by (simp add: vm_ext_def)
    ultimately show ?thesis
      using t Cons pte_addr_nonzero [of qs pgdir t va]
      by (intro exI [of _ "p + 4 * PTX va"] exI [of _ t] exI [of _ qs]) simp
  qed
qed

subsection \<open>mappages\<close>

lemma vm_extD:
  assumes "vm_ext pgdir ps s ps' t"
  shows "vm_ok ps' pgdir t" "same_vm s t" "set ps' \<subseteq> set ps"
  using assms by (auto simp: vm_ext_def)

lemma page_aligned_add: "page_aligned p \<Longrightarrow> page_aligned (p + PGSIZE)"
proof -
  assume "page_aligned p"
  then have "4096 dvd unat p" by (simp add: page_aligned_def dvd_eq_mod_eq_0)
  then have "4096 dvd (unat p + 4096) mod 4294967296" by (intro dvd_mod) auto
  then show ?thesis by (simp add: page_aligned_def unat_word_ariths dvd_eq_mod_eq_0)
qed

lemma pages_from_aligned: "page_aligned p \<Longrightarrow> q \<in> set (pages_from n p) \<Longrightarrow> page_aligned q"
  by (induction n arbitrary: p) (auto intro: page_aligned_add)

lemma pages_from_ge:
  assumes "unat p + 4096 * n \<le> 4294967296" "q \<in> set (pages_from n p)"
  shows "p \<le> q"
  using assms
proof (induction n arbitrary: p)
  case (Suc n)
  show ?case
  proof (cases "n = 0")
    case False
    then have "unat (p + PGSIZE) = unat p + 4096" using Suc.prems(1) by (intro unat_next_page) simp
    then show ?thesis using Suc.IH [of "p + PGSIZE"] Suc.prems by (auto simp: word_le_nat_alt)
  qed (use Suc.prems in simp)
qed simp

lemma load_pte: "has_tab m pgdir va \<Longrightarrow> load32 m (pte_addr m pgdir va) = pte_of m pgdir va"
  by (simp add: pte_addr_def pte_of_def)

lemma page_aligned_notin_other: "page_aligned a \<Longrightarrow> PGROUNDDOWN x \<noteq> a \<Longrightarrow> PGROUNDDOWN x \<noteq> PGROUNDDOWN a"
  by (simp add: page_aligned_PGROUNDDOWN)

text \<open>One round of \<open>mappages\<close> on an unmapped page.\<close>

lemma map_page:
  fixes x :: uint and cont :: "('x vm_state_scheme, int) K"
  assumes v: "vm_ok ps pgdir s" and a: "page_aligned a" and np: "pte_of (mem s) pgdir a AND PTE_P = 0"
  defines "round \<equiv> kbind (walkpgdir pgdir a True) (\<lambda>pte. if pte = 0 then kret (- 1)
     else kbind (rd pte) (\<lambda>e. if e AND PTE_P \<noteq> 0 then kpanic ''remap'' else kthen [wr pte x] cont))"
  shows "(\<exists>t. round s = Ok (- 1) t \<and> vm_ext pgdir ps s [] t \<and> mem t = mem s)
     \<or> (\<exists>u ps'. round s = cont u \<and> vm_ext pgdir ps s ps' u \<and> pte_of (mem u) pgdir a = x
          \<and> (\<forall>y. PGROUNDDOWN y \<noteq> a \<longrightarrow> pte_of (mem u) pgdir y = pte_of (mem s) pgdir y))"
proof -
  obtain r t ps' where w: "walkpgdir pgdir a True s = Ok r t" "vm_ext pgdir ps s ps' t"
      "\<forall>x. pte_of (mem t) pgdir x = pte_of (mem s) pgdir x"
      "if r = 0 then \<not> has_tab (mem s) pgdir a \<and> ps = [] \<and> mem t = mem s
       else has_tab (mem t) pgdir a \<and> r = pte_addr (mem t) pgdir a"
    using walk_alloc [OF v, of a] by blast
  show ?thesis
  proof (cases "r = 0")
    case True
    then show ?thesis using w by (auto simp: round_def vm_ext_def)
  next
    case False
    then have h: "has_tab (mem t) pgdir a" "r = pte_addr (mem t) pgdir a" using w(4) by auto
    let ?u = "t\<lparr>mem := store32 r x (mem t)\<rparr>"
    note st = store_pte [OF vm_extD(1) [OF w(2)] h(1), where e = x, folded h(2)]
    have "load32 (mem t) r AND PTE_P = 0" using w(3) h np load_pte by simp
    then have "round s = cont ?u" using False by (simp add: round_def w(1) kthen_def)
    moreover have "vm_ext pgdir ps s ps' ?u"
      using vm_ext_trans [OF w(2) vm_ext_store [OF vm_extD(1) [OF w(2)] h(1), where e = x, folded h(2)]] .
    moreover have "\<forall>y. PGROUNDDOWN y \<noteq> a \<longrightarrow> pte_of (mem ?u) pgdir y = pte_of (mem s) pgdir y"
      using st(7) w(3) page_aligned_PGROUNDDOWN [OF a] by simp
    ultimately show ?thesis using st(6) by (intro disjI2 exI [of _ ?u] exI [of _ ps']) simp
  qed
qed

lemma mappages_loop_run:
  assumes "vm_ok ps pgdir s" "page_aligned a" "unat a + 4096 * Suc k \<le> 4294967296" "k < fuel"
    and "\<forall>x\<in>set (pages_from (Suc k) a). pte_of (mem s) pgdir x AND PTE_P = 0"
  shows "\<exists>r t ps'. mappages_loop fuel pgdir a (a + 4096 * of_nat k) pa perm s = Ok r t
     \<and> vm_ext pgdir ps s ps' t
     \<and> (\<forall>x. PGROUNDDOWN x \<notin> set (pages_from (Suc k) a) \<longrightarrow> pte_of (mem t) pgdir x = pte_of (mem s) pgdir x)
     \<and> (r = 0 \<and> (\<forall>j\<le>k. pte_of (mem t) pgdir (a + 4096 * of_nat j) = (pa + 4096 * of_nat j) OR perm OR PTE_P)
        \<or> r = - 1 \<and> ps' = [])"
  using assms
proof (induction k arbitrary: a pa s ps fuel)
  case (0 a pa s ps fuel)
  then obtain f where f: "fuel = Suc f" by (cases fuel) auto
  show ?case
    using map_page [OF "0.prems"(1,2), where x = "pa OR perm OR PTE_P" and cont = "kret 0"] "0.prems"(5)
    by (auto simp: f)
next
  case (Suc k a pa s ps fuel)
  then obtain f where f: "fuel = Suc f" "k < f" by (cases fuel) auto
  have last: "a + PGSIZE + 4096 * of_nat k = a + 4096 * of_nat (Suc k)" by (simp add: algebra_simps)
  have ua: "unat (a + PGSIZE) = unat a + 4096" using Suc.prems(3) by (intro unat_next_page) simp
  have anl: "a \<noteq> a + 4096 * of_nat (Suc k)"
  proof
    assume "a = a + 4096 * of_nat (Suc k)"
    then have "unat (4096 * of_nat (Suc k) :: addr) = 0" by simp
    then show False using Suc.prems(3) by (simp add: unat_word_ariths unat_of_nat del: of_nat_Suc)
  qed
  have later: "a \<noteq> q" if "q \<in> set (pages_from (Suc k) (a + PGSIZE))" for q
    using pages_from_ge [OF _ that] ua Suc.prems(3) by (auto simp: word_le_nat_alt)
  consider t where "mappages_loop fuel pgdir a (a + 4096 * of_nat (Suc k)) pa perm s = Ok (- 1) t"
      "vm_ext pgdir ps s [] t" "mem t = mem s"
    | u ps' where "mappages_loop fuel pgdir a (a + 4096 * of_nat (Suc k)) pa perm s
          = mappages_loop f pgdir (a + PGSIZE) (a + 4096 * of_nat (Suc k)) (pa + PGSIZE) perm u"
      "vm_ext pgdir ps s ps' u" "pte_of (mem u) pgdir a = pa OR perm OR PTE_P"
      "\<forall>y. PGROUNDDOWN y \<noteq> a \<longrightarrow> pte_of (mem u) pgdir y = pte_of (mem s) pgdir y"
    using map_page [OF Suc.prems(1,2), where x = "pa OR perm OR PTE_P" and
        cont = "mappages_loop f pgdir (a + PGSIZE) (a + 4096 * of_nat (Suc k)) (pa + PGSIZE) perm"]
      Suc.prems(5) anl
    by (auto simp: f simp del: of_nat_Suc)
  then show ?case
  proof cases
    case 1
    then show ?thesis by auto
  next
    case (2 u ps')
    have al: "page_aligned (a + PGSIZE)" using Suc.prems(2) by (rule page_aligned_add)
    have pal: "\<forall>q\<in>set (pages_from (Suc k) (a + PGSIZE)). PGROUNDDOWN q = q"
      using pages_from_aligned [OF al] page_aligned_PGROUNDDOWN by blast
    have "\<forall>q\<in>set (pages_from (Suc k) (a + PGSIZE)). pte_of (mem u) pgdir q AND PTE_P = 0"
    proof
      fix q assume q: "q \<in> set (pages_from (Suc k) (a + PGSIZE))"
      then have "PGROUNDDOWN q \<noteq> a" using later [OF q] pal by metis
      then show "pte_of (mem u) pgdir q AND PTE_P = 0" using 2(4) Suc.prems(5) q by auto
    qed
    then obtain r t qs where *: "mappages_loop f pgdir (a + PGSIZE) (a + 4096 * of_nat (Suc k)) (pa + PGSIZE) perm u = Ok r t"
        "vm_ext pgdir ps' u qs t"
        "\<forall>x. PGROUNDDOWN x \<notin> set (pages_from (Suc k) (a + PGSIZE)) \<longrightarrow> pte_of (mem t) pgdir x = pte_of (mem u) pgdir x"
        "r = 0 \<and> (\<forall>j\<le>k. pte_of (mem t) pgdir (a + PGSIZE + 4096 * of_nat j) = (pa + PGSIZE + 4096 * of_nat j) OR perm OR PTE_P)
         \<or> r = - 1 \<and> qs = []"
      using Suc.IH [OF vm_extD(1) [OF 2(2)] al _ f(2), of "pa + PGSIZE"] ua Suc.prems(3) unfolding last by auto
    have "pte_of (mem t) pgdir a = pa OR perm OR PTE_P"
      using 2(3) *(3) later page_aligned_PGROUNDDOWN [OF Suc.prems(2)] by metis
    then have mapped: "pte_of (mem t) pgdir (a + 4096 * of_nat j) = (pa + 4096 * of_nat j) OR perm OR PTE_P"
      if "j \<le> Suc k" "r = 0" for j
      using that *(4) by (cases j) (auto simp: algebra_simps)
    have "vm_ext pgdir ps s qs t" using vm_ext_trans [OF 2(2) *(2)] .
    then show ?thesis using 2(1,4) *(1,3,4) mapped by auto
  qed
qed

lemma PGROUNDDOWN_last:
  assumes "page_aligned a" "unat n < 4096"
  shows "PGROUNDDOWN (a + n) = a"
  using in_page_iff [OF assms(1)] in_page_offset [OF assms(2)] by blast

lemma mappages_page:
  assumes "vm_ok ps pgdir s" "page_aligned a" "pte_of (mem s) pgdir a AND PTE_P = 0"
  shows "\<exists>r t ps'. mappages pgdir a PGSIZE pa perm s = Ok r t \<and> vm_ext pgdir ps s ps' t
     \<and> (\<forall>x. PGROUNDDOWN x \<noteq> a \<longrightarrow> pte_of (mem t) pgdir x = pte_of (mem s) pgdir x)
     \<and> (r = 0 \<and> pte_of (mem t) pgdir a = pa OR perm OR PTE_P \<or> r = - 1 \<and> ps' = [])"
proof -
  have e: "a + PGSIZE - 1 = a + 4095" by simp
  have l: "PGROUNDDOWN (a + PGSIZE - 1) = a" unfolding e by (rule PGROUNDDOWN_last [OF assms(2)]) simp
  obtain k where k: "unat a = 4096 * k" using assms(2) by (auto simp: page_aligned_def)
  have "k < 1048576" using unat32_lt [of a] k by linarith
  then have "unat a + 4096 \<le> 4294967296" using k by linarith
  moreover have "mappages pgdir a PGSIZE pa perm s = mappages_loop (Suc 0) pgdir a a pa perm s"
    unfolding mappages_def Let_def l page_aligned_PGROUNDDOWN [OF assms(2)] by simp
  ultimately show ?thesis
    using mappages_loop_run [of ps pgdir s a 0 "Suc 0" pa perm] assms
    by (simp del: mappages_loop.simps)
qed

subsection \<open>Allocating and freeing beside a page table\<close>

lemma pt_frame:
  assumes al: "\<forall>q\<in>tables m pgdir. page_aligned q"
    and eq: "\<And>a. \<exists>q\<in>tables m pgdir. in_page q a \<Longrightarrow> m' a = m a"
  shows "pde_of m' pgdir vb = pde_of m pgdir vb" "has_tab m' pgdir vb = has_tab m pgdir vb"
    "tab_of m' pgdir vb = tab_of m pgdir vb" "pte_addr m' pgdir vb = pte_addr m pgdir vb"
    "pte_of m' pgdir vb = pte_of m pgdir vb" "tables m' pgdir = tables m pgdir"
proof -
  have ld: "load32 m' (q + 4 * i) = load32 m (q + 4 * i)" if "q \<in> tables m pgdir" "unat i < 1024" for q i
  proof (rule load32_cong)
    fix k :: nat assume "k < 4"
    then have "in_page q (q + 4 * i + of_nat k)"
      using in_page_word [of q "4 * i" k] in_page_offset [of "4 * i" q] entry_offset [OF that(2)] by simp
    then show "m' (q + 4 * i + of_nat k) = m (q + 4 * i + of_nat k)" using eq that(1) by blast
  qed
  show pde: "pde_of m' pgdir vc = pde_of m pgdir vc" for vc
    using ld [of pgdir "PDX vc"] by (simp add: pde_of_def tables_def)
  show ht: "has_tab m' pgdir vc = has_tab m pgdir vc" for vc by (simp add: has_tab_def pde)
  show tb: "tab_of m' pgdir vc = tab_of m pgdir vc" for vc by (simp add: tab_of_def pde)
  show "pte_addr m' pgdir vb = pte_addr m pgdir vb" by (simp add: pte_addr_def ht tb)
  show "tables m' pgdir = tables m pgdir" by (simp add: tables_def ht tb)
  show "pte_of m' pgdir vb = pte_of m pgdir vb"
  proof (cases "has_tab m pgdir vb")
    case True
    then have "tab_of m pgdir vb \<in> tables m pgdir" by (auto simp: tables_def)
    then show ?thesis using ld [of "tab_of m pgdir vb" "PTX vb"] by (simp add: pte_of_def ht tb)
  qed (simp add: pte_of_def ht)
qed

lemma tables_aligned: "vm_ok ps pgdir s \<Longrightarrow> \<forall>q\<in>tables (mem s) pgdir. page_aligned q"
  using vm_okD(5,7) by (fastforce simp: tables_def)

lemma tables_disjoint:
  assumes "vm_ok ps pgdir s" "page_aligned p" "p \<notin> tables (mem s) pgdir"
    "\<exists>q\<in>tables (mem s) pgdir. in_page q a"
  shows "\<not> in_page p a"
  using assms tables_aligned [OF assms(1)] in_page_disjoint by blast

lemma vm_ok_alloc:
  assumes "vm_ok ps pgdir s"
  shows "kalloc s = Ok (if ps = [] then 0 else hd ps) (after_kalloc s)"
    "vm_ok (tl ps) pgdir (after_kalloc s)" "same_vm s (after_kalloc s)" "mem (after_kalloc s) = mem s"
    "ps \<noteq> [] \<Longrightarrow> kpage s (hd ps) \<and> hd ps \<notin> set (tl ps) \<and> hd ps \<notin> tables (mem s) pgdir"
proof -
  note d = vm_okD(1-4) [OF assms]
  show "kalloc s = Ok (if ps = [] then 0 else hd ps) (after_kalloc s)"
    using d(1,2) kmem_ok_alloc(2) [OF d(1-3)] by simp
  have "kpage (after_kalloc s) = kpage s" using d(1,2) by (intro ext) (simp add: kpage_def)
  then have "pt_ok (after_kalloc s) pgdir = pt_ok s pgdir" using d(1,2) by (simp add: pt_ok_def)
  moreover have "set (tl ps) \<subseteq> set ps" by (cases ps) auto
  ultimately show "vm_ok (tl ps) pgdir (after_kalloc s)"
    using d kmem_ok_alloc(1) [OF d(1-3)] assms by (auto simp: vm_ok_def)
  show "same_vm s (after_kalloc s)" "mem (after_kalloc s) = mem s" using d(1,2) by simp_all
  show "ps \<noteq> [] \<Longrightarrow> kpage s (hd ps) \<and> hd ps \<notin> set (tl ps) \<and> hd ps \<notin> tables (mem s) pgdir"
    using assms d(3) by (cases ps) (auto simp: vm_ok_def kmem_ok_def)
qed

text \<open>Writing a page that is neither free nor a table.\<close>

lemma vm_ok_write:
  assumes v: "vm_ok ps pgdir s" and p: "page_aligned p" "p \<notin> set ps" "p \<notin> tables (mem s) pgdir"
    and out: "\<forall>a. \<not> in_page p a \<longrightarrow> m' a = mem s a"
  shows "vm_ok ps pgdir (s\<lparr>mem := m'\<rparr>)" "pte_of m' pgdir x = pte_of (mem s) pgdir x"
    "has_tab m' pgdir x = has_tab (mem s) pgdir x" "tables m' pgdir = tables (mem s) pgdir"
    "pte_addr m' pgdir x = pte_addr (mem s) pgdir x"
proof -
  have eq: "m' a = mem s a" if "\<exists>q\<in>tables (mem s) pgdir. in_page q a" for a
    using tables_disjoint [OF v p(1,3) that] out by blast
  note f = pt_frame [OF tables_aligned [OF v] eq]
  have "m' a = mem s a" if h: "\<exists>q\<in>set ps. in_page q a" for a
  proof -
    obtain q where q: "q \<in> set ps" "in_page q a" using h by blast
    then have "page_aligned q" "q \<noteq> p" using vm_okD(3) [OF v] p(2) by (auto simp: kmem_ok_def kpage_def)
    then show ?thesis using in_page_disjoint q(2) p(1) out by blast
  qed
  then have "kmem_ok (s\<lparr>mem := m'\<rparr>) ps" by (intro kmem_ok_mem vm_okD(3) [OF v])
  moreover have "pt_ok (s\<lparr>mem := m'\<rparr>) pgdir = pt_ok s pgdir" by (simp add: pt_ok_def f)
  ultimately show "vm_ok ps pgdir (s\<lparr>mem := m'\<rparr>)" using v by (simp add: vm_ok_def f)
  show "pte_of m' pgdir x = pte_of (mem s) pgdir x" "has_tab m' pgdir x = has_tab (mem s) pgdir x"
    "tables m' pgdir = tables (mem s) pgdir" "pte_addr m' pgdir x = pte_addr (mem s) pgdir x"
    using f by auto
qed

lemma vm_ok_free:
  assumes v: "vm_ok ps pgdir s" and p: "kpage s p" "p \<notin> set ps" "p \<notin> tables (mem s) pgdir"
  shows "kfree p s = Ok () (after_kfree p s)" "vm_ok (p # ps) pgdir (after_kfree p s)"
    "same_vm s (after_kfree p s)" "pte_of (mem (after_kfree p s)) pgdir x = pte_of (mem s) pgdir x"
    "has_tab (mem (after_kfree p s)) pgdir x = has_tab (mem s) pgdir x"
    "pte_addr (mem (after_kfree p s)) pgdir x = pte_addr (mem s) pgdir x"
    "tables (mem (after_kfree p s)) pgdir = tables (mem s) pgdir"
    "\<not> in_page p a \<Longrightarrow> mem (after_kfree p s) a = mem s a"
proof -
  note d = vm_okD(1-4) [OF v]
  have al: "page_aligned p" using p(1) by (simp add: kpage_def)
  let ?m = "mem (after_kfree p s)"
  have out: "\<forall>b. \<not> in_page p b \<longrightarrow> ?m b = mem s b"
    using d(1,2) by (simp add: kfree_mem_outside)
  note w = vm_ok_write [OF v al p(2,3) out]
  show "kfree p s = Ok () (after_kfree p s)" using kfree_run [OF d(1,2) p(1)] .
  show "same_vm s (after_kfree p s)" using d(1,2) by simp
  have "kpage (after_kfree p s) = kpage s" using d(1,2) by (intro ext) (simp add: kpage_def)
  then have "pt_ok (after_kfree p s) pgdir = pt_ok (s\<lparr>mem := ?m\<rparr>) pgdir" by (simp add: pt_ok_def)
  then show "vm_ok (p # ps) pgdir (after_kfree p s)"
    using w(1,4) d(1,2) kmem_ok_free [OF d(1-3) p(1,2)] p(3) unfolding vm_ok_def by auto
  show "pte_of ?m pgdir x = pte_of (mem s) pgdir x" "has_tab ?m pgdir x = has_tab (mem s) pgdir x"
    "pte_addr ?m pgdir x = pte_addr (mem s) pgdir x" "tables ?m pgdir = tables (mem s) pgdir"
    "\<not> in_page p a \<Longrightarrow> ?m a = mem s a"
    using w out by auto
qed

end
