(* ===== verification/Xv6_Uvm.thy ===== *)
theory Xv6_Uvm
  imports Xv6_Vm
begin

text \<open>
  The thread stacks of vm.c: \<open>cloneuvm\<close> finds the highest empty slot below the kernel,
  maps a fresh page there and shares the guard page's entry below it; \<open>freecloneuvm\<close>
  undoes it.
\<close>

section \<open>The slot search\<close>

definition present :: "byte_mem \<Rightarrow> addr \<Rightarrow> addr \<Rightarrow> bool" where
  "present m pgdir va \<longleftrightarrow> pte_of m pgdir va AND PTE_P \<noteq> 0"

lemma present_has_tab: "present m pgdir va \<Longrightarrow> has_tab m pgdir va"
  by (auto simp: present_def pte_of_def split: if_splits)

lemma page_below:
  assumes "page_aligned a" "a \<noteq> 0"
  shows "unat (a - PGSIZE) = unat a - 4096" "page_aligned (a - PGSIZE)" "4096 \<le> unat a"
proof -
  obtain k where k: "unat a = 4096 * k" using assms(1) by (auto simp: page_aligned_def)
  then have "k \<noteq> 0" using assms(2) by (auto simp: word_unat_eq_iff)
  then show le: "4096 \<le> unat a" using k by simp
  then show u: "unat (a - PGSIZE) = unat a - 4096" by (simp add: unat_sub word_le_nat_alt)
  show "page_aligned (a - PGSIZE)" using assms(1) le by (simp add: page_aligned_def u le_mod_geq)
qed

lemma find_slot_run:
  assumes v: "vm_ok ps pgdir s" and "page_aligned va" "0 < sz" "unat va < 4096 * n"
  shows "\<exists>x. find_slot n pgdir va sz s = Ok x s \<and> page_aligned x \<and> x \<le> va
     \<and> (x < sz \<or> \<not> present (mem s) pgdir x)
     \<and> (\<forall>y. page_aligned y \<longrightarrow> x < y \<longrightarrow> y \<le> va \<longrightarrow> present (mem s) pgdir y)"
  using assms(2-4)
proof (induction n arbitrary: va)
  case (Suc n)
  consider (stop) "va < sz \<or> \<not> present (mem s) pgdir va" | (down) "\<not> va < sz" "present (mem s) pgdir va" by blast
  then show ?case
  proof cases
    case stop
    have "find_slot (Suc n) pgdir va sz s = Ok va s"
    proof (cases "has_tab (mem s) pgdir va")
      case True
      then show ?thesis using stop load_pte [OF True] pte_addr_nonzero [OF v True] by (auto simp: present_def)
    qed (simp add: pte_addr_def)
    then show ?thesis using Suc.prems stop by auto
  next
    case down
    have h: "has_tab (mem s) pgdir va" using down(2) by (rule present_has_tab)
    have nz: "va \<noteq> 0" using down(1) Suc.prems(2) by auto
    note b = page_below [OF Suc.prems(1) nz]
    have step: "find_slot (Suc n) pgdir va sz s = find_slot n pgdir (va - PGSIZE) sz s"
      using down load_pte [OF h] pte_addr_nonzero [OF v h] by (simp add: present_def)
    have "unat va < 4096 + 4096 * n" using Suc.prems(3) by simp
    then have lt: "unat (va - PGSIZE) < 4096 * n" using b by linarith
    obtain x where x: "find_slot n pgdir (va - PGSIZE) sz s = Ok x s" "page_aligned x" "x \<le> va - PGSIZE"
        "x < sz \<or> \<not> present (mem s) pgdir x"
        "\<forall>y. page_aligned y \<longrightarrow> x < y \<longrightarrow> y \<le> va - PGSIZE \<longrightarrow> present (mem s) pgdir y"
      using Suc.IH [OF b(2) Suc.prems(2) lt] by auto
    have "present (mem s) pgdir y" if y: "page_aligned y" "x < y" "y \<le> va" for y
    proof (cases "y = va")
      case False
      obtain i where i: "unat y = 4096 * i" using y(1) by (auto simp: page_aligned_def)
      obtain j where j: "unat va = 4096 * j" using Suc.prems(1) by (auto simp: page_aligned_def)
      note ij = i j
      then have "i < j" using y(3) False by (auto simp: word_le_nat_alt word_unat_eq_iff)
      then have "y \<le> va - PGSIZE" using b ij by (simp add: word_le_nat_alt)
      then show ?thesis using x(5) y by blast
    qed (use down in simp)
    then show ?thesis using step x b by (auto simp: word_le_nat_alt)
  qed
qed simp

lemma base1024:
  assumes "u < 1024" "v < 1024" "1024 * x + u = 1024 * y + (v :: nat)"
  shows "x = y" "u = v"
proof -
  have "(1024 * x + u) div 1024 = x" "(1024 * y + v) div 1024 = y" using assms(1,2) by simp_all
  then show "x = y" using assms(3) by simp
  then show "u = v" using assms(3) by simp
qed

lemma round_index: "PDX (PGROUNDDOWN a) = PDX a" "PTX (PGROUNDDOWN a) = PTX a"
proof -
  have "unat (PGROUNDDOWN a) div 4096 = unat a div 4096"
    by (simp add: unat_PGROUNDDOWN minus_mod_eq_mult_div)
  then have "1024 * unat (PDX (PGROUNDDOWN a)) + unat (PTX (PGROUNDDOWN a)) = 1024 * unat (PDX a) + unat (PTX a)"
    by (simp only: page_frame_index)
  then have "unat (PDX (PGROUNDDOWN a)) = unat (PDX a) \<and> unat (PTX (PGROUNDDOWN a)) = unat (PTX a)"
    using base1024 [OF PTX_lt PTX_lt] by blast
  then show "PDX (PGROUNDDOWN a) = PDX a" "PTX (PGROUNDDOWN a) = PTX a" by (simp_all add: word_unat_eq_iff)
qed

lemma pte_of_round: "pte_of m pgdir (PGROUNDDOWN a) = pte_of m pgdir a"
  by (simp add: pte_of_def has_tab_def tab_of_def pde_of_def round_index)

lemma below_same_table:
  assumes "page_aligned x" "x \<noteq> 0" "PTX x \<noteq> 0"
  shows "PDX (x - PGSIZE) = PDX x"
proof -
  note b = page_below [OF assms(1,2)]
  have p: "0 < unat (PTX x)" using assms(3) by (simp add: word_unat_eq_iff)
  have "unat (x - PGSIZE) div 4096 = unat x div 4096 - 1" using b by (simp add: le_div_geq)
  then have "1024 * unat (PDX (x - PGSIZE)) + unat (PTX (x - PGSIZE)) = 1024 * unat (PDX x) + (unat (PTX x) - 1)"
    using p by (simp only: page_frame_index)
  then have "(1024 * unat (PDX (x - PGSIZE)) + unat (PTX (x - PGSIZE))) div 1024
      = (1024 * unat (PDX x) + (unat (PTX x) - 1)) div 1024" by simp
  then show ?thesis using PTX_lt [of x] PTX_lt [of "x - PGSIZE"] by (simp add: word_unat_eq_iff)
qed

section \<open>Mapping a fresh page\<close>

lemma take_page:
  fixes e :: uint
  assumes v: "vm_ok (p # ps) pgdir s" and h: "has_tab (mem s) pgdir va"
  defines "t \<equiv> (after_kalloc s)\<lparr>mem := store32 (pte_addr (mem s) pgdir va) e (memset p 0 4096 (mem s))\<rparr>"
  shows "vm_ok ps pgdir t" "same_vm s t" "kpage t p" "p \<notin> tables (mem t) pgdir"
    "has_tab (mem t) pgdir x = has_tab (mem s) pgdir x" "pte_addr (mem t) pgdir x = pte_addr (mem s) pgdir x"
    "pte_of (mem t) pgdir va = e"
    "PGROUNDDOWN x \<noteq> PGROUNDDOWN va \<Longrightarrow> pte_of (mem t) pgdir x = pte_of (mem s) pgdir x"
    "in_page p a \<Longrightarrow> mem t a = 0"
proof -
  note al = vm_ok_alloc [OF v, simplified] and d = vm_okD(1-4) [OF v]
  have p: "page_aligned p" using al(5) by (simp add: kpage_def)
  let ?s1 = "after_kalloc s" and ?m2 = "filled p 0 4096 (mem s)"
  have al4: "mem (after_kalloc s) = mem s" using d(1,2) by simp
  have nt: "p \<notin> set ps" "p \<notin> tables (mem ?s1) pgdir" using al(5) al4 by simp_all
  have out: "\<forall>b. \<not> in_page p b \<longrightarrow> ?m2 b = mem ?s1 b" by (simp add: filled_outside al4)
  note w = vm_ok_write [OF vm_ok_alloc(2) [OF v, simplified] p nt out, unfolded al4]
  let ?s2 = "?s1\<lparr>mem := ?m2\<rparr>"
  have h2: "has_tab (mem ?s2) pgdir va" using w(3) h by simp
  have t: "t = ?s2\<lparr>mem := store32 (pte_addr (mem ?s2) pgdir va) e (mem ?s2)\<rparr>"
    by (simp add: t_def memset_filled w(5))
  note st = store_pte [OF w(1) h2, where e = e]
  show "vm_ok ps pgdir t" using st(8) by (simp add: t)
  show "same_vm s t" using d(1,2) by (simp add: t_def)
  show "kpage t p" using al(5) d(1,2) by (simp add: t_def kpage_def)
  show pt: "p \<notin> tables (mem t) pgdir" using st(5) w(4) nt(2) al4 by (simp add: t)
  show "has_tab (mem t) pgdir x = has_tab (mem s) pgdir x" using st(2) w(3) by (simp add: t)
  show "pte_addr (mem t) pgdir x = pte_addr (mem s) pgdir x" using st(4) w(5) by (simp add: t)
  show "pte_of (mem t) pgdir va = e" using st(6) by (simp add: t)
  show "pte_of (mem t) pgdir x = pte_of (mem s) pgdir x" if "PGROUNDDOWN x \<noteq> PGROUNDDOWN va"
    using st(7) [OF that] w(2) by (simp add: t)
  show "mem t a = 0" if "in_page p a"
  proof -
    let ?T = "tab_of ?m2 pgdir va"
    have "?T \<in> tables ?m2 pgdir" using h2 by (auto simp: tables_def)
    then have "?T \<noteq> p" using w(4) nt(2) al4 by auto
    then have "\<not> in_page ?T a" using in_page_disjoint [OF p vm_okD(7) [OF w(1) h2] that] by auto
    then have "mem t a = ?m2 a" using h2 by (simp add: t pte_addr_def store32_in_page entry_offset(2))
    then show ?thesis using that by (simp add: filled_def in_page_def)
  qed
qed

section \<open>cloneuvm\<close>

text \<open>The mappings that are present agree.\<close>

definition same_present :: "addr \<Rightarrow> byte_mem \<Rightarrow> byte_mem \<Rightarrow> bool" where
  "same_present pgdir m m' \<longleftrightarrow> (\<forall>y. present m' pgdir y \<or> present m pgdir y \<longrightarrow> pte_of m' pgdir y = pte_of m pgdir y)"

lemma same_present_pte: "(\<And>y. pte_of m' pgdir y = pte_of m pgdir y) \<Longrightarrow> same_present pgdir m m'"
  by (simp add: same_present_def)

definition stack_at :: "addr \<Rightarrow> addr \<Rightarrow> addr \<Rightarrow> 'x kmem_state_scheme \<Rightarrow> bool" where
  "stack_at pgdir r p t \<longleftrightarrow> pte_of (mem t) pgdir (r - PGSIZE) = V2P p OR PTE_U OR PTE_W OR PTE_P
     \<and> kpage t p \<and> p \<notin> tables (mem t) pgdir"

definition cloned_stack :: "addr \<Rightarrow> uint \<Rightarrow> addr \<Rightarrow> addr list \<Rightarrow> 'x kmem_state_scheme \<Rightarrow> addr \<Rightarrow> addr list \<Rightarrow> 'x kmem_state_scheme \<Rightarrow> bool" where
  "cloned_stack pgdir sz guard ps s r ps' t \<longleftrightarrow>
     page_aligned r \<and> r \<le> KERNBASE \<and> unat sz + 8192 \<le> unat r \<and> \<not> present (mem s) pgdir (r - PGSIZE)
     \<and> (\<exists>p. p \<in> set ps \<and> p \<notin> set ps' \<and> stack_at pgdir r p t \<and> (\<forall>a. in_page p a \<longrightarrow> mem t a = 0))
     \<and> pte_of (mem t) pgdir (r - 2 * PGSIZE) = pte_of (mem s) pgdir guard
     \<and> (\<forall>y. PGROUNDDOWN y \<noteq> r - PGSIZE \<longrightarrow> PGROUNDDOWN y \<noteq> r - 2 * PGSIZE
          \<longrightarrow> pte_of (mem t) pgdir y = pte_of (mem s) pgdir y)"

text \<open>The stack's entry is left behind, naming a page on the free list: the slot was the first
  entry of its table and no page was left for the table below.\<close>

definition dangling_stack :: "addr \<Rightarrow> addr list \<Rightarrow> 'x kmem_state_scheme \<Rightarrow> bool" where
  "dangling_stack pgdir ps' t \<longleftrightarrow> (\<exists>x p. PTX x = 0 \<and> ps' = [p]
     \<and> pte_of (mem t) pgdir x = V2P p OR PTE_U OR PTE_W OR PTE_P)"

text \<open>From the fresh stack page on: the guard entry.\<close>

lemma clone_guard_fails:
  fixes s :: "'x vm_state_scheme"
  assumes v: "vm_ok [] pgdir s" and p: "kpage s p" "p \<notin> tables (mem s) pgdir"
    and x: "page_aligned x" "x \<noteq> 0" "has_tab (mem s) pgdir x" "\<not> has_tab (mem s) pgdir (x - PGSIZE)"
      "pte_of (mem s) pgdir x = V2P p OR PTE_U OR PTE_W OR PTE_P"
  shows "vm_ok [p] pgdir (after_kfree p s) \<and> dangling_stack pgdir [p] (after_kfree p s)"
proof -
  have "PTX x = 0"
  proof (rule ccontr)
    assume "PTX x \<noteq> 0"
    then have "PDX (x - PGSIZE) = PDX x" by (rule below_same_table [OF x(1,2)])
    then show False using x(3,4) by (simp add: has_tab_def pde_of_def)
  qed
  then show ?thesis using vm_ok_free(2,4) [OF v p(1) _ p(2)] x(5) by (auto simp: dangling_stack_def)
qed

lemma clone_slot:
  assumes "page_aligned x" "x \<le> KERNBASE - PGSIZE" "0 < sz" "\<not> x < sz"
  shows "x \<noteq> 0" "page_aligned (x + PGSIZE)" "x + PGSIZE \<le> KERNBASE" "x + PGSIZE - PGSIZE = x"
    "x + PGSIZE - 2 * PGSIZE = x - PGSIZE" "PGROUNDDOWN x = x" "PGROUNDDOWN (x - PGSIZE) = x - PGSIZE"
    "unat (x - PGSIZE) = unat x - 4096" "unat (x + PGSIZE) = unat x + 4096" "4096 \<le> unat x" "x - PGSIZE \<noteq> x"
proof -
  show nz: "x \<noteq> 0" using assms(3,4) by auto
  note b = page_below [OF assms(1) nz]
  have u: "unat x \<le> 209711104" using assms(2) by (simp add: word_le_nat_alt)
  then show up: "unat (x + PGSIZE) = unat x + 4096" by (intro unat_next_page) simp
  then show "x + PGSIZE \<le> KERNBASE" using u by (simp add: word_le_nat_alt)
  show "page_aligned (x + PGSIZE)" using assms(1) by (rule page_aligned_add)
  show "PGROUNDDOWN x = x" "PGROUNDDOWN (x - PGSIZE) = x - PGSIZE"
    using assms(1) b(2) by (simp_all add: page_aligned_PGROUNDDOWN)
  show "unat (x - PGSIZE) = unat x - 4096" "4096 \<le> unat x" using b by simp_all
  show "x - PGSIZE \<noteq> x" by simp
qed simp_all

text \<open>The tail of \<open>cloneuvm\<close> after the stack page \<open>p\<close> is mapped at \<open>x\<close>, as a function of that state.\<close>

definition clone_tail :: "addr \<Rightarrow> uint \<Rightarrow> addr \<Rightarrow> addr \<Rightarrow> addr \<Rightarrow> addr \<Rightarrow> ('x vm_state_scheme, addr) K" where
  "clone_tail pgdir sz guard x stack_pte p =
     (if x - PGSIZE < sz then kthen [wr stack_pte 0, kfree p] (kret 0)
      else kbind (walkpgdir pgdir (x - PGSIZE) True) (\<lambda>pte.
        if pte = 0 then kthen [kfree p] (kret 0)
        else kbind (walkpgdir pgdir guard False) (\<lambda>guard_pte.
          if guard_pte = 0 then kpanic ''guard page not found''
          else kbind (rd guard_pte) (\<lambda>g. kthen [wr pte g] (kret (x + PGSIZE))))))"

lemma clone_tail_run:
  assumes v: "vm_ok ps pgdir s" and p: "kpage s p" "p \<notin> set ps" "p \<notin> tables (mem s) pgdir"
    and z: "\<forall>a. in_page p a \<longrightarrow> mem s a = 0"
    and x: "page_aligned x" "x \<le> KERNBASE - PGSIZE" "0 < sz" "\<not> x < sz"
    and h: "has_tab (mem s) pgdir x" "pte_of (mem s) pgdir x = V2P p OR PTE_U OR PTE_W OR PTE_P"
    and g: "present (mem s) pgdir guard" "PGROUNDDOWN guard \<noteq> x"
  shows "\<exists>r t ps'. clone_tail pgdir sz guard x (pte_addr (mem s) pgdir x) p s = Ok r t
     \<and> vm_ok ps' pgdir t \<and> same_vm s t
     \<and> (r = 0 \<and> x - PGSIZE < sz \<and> pte_of (mem t) pgdir x = 0 \<and> (\<forall>y. PGROUNDDOWN y \<noteq> x \<longrightarrow> pte_of (mem t) pgdir y = pte_of (mem s) pgdir y)
        \<or> r = 0 \<and> ps = [] \<and> dangling_stack pgdir ps' t
        \<or> r = x + PGSIZE \<and> unat sz + 8192 \<le> unat r \<and> stack_at pgdir r p t \<and> p \<notin> set ps'
          \<and> (\<forall>a. in_page p a \<longrightarrow> mem t a = 0)
          \<and> pte_of (mem t) pgdir (x - PGSIZE) = pte_of (mem s) pgdir guard
          \<and> (\<forall>y. PGROUNDDOWN y \<noteq> x - PGSIZE \<longrightarrow> pte_of (mem t) pgdir y = pte_of (mem s) pgdir y))"
proof (cases "x - PGSIZE < sz")
  case True
  let ?s1 = "s\<lparr>mem := store32 (pte_addr (mem s) pgdir x) 0 (mem s)\<rparr>"
  note st = store_pte [OF v h(1), where e = 0]
  have "kpage ?s1 p" "p \<notin> tables (mem ?s1) pgdir" using p st(5) by simp_all
  note fr = vm_ok_free [OF st(8) this(1) p(2) this(2)]
  have "same_vm s (after_kfree p ?s1)" using fr(3) by (rule same_vm_trans [rotated]) simp
  moreover have "clone_tail pgdir sz guard x (pte_addr (mem s) pgdir x) p s = Ok 0 (after_kfree p ?s1)"
    using True fr(1) by (simp add: clone_tail_def kthen_def)
  ultimately show ?thesis
    using fr(2,4) st(6,7) clone_slot(6) [OF x] True
    by (intro exI [of _ 0] exI [of _ "after_kfree p ?s1"] exI [of _ "p # ps"]) simp
next
  case False
  note c = clone_slot [OF x]
  have sz: "unat sz + 8192 \<le> unat (x + PGSIZE)" using False c(8-10) by (simp add: word_less_nat_alt)
  obtain r t qs where w: "walkpgdir pgdir (x - PGSIZE) True s = Ok r t" "vm_ext pgdir ps s qs t"
      "\<forall>y. pte_of (mem t) pgdir y = pte_of (mem s) pgdir y"
      "if r = 0 then \<not> has_tab (mem s) pgdir (x - PGSIZE) \<and> ps = [] \<and> mem t = mem s
       else has_tab (mem t) pgdir (x - PGSIZE) \<and> r = pte_addr (mem t) pgdir (x - PGSIZE)"
    using walk_alloc [OF v, of "x - PGSIZE"] by blast
  note e = vm_extD [OF w(2)]
  have pt: "p \<notin> tables (mem t) pgdir" "p \<notin> set qs" using w(2) p unfolding vm_ext_def by auto
  have kt: "kpage t p" using p(1) e(2) by (simp add: kpage_def same_vm_def)
  show ?thesis
  proof (cases "r = 0")
    case True
    then have t: "\<not> has_tab (mem t) pgdir (x - PGSIZE)" "qs = []" "has_tab (mem t) pgdir x"
      using w(4) e(3) h(1) by simp_all
    have "ps = []" using w(4) True by simp
    moreover have "vm_ok [] pgdir t" using e(1) t(2) by simp
    then have f: "vm_ok [p] pgdir (after_kfree p t) \<and> dangling_stack pgdir [p] (after_kfree p t)"
      using w(3) h(2) by (intro clone_guard_fails [OF _ kt pt(1) x(1) c(1) t(3,1)]) simp_all
    have "clone_tail pgdir sz guard x (pte_addr (mem s) pgdir x) p s = Ok 0 (after_kfree p t)"
      using False True w(1) vm_ok_free(1) [OF e(1) kt pt(2,1)] by (simp add: clone_tail_def kthen_def)
    ultimately show ?thesis
      using f same_vm_trans [OF e(2) vm_ok_free(3) [OF e(1) kt pt(2,1)]]
      by (intro exI [of _ 0] exI [of _ "after_kfree p t"] exI [of _ "[p]"]) simp
  next
    case r: False
    then have t: "has_tab (mem t) pgdir (x - PGSIZE)" "r = pte_addr (mem t) pgdir (x - PGSIZE)" using w(4) by simp_all
    have gt: "has_tab (mem t) pgdir guard" using g(1) w(3) by (intro present_has_tab) (simp add: present_def)
    let ?u = "t\<lparr>mem := store32 r (pte_of (mem s) pgdir guard) (mem t)\<rparr>"
    note st = store_pte [OF e(1) t(1), where e = "pte_of (mem s) pgdir guard", folded t(2)]
    have run: "clone_tail pgdir sz guard x (pte_addr (mem s) pgdir x) p s = Ok (x + PGSIZE) ?u"
      using False r w(1,3) load_pte [OF gt] pte_addr_nonzero [OF e(1) gt]
      by (simp add: clone_tail_def kthen_def)
    have px: "pte_of (mem ?u) pgdir x = V2P p OR PTE_U OR PTE_W OR PTE_P"
      using st(7) [of x] c(6,7,11) w(3) h(2) by simp
    have "\<not> in_page p b" if "\<exists>q\<in>tables (mem t) pgdir \<union> (set ps - set qs). in_page q b" for b
    proof -
      have "\<forall>q\<in>tables (mem t) pgdir \<union> (set ps - set qs). page_aligned q \<and> q \<noteq> p"
        using tables_aligned [OF e(1)] vm_okD(3) [OF v] pt p(2) by (auto simp: kmem_ok_def kpage_def)
      then show ?thesis using that in_page_disjoint p(1) unfolding kpage_def by blast
    qed
    then have "mem t b = mem s b" if "in_page p b" for b using that w(2) unfolding vm_ext_def by blast
    moreover have "mem ?u b = mem t b" if "in_page p b" for b
    proof -
      let ?T = "tab_of (mem t) pgdir (x - PGSIZE)"
      have "?T \<in> tables (mem t) pgdir" using t(1) by (auto simp: tables_def)
      then have "?T \<noteq> p" using pt(1) by blast
      then have "\<not> in_page ?T b"
        using in_page_disjoint [OF _ vm_okD(7) [OF e(1) t(1)] that] p(1) by (auto simp: kpage_def)
      then show ?thesis using t by (simp add: pte_addr_def store32_in_page entry_offset(2))
    qed
    ultimately have zero: "\<forall>a. in_page p a \<longrightarrow> mem ?u a = 0" using z by simp
    have "stack_at pgdir (x + PGSIZE) p ?u" using px kt pt(1) st(5) by (simp add: stack_at_def)
    then show ?thesis
      using run st(6,7,8) w(3) c(7) zero e(2) sz pt(2)
      by (intro exI [of _ "x + PGSIZE"] exI [of _ ?u] exI [of _ qs] conjI disjI2) auto
  qed
qed

text \<open>No slot is empty above the heap.\<close>

definition no_room :: "byte_mem \<Rightarrow> addr \<Rightarrow> uint \<Rightarrow> bool" where
  "no_room m pgdir sz \<longleftrightarrow> (\<forall>y. page_aligned y \<longrightarrow> unat sz + 4096 \<le> unat y \<longrightarrow> y \<le> KERNBASE - PGSIZE \<longrightarrow> present m pgdir y)"

lemma no_roomI:
  assumes "\<forall>y. page_aligned y \<longrightarrow> x < y \<longrightarrow> y \<le> KERNBASE - PGSIZE \<longrightarrow> present m pgdir y"
    and "unat x < unat sz + 4096"
  shows "no_room m pgdir sz"
  using assms by (auto simp: no_room_def word_less_nat_alt)

lemma cloneuvm_unfold:
  assumes "find_slot 51201 pgdir (KERNBASE - PGSIZE) sz s = Ok x s"
  shows "cloneuvm pgdir sz guard s =
    (if x < sz then Ok 0 s
     else kbind (walkpgdir pgdir x True) (\<lambda>stack_pte.
       if stack_pte = 0 then kret 0
       else kbind kalloc (\<lambda>p.
         if p = 0 then kret 0
         else kthen [mem_mod (memset p 0 4096), wr stack_pte (V2P p OR PTE_U OR PTE_W OR PTE_P)]
           (clone_tail pgdir sz guard x stack_pte p))) s)"
  unfolding cloneuvm_def clone_tail_def Let_def using assms by simp

lemma cloneuvm_run:
  assumes v: "vm_ok ps pgdir s" and sz: "0 < sz" and g: "present (mem s) pgdir guard"
  shows "\<exists>r t ps'. cloneuvm pgdir sz guard s = Ok r t \<and> vm_ok ps' pgdir t \<and> same_vm s t
     \<and> (r = 0 \<and> (no_room (mem s) pgdir sz \<or> length ps < 3)
          \<and> (same_present pgdir (mem s) (mem t) \<or> dangling_stack pgdir ps' t)
        \<or> r \<noteq> 0 \<and> cloned_stack pgdir sz guard ps s r ps' t)"
proof -
  have "page_aligned (KERNBASE - PGSIZE)" "unat (KERNBASE - PGSIZE) < 4096 * 51201"
    by (simp_all add: page_aligned_def)
  then obtain x where x: "find_slot 51201 pgdir (KERNBASE - PGSIZE) sz s = Ok x s" "page_aligned x"
      "x \<le> KERNBASE - PGSIZE" "x < sz \<or> \<not> present (mem s) pgdir x"
      "\<forall>y. page_aligned y \<longrightarrow> x < y \<longrightarrow> y \<le> KERNBASE - PGSIZE \<longrightarrow> present (mem s) pgdir y"
    using find_slot_run [OF v _ sz] by blast
  note u = cloneuvm_unfold [OF x(1), of guard]
  show ?thesis
  proof (cases "x < sz")
    case True
    then have "no_room (mem s) pgdir sz" by (intro no_roomI [OF x(5)]) (simp add: word_less_nat_alt)
    then show ?thesis using u True v by (auto simp: same_present_def)
  next
    case False
    note c = clone_slot [OF x(2,3) sz False]
    have np: "\<not> present (mem s) pgdir x" using x(4) False by blast
    obtain r t qs where w: "walkpgdir pgdir x True s = Ok r t" "vm_ext pgdir ps s qs t"
        "length ps \<le> Suc (length qs)" "\<forall>y. pte_of (mem t) pgdir y = pte_of (mem s) pgdir y"
        "if r = 0 then \<not> has_tab (mem s) pgdir x \<and> ps = [] \<and> mem t = mem s
         else has_tab (mem t) pgdir x \<and> r = pte_addr (mem t) pgdir x"
      using walk_alloc [OF v, of x] by blast
    note e = vm_extD [OF w(2)]
    have keep: "same_present pgdir (mem s) (mem t)" using w(4) by (simp add: same_present_def)
    show ?thesis
    proof (cases "r = 0 \<or> qs = []")
      case True
      consider "r = 0" | "r \<noteq> 0" "qs = []" using True by blast
      then show ?thesis
      proof cases
        case 1
        then show ?thesis using u False w keep e by (auto simp: vm_ext_def)
      next
        case 2
        note a = vm_ok_alloc [OF e(1)]
        have "cloneuvm pgdir sz guard s = Ok 0 (after_kalloc t)" using u False w(1) 2 a(1) by simp
        then show ?thesis
          using a(2-4) 2(2) keep w(3) same_vm_trans [OF e(2) a(3)] by auto
      qed
    next
      case ok: False
      then obtain p qs' where q: "qs = p # qs'" by (cases qs) auto
      have h: "has_tab (mem t) pgdir x" "r = pte_addr (mem t) pgdir x" using w(5) ok by auto
      let ?e = "V2P p OR PTE_U OR PTE_W OR PTE_P"
      define t' where "t' = (after_kalloc t)\<lparr>mem := store32 (pte_addr (mem t) pgdir x) ?e (memset p 0 4096 (mem t))\<rparr>"
      note tp = take_page [OF e(1) [unfolded q] h(1), where e = ?e, folded t'_def]
      have al: "kalloc t = Ok p (after_kalloc t)" "p \<noteq> 0" "mem (after_kalloc t) = mem t" "p \<notin> set qs'"
        using vm_ok_alloc(1,4,5) [OF e(1)] q by (auto simp: kpage_def)
      have run: "cloneuvm pgdir sz guard s = clone_tail pgdir sz guard x (pte_addr (mem t') pgdir x) p t'"
        using u False ok w(1) al h(2) tp(6) [of x] by (simp add: kthen_def t'_def)
      have gx: "PGROUNDDOWN guard \<noteq> x"
        using g np pte_of_round [of "mem s" pgdir guard] by (auto simp: present_def)
      have g': "present (mem t') pgdir guard"
        using tp(8) [of guard] gx c(6) w(4) g by (simp add: present_def)
      obtain r' u qs'' where ct: "clone_tail pgdir sz guard x (pte_addr (mem t') pgdir x) p t' = Ok r' u"
          "vm_ok qs'' pgdir u" "same_vm t' u"
          "r' = 0 \<and> x - PGSIZE < sz \<and> pte_of (mem u) pgdir x = 0 \<and> (\<forall>y. PGROUNDDOWN y \<noteq> x \<longrightarrow> pte_of (mem u) pgdir y = pte_of (mem t') pgdir y)
           \<or> r' = 0 \<and> qs' = [] \<and> dangling_stack pgdir qs'' u
           \<or> r' = x + PGSIZE \<and> unat sz + 8192 \<le> unat r' \<and> stack_at pgdir r' p u \<and> p \<notin> set qs''
             \<and> (\<forall>a. in_page p a \<longrightarrow> mem u a = 0) \<and> pte_of (mem u) pgdir (x - PGSIZE) = pte_of (mem t') pgdir guard
             \<and> (\<forall>y. PGROUNDDOWN y \<noteq> x - PGSIZE \<longrightarrow> pte_of (mem u) pgdir y = pte_of (mem t') pgdir y)"
        using clone_tail_run [OF tp(1,3) al(4) tp(4) _ x(2,3) sz False _ tp(7) g' gx] tp(5,9) h(1) by blast
      have same: "same_vm s u" using same_vm_trans [OF e(2) same_vm_trans [OF tp(2) ct(3)]] .
      have oth: "pte_of (mem t') pgdir y = pte_of (mem s) pgdir y" if "PGROUNDDOWN y \<noteq> x" for y
        using tp(8) [of y] that c(6) w(4) by simp
      have pin: "p \<in> set ps" using e(3) q by auto
      consider (slot) "r' = 0" "x - PGSIZE < sz" "pte_of (mem u) pgdir x = 0"
            "\<forall>y. PGROUNDDOWN y \<noteq> x \<longrightarrow> pte_of (mem u) pgdir y = pte_of (mem t') pgdir y"
        | (page) "r' = 0" "qs' = []" "dangling_stack pgdir qs'' u"
        | (mapped) "r' = x + PGSIZE" "unat sz + 8192 \<le> unat r'" "stack_at pgdir r' p u" "p \<notin> set qs''"
            "\<forall>a. in_page p a \<longrightarrow> mem u a = 0" "pte_of (mem u) pgdir (x - PGSIZE) = pte_of (mem t') pgdir guard"
            "\<forall>y. PGROUNDDOWN y \<noteq> x - PGSIZE \<longrightarrow> pte_of (mem u) pgdir y = pte_of (mem t') pgdir y"
        using ct(4) by blast
      then show ?thesis
      proof cases
        case slot
        have "unat x < unat sz + 4096" using slot(2) c(8,10) by (simp add: word_less_nat_alt)
        then have "no_room (mem s) pgdir sz" by (rule no_roomI [OF x(5)])
        moreover have "same_present pgdir (mem s) (mem u)"
        proof (unfold same_present_def, intro allI impI)
          fix y assume y: "present (mem u) pgdir y \<or> present (mem s) pgdir y"
          have "PGROUNDDOWN y \<noteq> x"
          proof
            assume "PGROUNDDOWN y = x"
            then have "\<not> present (mem u) pgdir y" "\<not> present (mem s) pgdir y"
              using slot(3) np pte_of_round [of _ pgdir y] by (simp_all add: present_def)
            then show False using y by blast
          qed
          then show "pte_of (mem u) pgdir y = pte_of (mem s) pgdir y" using slot(4) oth by simp
        qed
        ultimately show ?thesis using run ct(1,2) same slot(1) by auto
      next
        case page
        then have "length ps < 3" using w(3) q by simp
        then show ?thesis using run ct(1,2) same page by auto
      next
        case mapped
        have "cloned_stack pgdir sz guard ps s r' qs'' u"
          unfolding cloned_stack_def mapped(1) c(4,5)
          using mapped c(2,3,9) np pin oth [of guard] oth gx by auto
        moreover have "r' \<noteq> 0" using mapped(1) c(9) by auto
        ultimately show ?thesis using run ct(1,2) same by auto
      qed
    qed
  qed
qed

section \<open>freecloneuvm\<close>

lemma stack_entry:
  assumes "page_aligned p" "KERNBASE \<le> p"
  shows "PTE_ADDR (V2P p OR PTE_U OR PTE_W OR PTE_P) = V2P p"
    "(V2P p OR PTE_U OR PTE_W OR PTE_P) AND PTE_P \<noteq> 0"
proof -
  have f: "V2P p OR PTE_U OR PTE_W OR PTE_P = V2P p OR 7" by (simp add: or.assoc)
  show "PTE_ADDR (V2P p OR PTE_U OR PTE_W OR PTE_P) = V2P p"
    unfolding f using page_aligned_V2P [OF assms] by (simp add: PTE_ADDR_or_flags)
  show "(V2P p OR PTE_U OR PTE_W OR PTE_P) AND PTE_P \<noteq> 0"
    by (simp add: bit.conj_disj_distrib2)
qed

lemma two_pages_below:
  assumes "page_aligned r" "8192 \<le> unat r"
  shows "page_aligned (r - PGSIZE)" "page_aligned (r - 2 * PGSIZE)" "r - PGSIZE \<noteq> r - 2 * PGSIZE"
    "PGROUNDDOWN (r - PGSIZE) = r - PGSIZE" "PGROUNDDOWN (r - 2 * PGSIZE) = r - 2 * PGSIZE"
proof -
  have "r \<noteq> 0" using assms(2) by auto
  note b = page_below [OF assms(1) this]
  have "r - PGSIZE \<noteq> 0" using b assms(2) by (auto simp: word_unat_eq_iff)
  note b2 = page_below [OF b(2) this]
  have e: "r - PGSIZE - PGSIZE = r - 2 * PGSIZE" by simp
  show "page_aligned (r - PGSIZE)" "page_aligned (r - 2 * PGSIZE)" using b(2) b2(2) unfolding e by auto
  then show "PGROUNDDOWN (r - PGSIZE) = r - PGSIZE" "PGROUNDDOWN (r - 2 * PGSIZE) = r - 2 * PGSIZE"
    by (simp_all only: page_aligned_PGROUNDDOWN)
  show "r - PGSIZE \<noteq> r - 2 * PGSIZE" by simp
qed

lemma freecloneuvm_run:
  assumes v: "vm_ok ps pgdir t" and r: "page_aligned r" "8192 \<le> unat r"
    and p: "stack_at pgdir r p t" "p \<notin> set ps" and g: "has_tab (mem t) pgdir (r - 2 * PGSIZE)"
  shows "\<exists>u. freecloneuvm pgdir r t = Ok () u \<and> vm_ok (p # ps) pgdir u \<and> same_vm t u
     \<and> pte_of (mem u) pgdir (r - PGSIZE) = 0 \<and> pte_of (mem u) pgdir (r - 2 * PGSIZE) = 0
     \<and> (\<forall>y. PGROUNDDOWN y \<noteq> r - PGSIZE \<longrightarrow> PGROUNDDOWN y \<noteq> r - 2 * PGSIZE
          \<longrightarrow> pte_of (mem u) pgdir y = pte_of (mem t) pgdir y)"
proof -
  note b = two_pages_below [OF r]
  have kp: "kpage t p" "p \<notin> tables (mem t) pgdir" and e: "pte_of (mem t) pgdir (r - PGSIZE) = V2P p OR PTE_U OR PTE_W OR PTE_P"
    using p(1) by (simp_all add: stack_at_def)
  have pa: "page_aligned p" "KERNBASE \<le> p" using kp(1) kpage_KERNBASE by (auto simp: kpage_def)
  note se = stack_entry [OF pa]
  have h: "has_tab (mem t) pgdir (r - PGSIZE)" using e se(2) by (intro present_has_tab) (simp add: present_def)
  let ?a = "pte_addr (mem t) pgdir (r - PGSIZE)" and ?g = "pte_addr (mem t) pgdir (r - 2 * PGSIZE)"
  note f = vm_ok_free [OF v kp(1) p(2) kp(2)]
  let ?t1 = "after_kfree p t"
  let ?t2 = "?t1\<lparr>mem := store32 ?a 0 (mem ?t1)\<rparr>"
  have h1: "has_tab (mem ?t1) pgdir (r - PGSIZE)" using f(5) h by simp
  note s2 = store_pte [OF f(2) h1, where e = 0, unfolded f(6)]
  let ?u = "?t2\<lparr>mem := store32 ?g 0 (mem ?t2)\<rparr>"
  have g2: "has_tab (mem ?t2) pgdir (r - 2 * PGSIZE)" using s2(2) f(5) g by simp
  have ga: "pte_addr (mem ?t2) pgdir (r - 2 * PGSIZE) = ?g" using s2(4) f(6) by simp
  note s3 = store_pte [OF s2(8) g2, where e = 0, unfolded ga]
  have "?a \<noteq> 0" "?g \<noteq> 0" using pte_addr_nonzero [OF v h] pte_addr_nonzero [OF v g] by auto
  then have run: "freecloneuvm pgdir r t = Ok () ?u"
    using e se(1) load_pte [OF h] f(1) ga by (simp add: freecloneuvm_def kthen_def)
  have 1: "pte_of (mem ?u) pgdir y = pte_of (mem ?t2) pgdir y" if "PGROUNDDOWN y \<noteq> r - 2 * PGSIZE" for y
    using s3(7) [of y] that b(5) by simp
  have 2: "pte_of (mem ?t2) pgdir y = pte_of (mem t) pgdir y" if "PGROUNDDOWN y \<noteq> r - PGSIZE" for y
    using s2(7) [of y] that b(4) f(4) by simp
  have "pte_of (mem ?u) pgdir (r - PGSIZE) = 0" using 1 [of "r - PGSIZE"] b(3,4) s2(6) by simp
  moreover have "pte_of (mem ?u) pgdir (r - 2 * PGSIZE) = 0" using s3(6) by simp
  moreover have "vm_ok (p # ps) pgdir ?u" using s3(8) by simp
  ultimately show ?thesis
    using run 1 2 f(3) by (intro exI [of _ ?u]) simp
qed

lemma freeclone_undoes_clone:
  assumes c: "cloned_stack pgdir sz guard ps s r ps' t" and g: "present (mem s) pgdir guard"
    and slot: "\<not> present (mem s) pgdir (r - 2 * PGSIZE)" and v: "vm_ok ps' pgdir t"
  shows "\<exists>p u. p \<in> set ps \<and> freecloneuvm pgdir r t = Ok () u \<and> vm_ok (p # ps') pgdir u \<and> same_vm t u
     \<and> same_present pgdir (mem s) (mem u)"
proof -
  obtain p where p: "p \<in> set ps" "p \<notin> set ps'" "stack_at pgdir r p t" using c by (auto simp: cloned_stack_def)
  have r: "page_aligned r" "8192 \<le> unat r" "\<not> present (mem s) pgdir (r - PGSIZE)"
    "pte_of (mem t) pgdir (r - 2 * PGSIZE) = pte_of (mem s) pgdir guard"
    using c by (auto simp: cloned_stack_def)
  note b = two_pages_below [OF r(1,2)]
  have "has_tab (mem t) pgdir (r - 2 * PGSIZE)"
    using r(4) g by (intro present_has_tab) (simp add: present_def)
  then obtain u where u: "freecloneuvm pgdir r t = Ok () u" "vm_ok (p # ps') pgdir u" "same_vm t u"
      "pte_of (mem u) pgdir (r - PGSIZE) = 0" "pte_of (mem u) pgdir (r - 2 * PGSIZE) = 0"
      "\<forall>y. PGROUNDDOWN y \<noteq> r - PGSIZE \<longrightarrow> PGROUNDDOWN y \<noteq> r - 2 * PGSIZE
          \<longrightarrow> pte_of (mem u) pgdir y = pte_of (mem t) pgdir y"
    using freecloneuvm_run [OF v r(1,2) p(3,2)] by blast
  have "pte_of (mem u) pgdir y = pte_of (mem s) pgdir y"
    if y: "present (mem u) pgdir y \<or> present (mem s) pgdir y" for y
  proof -
    have "PGROUNDDOWN y \<noteq> r - PGSIZE" "PGROUNDDOWN y \<noteq> r - 2 * PGSIZE"
      using y u(4,5) r(3) slot pte_of_round [of "mem u" pgdir y] pte_of_round [of "mem s" pgdir y]
      by (auto simp: present_def)
    then show ?thesis using u(6) c by (simp add: cloned_stack_def)
  qed
  then have "same_present pgdir (mem s) (mem u)" by (simp add: same_present_def)
  then show ?thesis using p u by blast
qed

section \<open>A small machine\<close>

text \<open>A machine with an empty page directory and some free pages.\<close>

definition vm_demo :: vm_state where
  "vm_demo = mach.extend (mach.truncate smp_boot\<lparr>mem := \<lambda>_. 0\<rparr>)
     \<lparr>kmem_freelist = 0, kmem_use_lock = True, kend = 0xC900000,
      kdata = 0xC900000, kpgdir = 0, cr3 = 0, esp0 = 0\<rparr>"

lemma vm_demo_ok: "vm_ok [] 0xC900000 vm_demo" "kend vm_demo = 0xC900000" "\<not> present (mem vm_demo) 0xC900000 y"
    "tables (mem vm_demo) 0xC900000 = {0xC900000}"
proof -
  have z: "load32 (mem vm_demo) a = 0" for a by (simp add: vm_demo_def mach.defs load32_def)
  then have nt: "\<not> has_tab (mem vm_demo) 0xC900000 va" for va by (simp add: has_tab_def pde_of_def)
  then show "\<not> present (mem vm_demo) 0xC900000 y" by (simp add: present_def pte_of_def)
  show e: "kend vm_demo = 0xC900000" by (simp add: vm_demo_def mach.defs)
  show "tables (mem vm_demo) 0xC900000 = {0xC900000}" using nt by (simp add: tables_def)
  have "lk_ok vm_demo" "KmemLock \<notin> held vm_demo" "kmem_ok vm_demo []"
    by (simp_all add: vm_demo_def lk_ok_def held_def mycpu_index_def smp_boot_def kmem_ok_def mach.defs)
  then show "vm_ok [] 0xC900000 vm_demo"
    using nt e by (simp add: vm_ok_def pt_ok_def kpage_def page_aligned_def V2P_def)
qed

lemma vm_demo_free:
  fixes s :: vm_state
  assumes "vm_ok ps 0xC900000 s" "tables (mem s) 0xC900000 = {0xC900000}" "kend s = 0xC900000"
    "\<forall>y. \<not> present (mem s) 0xC900000 y"
    and "page_aligned p" "0xC900000 < p" "V2P p < PHYSTOP" "p \<notin> set ps"
  shows "\<exists>t :: vm_state. vm_ok (p # ps) 0xC900000 t \<and> tables (mem t) 0xC900000 = {0xC900000} \<and> kend t = 0xC900000
    \<and> (\<forall>y. \<not> present (mem t) 0xC900000 y)"
proof -
  have k: "kpage s p" using assms by (auto simp: kpage_def)
  have n: "p \<notin> tables (mem s) 0xC900000" using assms by auto
  note f = vm_ok_free [OF assms(1) k assms(8) n]
  show ?thesis using f(2,4,7,3) assms(2,3,4) by (intro exI [of _ "after_kfree p s"]) (simp add: present_def same_vm_def)
qed

lemma vm_demo_pages:
  "\<exists>s :: vm_state. vm_ok [0xC905000, 0xC904000, 0xC903000, 0xC902000, 0xC901000] 0xC900000 s
    \<and> (\<forall>y. \<not> has_tab (mem s) 0xC900000 y)"
proof -
  have side: "page_aligned 0xC901000" "page_aligned 0xC902000" "page_aligned 0xC903000" "page_aligned 0xC904000"
    "page_aligned 0xC905000" "V2P 0xC901000 < PHYSTOP" "V2P 0xC902000 < PHYSTOP" "V2P 0xC903000 < PHYSTOP"
    "V2P 0xC904000 < PHYSTOP" "V2P 0xC905000 < PHYSTOP"
    by (simp_all add: page_aligned_def V2P_def)
  obtain s1 :: vm_state where 1: "vm_ok [0xC901000] 0xC900000 s1" "tables (mem s1) 0xC900000 = {0xC900000}"
      "kend s1 = 0xC900000" "\<forall>y. \<not> present (mem s1) 0xC900000 y"
    using vm_demo_free [OF vm_demo_ok(1,4,2), of "0xC901000"] vm_demo_ok(3) side by auto
  obtain s2 :: vm_state where 2: "vm_ok [0xC902000, 0xC901000] 0xC900000 s2" "tables (mem s2) 0xC900000 = {0xC900000}"
      "kend s2 = 0xC900000" "\<forall>y. \<not> present (mem s2) 0xC900000 y"
    using vm_demo_free [OF 1, of "0xC902000"] side by auto
  obtain s3 :: vm_state where 3: "vm_ok [0xC903000, 0xC902000, 0xC901000] 0xC900000 s3"
      "tables (mem s3) 0xC900000 = {0xC900000}" "kend s3 = 0xC900000" "\<forall>y. \<not> present (mem s3) 0xC900000 y"
    using vm_demo_free [OF 2, of "0xC903000"] side by auto
  obtain s4 :: vm_state where 4: "vm_ok [0xC904000, 0xC903000, 0xC902000, 0xC901000] 0xC900000 s4"
      "tables (mem s4) 0xC900000 = {0xC900000}" "kend s4 = 0xC900000" "\<forall>y. \<not> present (mem s4) 0xC900000 y"
    using vm_demo_free [OF 3, of "0xC904000"] side by auto
  obtain s5 :: vm_state where 5: "vm_ok [0xC905000, 0xC904000, 0xC903000, 0xC902000, 0xC901000] 0xC900000 s5"
      "tables (mem s5) 0xC900000 = {0xC900000}"
    using vm_demo_free [OF 4, of "0xC905000"] side by auto
  then have "\<not> has_tab (mem s5) 0xC900000 y" for y
    using vm_okD(8) [OF 5(1), of y] by (auto simp: tables_def)
  then show ?thesis using 5 by blast
qed

text \<open>The same machine with a guard page mapped at 0x1000.\<close>

lemma vm_demo_guard:
  "\<exists>s :: vm_state. vm_ok [0xC904000, 0xC903000, 0xC902000, 0xC901000] 0xC900000 s
    \<and> present (mem s) 0xC900000 0x1000 \<and> (\<forall>y. PGROUNDDOWN y \<noteq> 0x1000 \<longrightarrow> \<not> present (mem s) 0xC900000 y)"
proof -
  let ?pg = "0xC900000 :: addr"
  obtain s :: vm_state where s: "vm_ok [0xC905000, 0xC904000, 0xC903000, 0xC902000, 0xC901000] ?pg s"
      "\<forall>y. \<not> has_tab (mem s) ?pg y"
    using vm_demo_pages by blast
  then obtain t :: vm_state where w: "vm_ok [0xC904000, 0xC903000, 0xC902000, 0xC901000] ?pg t"
      "\<forall>y. pte_of (mem t) ?pg y = pte_of (mem s) ?pg y" "has_tab (mem t) ?pg 0x1000"
    using walk_alloc_new [OF s(1), of "0x1000"] unfolding vm_ext_def by blast
  note st = store_pte [OF w(1,3), where e = 3]
  have "PGROUNDDOWN 0x1000 = (0x1000 :: addr)" by (simp add: PGROUNDDOWN_def)
  moreover have "pte_of (mem s) ?pg y = 0" for y using s(2) by (simp add: pte_of_def)
  ultimately show ?thesis
    using st(6,7,8) w(2)
    by (intro exI [of _ "t\<lparr>mem := store32 (pte_addr (mem t) ?pg 0x1000) 3 (mem t)\<rparr>"]) (simp add: present_def)
qed

section \<open>Properties\<close>


lemma demo_room:
  assumes "\<forall>y. PGROUNDDOWN y \<noteq> 0x1000 \<longrightarrow> \<not> present m pgdir y"
  shows "\<not> no_room m pgdir 0x3000"
proof -
  have "PGROUNDDOWN (KERNBASE - PGSIZE) \<noteq> 0x1000" by (simp add: PGROUNDDOWN_def)
  then have "\<not> present m pgdir (KERNBASE - PGSIZE)" using assms by blast
  moreover have "page_aligned (KERNBASE - PGSIZE)" by (simp add: page_aligned_def)
  ultimately show ?thesis by (force simp: no_room_def)
qed




lemma page_aligned_add_pages: "page_aligned a \<Longrightarrow> page_aligned (a + 4096 * of_nat k)"
proof (induction k)
  case (Suc k)
  then show ?case using page_aligned_add [of "a + 4096 * of_nat k"] by (simp add: algebra_simps)
qed simp

lemma mappages_as_loop:
  assumes a: "page_aligned va" and n: "unat va + 4096 * Suc k \<le> 4294967296"
  shows "mappages pgdir va (4096 * of_nat (Suc k)) pa perm s
    = mappages_loop (Suc k) pgdir va (va + 4096 * of_nat k) pa perm s"
proof -
  let ?l = "va + 4096 * of_nat k :: addr"
  have e: "va + 4096 * of_nat (Suc k) - 1 = ?l + 4095" by simp
  have l: "PGROUNDDOWN (va + 4096 * of_nat (Suc k) - 1) = ?l"
    unfolding e by (rule PGROUNDDOWN_last [OF page_aligned_add_pages [OF a]]) simp
  have d: "?l - va = 4096 * of_nat k" by simp
  have "4096 * k < 4294967296" using n by simp
  then have "unat (4096 * of_nat k :: addr) = 4096 * k" by (simp add: unat_word_ariths unat_of_nat)
  then show ?thesis unfolding mappages_def Let_def l page_aligned_PGROUNDDOWN [OF a] d by simp
qed

text \<open>C34: \<open>mappages\<close> on \<open>n\<close> unmapped pages always returns. On success page \<open>j\<close> of the range is mapped to
  page \<open>j\<close> of the frames with the given permissions; on failure the free list is used up; in
  both cases no address outside the range is remapped and memory changes only in page
  tables and in pages taken for them.\<close>

theorem mappages_correct:
  assumes "vm_ok ps pgdir s" "page_aligned va" "unat va + 4096 * Suc k \<le> 4294967296"
    and "\<forall>x\<in>set (pages_from (Suc k) va). \<not> present (mem s) pgdir x"
  shows "\<exists>r t ps'. mappages pgdir va (4096 * of_nat (Suc k)) pa perm s = Ok r t \<and> vm_ext pgdir ps s ps' t
     \<and> (\<forall>x. PGROUNDDOWN x \<notin> set (pages_from (Suc k) va) \<longrightarrow> pte_of (mem t) pgdir x = pte_of (mem s) pgdir x)
     \<and> (r = 0 \<and> (\<forall>j\<le>k. pte_of (mem t) pgdir (va + 4096 * of_nat j) = (pa + 4096 * of_nat j) OR perm OR PTE_P)
        \<or> r = - 1 \<and> ps' = [])"
  unfolding mappages_as_loop [OF assms(2,3)]
  by (rule mappages_loop_run) (use assms in \<open>auto simp: present_def simp del: pages_from.simps\<close>)

theorem mappages_correct_witness:
  "\<exists>(s :: vm_state) r t ps'. mappages 0xC900000 0x400000 0x2000 0xA000 PTE_U s = Ok r t
     \<and> vm_ext 0xC900000 [0xC904000, 0xC903000, 0xC902000, 0xC901000] s ps' t
     \<and> (r = 0 \<and> pte_of (mem t) 0xC900000 0x401000 = 0xB005 \<or> r = - 1 \<and> ps' = [])"
proof -
  obtain s :: vm_state where s: "vm_ok [0xC904000, 0xC903000, 0xC902000, 0xC901000] 0xC900000 s"
      "\<forall>y. PGROUNDDOWN y \<noteq> 0x1000 \<longrightarrow> \<not> present (mem s) 0xC900000 y"
    using vm_demo_guard by blast
  have n: "\<not> present (mem s) 0xC900000 0x400000" "\<not> present (mem s) 0xC900000 0x401000"
    using s(2) by (simp_all add: PGROUNDDOWN_def)
  have side: "page_aligned 0x400000" "unat (0x400000 :: addr) + 4096 * Suc 1 \<le> 4294967296"
    "\<forall>x\<in>set (pages_from (Suc 1) 0x400000). \<not> present (mem s) 0xC900000 x"
    using n by (simp_all add: page_aligned_def)
  obtain r t ps' where w: "mappages 0xC900000 0x400000 (4096 * of_nat (Suc 1)) 0xA000 PTE_U s = Ok r t"
      "vm_ext 0xC900000 [0xC904000, 0xC903000, 0xC902000, 0xC901000] s ps' t"
      "r = 0 \<and> (\<forall>j\<le>1. pte_of (mem t) 0xC900000 (0x400000 + 4096 * of_nat j) = (0xA000 + 4096 * of_nat j) OR PTE_U OR PTE_P)
        \<or> r = - 1 \<and> ps' = []"
    using mappages_correct [OF s(1) side, of "0xA000" PTE_U] by blast
  have "r = 0 \<and> pte_of (mem t) 0xC900000 0x401000 = 0xB005 \<or> r = - 1 \<and> ps' = []"
    using w(3) by (auto dest: spec [of _ 1])
  moreover have "mappages 0xC900000 0x400000 0x2000 0xA000 PTE_U s = Ok r t" using w(1) by simp
  ultimately show ?thesis using w(2) by blast
qed

end
