(* ===== verification/Xv6_Proc.thy ===== *)
theory Xv6_Proc
  imports Xv6_Uvm
begin

text \<open>
  proc.h and the part of proc.c that touches only the process table, the page tables and
  the allocator: allocation, scheduling, sleep and wakeup, kill, tkill, tgkill, wait, join,
  tsuspend and tresume. A pointer to a process is an index into \<open>ptable.proc\<close>, null is
  \<open>None\<close>. A function that sleeps in a loop is modelled by what it does up to the loop and
  by one round of the loop; the outcome \<open>Blocked\<close> is the switch to the scheduler, and the
  next round starts with \<open>sleep_return\<close> when the process runs again.
\<close>

section \<open>proc.h\<close>

datatype procstate = UNUSED | EMBRYO | SLEEPING | RUNNABLE | RUNNING | ZOMBIE

text \<open>What a process can sleep on: the address passed to \<open>sleep\<close>, by the object it names.\<close>

datatype chan =
    Ch_proc nat | Ch_ticks | Ch_log | Ch_sleeplock slid | Ch_buf nat
  | Ch_nread addr | Ch_nwrite addr | Ch_input

record trapframe =
  tf_edi :: uint
  tf_esi :: uint
  tf_ebp :: uint
  tf_oesp :: uint
  tf_ebx :: uint
  tf_edx :: uint
  tf_ecx :: uint
  tf_eax :: uint
  tf_gs :: ushort
  tf_fs :: ushort
  tf_es :: ushort
  tf_ds :: ushort
  tf_trapno :: uint
  tf_err :: uint
  tf_eip :: uint
  tf_cs :: ushort
  tf_eflags :: uint
  tf_esp :: uint
  tf_ss :: ushort

record ctxt =
  ctx_edi :: uint
  ctx_esi :: uint
  ctx_ebx :: uint
  ctx_ebp :: uint
  ctx_eip :: uint

text \<open>The thread lock \<open>tlock\<close> of slot \<open>i\<close> is the spinlock \<open>ThreadLock i\<close>; the trap frame and the
  context are the records at \<open>tf\<close> and \<open>context\<close>.\<close>

record proc =
  p_sz :: uint
  p_pgdir :: addr
  p_kstack :: addr
  p_state :: procstate
  p_pid :: int
  p_tid :: int
  p_tstack :: addr
  p_tstackalloc :: bool
  p_parent :: "nat option"
  p_tf :: trapframe
  p_context :: ctxt
  p_chan :: "chan option"
  p_killed :: bool
  p_ofile :: "nat option list"
  p_cwd :: "nat option"
  p_name :: cstr

text \<open>\<open>ptable_addr\<close>, \<open>forkret_addr\<close> and \<open>trapret_addr\<close> are the addresses the linker gives to
  \<open>ptable\<close>, \<open>forkret\<close> and \<open>trapret\<close>.\<close>

record proc_state = vm_state +
  procs :: "proc list"
  nextpid :: int
  initproc :: "nat option"
  ptable_addr :: addr
  forkret_addr :: addr
  trapret_addr :: addr

definition proc_mod :: "nat \<Rightarrow> (proc \<Rightarrow> proc) \<Rightarrow> ('x proc_state_scheme, unit) K" where
  "proc_mod i f = kmod (\<lambda>s. s\<lparr>procs := upd_at i f (procs s)\<rparr>)"

definition proc_get :: "nat \<Rightarrow> (proc \<Rightarrow> 'a) \<Rightarrow> ('x proc_state_scheme, 'a) K" where
  "proc_get i f = kgets (\<lambda>s. f (procs s ! i))"

definition thread_leader :: "'x proc_state_scheme \<Rightarrow> nat \<Rightarrow> nat option" where
  "thread_leader s i = (if p_tid (procs s ! i) = - 1 then Some i else p_parent (procs s ! i))"

text \<open>\<open>myproc()\<close> used as a process that exists; with no process the code reads through null.\<close>

definition with_myproc :: "(nat \<Rightarrow> ('x proc_state_scheme, 'a) K) \<Rightarrow> ('x proc_state_scheme, 'a) K" where
  "with_myproc f = kbind myproc (\<lambda>p. case p of None \<Rightarrow> kpanic ''null process'' | Some i \<Rightarrow> f i)"

definition pinit :: "('x proc_state_scheme, unit) K" where
  "pinit = initlock PtableLock ''ptable''"

section \<open>allocproc\<close>

definition load16 :: "byte_mem \<Rightarrow> addr \<Rightarrow> ushort" where
  "load16 m a = ucast (load32 m a)"

text \<open>The trap frame that happens to be in memory at an address.\<close>

definition tf_at :: "byte_mem \<Rightarrow> addr \<Rightarrow> trapframe" where
  "tf_at m a = \<lparr>tf_edi = load32 m a, tf_esi = load32 m (a + 4), tf_ebp = load32 m (a + 8),
     tf_oesp = load32 m (a + 12), tf_ebx = load32 m (a + 16), tf_edx = load32 m (a + 20),
     tf_ecx = load32 m (a + 24), tf_eax = load32 m (a + 28), tf_gs = load16 m (a + 32),
     tf_fs = load16 m (a + 36), tf_es = load16 m (a + 40), tf_ds = load16 m (a + 44),
     tf_trapno = load32 m (a + 48), tf_err = load32 m (a + 52), tf_eip = load32 m (a + 56),
     tf_cs = load16 m (a + 60), tf_eflags = load32 m (a + 64), tf_esp = load32 m (a + 68),
     tf_ss = load16 m (a + 72)\<rparr>"

text \<open>The part after the label \<open>found\<close>.\<close>

definition allocproc_found :: "nat \<Rightarrow> ('x proc_state_scheme, nat option) K" where
  "allocproc_found i =
     kthen [proc_mod i (\<lambda>p. p\<lparr>p_state := EMBRYO\<rparr>),
            kmod (\<lambda>s. s\<lparr>procs := upd_at i (\<lambda>p. p\<lparr>p_pid := nextpid s\<rparr>) (procs s), nextpid := nextpid s + 1\<rparr>),
            release PtableLock]
       (kbind kalloc (\<lambda>kstack.
        kthen [proc_mod i (\<lambda>p. p\<lparr>p_kstack := kstack\<rparr>)]
          (if kstack = 0 then kthen [proc_mod i (\<lambda>p. p\<lparr>p_state := UNUSED\<rparr>)] (kret None)
           else let tf = kstack + KSTACKSIZE - 76; ret = tf - 4; context = ret - 20 in
             kthen [kmod (\<lambda>s. s\<lparr>procs := upd_at i (\<lambda>p. p\<lparr>p_tf := tf_at (mem s) tf\<rparr>) (procs s)\<rparr>),
                    kmod (\<lambda>s. s\<lparr>mem := store32 ret (trapret_addr s) (mem s)\<rparr>),
                    mem_mod (memset context 0 20),
                    kmod (\<lambda>s. s\<lparr>procs := upd_at i (\<lambda>p. p\<lparr>p_context :=
                      \<lparr>ctx_edi = 0, ctx_esi = 0, ctx_ebx = 0, ctx_ebp = 0, ctx_eip = forkret_addr s\<rparr>\<rparr>) (procs s)\<rparr>),
                    proc_mod i (\<lambda>p. p\<lparr>p_tid := - 1\<rparr>),
                    proc_mod i (\<lambda>p. p\<lparr>p_tstack := 0\<rparr>),
                    proc_mod i (\<lambda>p. p\<lparr>p_tstackalloc := False\<rparr>),
                    initlock (ThreadLock i) ''thread lock'']
               (kret (Some i)))))"

definition allocproc :: "('x proc_state_scheme, nat option) K" where
  "allocproc =
     kthen [acquire PtableLock]
       (kbind (kgets (\<lambda>s. index_of (\<lambda>p. p_state p = UNUSED) (procs s))) (\<lambda>found.
        case found of
          None \<Rightarrow> kthen [release PtableLock] (kret None)
        | Some i \<Rightarrow> allocproc_found i))"

section \<open>Switching\<close>

definition switchuvm :: "nat option \<Rightarrow> ('x proc_state_scheme, unit) K" where
  "switchuvm p = (case p of None \<Rightarrow> kpanic ''switchuvm: no process'' | Some i \<Rightarrow>
     kbind (proc_get i p_kstack) (\<lambda>ks.
     if ks = 0 then kpanic ''switchuvm: no kstack''
     else kbind (proc_get i p_pgdir) (\<lambda>pg.
       if pg = 0 then kpanic ''switchuvm: no pgdir''
       else kdo [pushcli,
                 kbind mycpu (\<lambda>_. kmod (\<lambda>s. s\<lparr>esp0 := ks + KSTACKSIZE\<rparr>)),
                 kmod (\<lambda>s. s\<lparr>cr3 := V2P pg\<rparr>),
                 popcli])))"

text \<open>The current processor's record.\<close>

definition this_cpu :: "(cpu \<Rightarrow> 'a) \<Rightarrow> ('x mach_scheme, 'a) K" where
  "this_cpu f = kbind mycpu (\<lambda>c. kgets (\<lambda>s. f (cpus s ! c)))"

text \<open>\<open>sched\<close> up to \<open>swtch\<close>; its value of \<open>intena\<close> is a local of the process and is put back by
  \<open>sched_return\<close>, on whichever processor the process runs next.\<close>

definition sched_checks :: "nat \<Rightarrow> ('x proc_state_scheme, unit) K" where
  "sched_checks p =
     kbind (holding PtableLock) (\<lambda>h.
     if \<not> h then kpanic ''sched ptable.lock''
     else kbind (this_cpu ncli) (\<lambda>n.
       if n \<noteq> 1 then kpanic ''sched locks''
       else kbind (proc_get p p_state) (\<lambda>st.
         if st = RUNNING then kpanic ''sched running''
         else kbind (kgets fl_if) (\<lambda>i.
           if i then kpanic ''sched interruptible'' else kret ()))))"

definition sched :: "('x proc_state_scheme, 'a) K" where
  "sched = with_myproc (\<lambda>p. kthen [sched_checks p] kblock)"

definition sched_return :: "bool \<Rightarrow> ('x proc_state_scheme, unit) K" where
  "sched_return saved = kbind mycpu (\<lambda>c. cpu_mod c (\<lambda>k. k\<lparr>intena := saved\<rparr>))"

text \<open>The scheduler's scan from slot \<open>k\<close> on: the switch to the first runnable process, or the
  release of the table when there is none. \<open>scheduler_back\<close> is what follows \<open>swtch\<close>.\<close>

definition scheduler_scan :: "nat \<Rightarrow> ('x proc_state_scheme, nat option) K" where
  "scheduler_scan k =
     kbind (kgets (\<lambda>s. index_of (\<lambda>i. k \<le> i \<and> p_state (procs s ! i) = RUNNABLE) [0..<NPROC])) (\<lambda>found.
     case found of
       None \<Rightarrow> kthen [release PtableLock] (kret None)
     | Some i \<Rightarrow>
       kthen [kbind mycpu (\<lambda>c. cpu_mod c (\<lambda>k. k\<lparr>cproc := Some i\<rparr>)),
              switchuvm (Some i),
              proc_mod i (\<lambda>p. p\<lparr>p_state := RUNNING\<rparr>)]
         (kret (Some i)))"

definition scheduler_back :: "('x proc_state_scheme, unit) K" where
  "scheduler_back = kdo [switchkvm, kbind mycpu (\<lambda>c. cpu_mod c (\<lambda>k. k\<lparr>cproc := None\<rparr>))]"

definition scheduler_next :: "nat \<Rightarrow> ('x proc_state_scheme, nat option) K" where
  "scheduler_next i = kthen [scheduler_back] (scheduler_scan (Suc i))"

definition scheduler_round :: "('x proc_state_scheme, nat option) K" where
  "scheduler_round = kthen [sti, acquire PtableLock] (scheduler_scan 0)"

definition scheduler :: "('x proc_state_scheme, nat option) K" where
  "scheduler = kthen [kbind mycpu (\<lambda>c. cpu_mod c (\<lambda>k. k\<lparr>cproc := None\<rparr>))] scheduler_round"

definition yield :: "('x proc_state_scheme, unit) K" where
  "yield = kdo [acquire PtableLock, with_myproc (\<lambda>p. proc_mod p (\<lambda>q. q\<lparr>p_state := RUNNABLE\<rparr>)), sched]"

definition yield_return :: "bool \<Rightarrow> ('x proc_state_scheme, unit) K" where
  "yield_return saved = kdo [sched_return saved, release PtableLock]"

section \<open>sleep and wakeup\<close>

definition sleep :: "chan option \<Rightarrow> lockid \<Rightarrow> ('x proc_state_scheme, 'a) K" where
  "sleep ch l = kbind myproc (\<lambda>p. case p of None \<Rightarrow> kpanic ''sleep'' | Some i \<Rightarrow>
     kthen [kwhen (l \<noteq> PtableLock) (kdo [acquire PtableLock, release l]),
            proc_mod i (\<lambda>q. q\<lparr>p_chan := ch\<rparr>),
            proc_mod i (\<lambda>q. q\<lparr>p_state := SLEEPING\<rparr>)]
       sched)"

definition sleep_return :: "bool \<Rightarrow> lockid \<Rightarrow> ('x proc_state_scheme, unit) K" where
  "sleep_return saved l = kdo [sched_return saved,
     with_myproc (\<lambda>i. proc_mod i (\<lambda>q. q\<lparr>p_chan := None\<rparr>)),
     kwhen (l \<noteq> PtableLock) (kdo [release PtableLock, acquire l])]"

definition wakeup1 :: "chan option \<Rightarrow> ('x proc_state_scheme, unit) K" where
  "wakeup1 ch = kmod (\<lambda>s. s\<lparr>procs :=
     map (\<lambda>p. if p_state p = SLEEPING \<and> p_chan p = ch then p\<lparr>p_state := RUNNABLE\<rparr> else p) (procs s)\<rparr>)"

definition wakeup :: "chan option \<Rightarrow> ('x proc_state_scheme, unit) K" where
  "wakeup ch = kdo [acquire PtableLock, wakeup1 ch, release PtableLock]"

section \<open>Signals to processes and threads\<close>

definition kill_proc :: "proc \<Rightarrow> proc" where
  "kill_proc p = (let q = p\<lparr>p_killed := True\<rparr>
     in if p_state q = SLEEPING then q\<lparr>p_state := RUNNABLE\<rparr> else q)"

definition kill :: "int \<Rightarrow> ('x proc_state_scheme, int) K" where
  "kill pid =
     kthen [acquire PtableLock]
       (kbind (kgets (\<lambda>s. index_of (\<lambda>p. p_pid p = pid \<and> p_tid p = - 1) (procs s))) (\<lambda>found.
        case found of
          Some i \<Rightarrow> kthen [proc_mod i kill_proc, release PtableLock] (kret 0)
        | None \<Rightarrow> kthen [release PtableLock] (kret (- 1))))"

definition tkill :: "int \<Rightarrow> ('x proc_state_scheme, int) K" where
  "tkill tid = with_myproc (\<lambda>cur.
     if tid = - 1 then kret (- 1)
     else kthen [acquire PtableLock]
       (kbind (kgets (\<lambda>s. index_of (\<lambda>p. p_pid p = p_pid (procs s ! cur) \<and> p_tid p = tid) (procs s))) (\<lambda>found.
        kthen [case found of Some i \<Rightarrow> proc_mod i kill_proc | None \<Rightarrow> kret (),
               release PtableLock]
          (if found = None then kret (- 1) else kret 0))))"

definition tsuspend :: "('x proc_state_scheme, int) K" where
  "tsuspend = with_myproc (\<lambda>cur.
     kbind (kgets (\<lambda>s. thread_leader s cur)) (\<lambda>l.
     if Some cur = l then kret (- 1)
     else kthen [acquire PtableLock] (sleep (Some (Ch_proc cur)) PtableLock)))"

definition tsuspend_return :: "bool \<Rightarrow> ('x proc_state_scheme, int) K" where
  "tsuspend_return saved = kthen [sleep_return saved PtableLock, release PtableLock] (kret 0)"

definition tresume :: "int \<Rightarrow> ('x proc_state_scheme, int) K" where
  "tresume tid = with_myproc (\<lambda>cur.
     if tid = - 1 then kret (- 1)
     else kbind (kgets (\<lambda>s. index_of (\<lambda>p. p_tid p = tid \<and> p_pid p = p_pid (procs s ! cur)) (procs s))) (\<lambda>found.
       kbind (proc_get cur p_killed) (\<lambda>k.
       case found of
         None \<Rightarrow> kret (- 1)
       | Some i \<Rightarrow>
         if k then kret (- 1)
         else kthen [acquire PtableLock,
                     proc_mod i (\<lambda>p. p\<lparr>p_state := RUNNABLE\<rparr>),
                     proc_mod i (\<lambda>p. p\<lparr>p_chan := None\<rparr>),
                     release PtableLock]
                (kret 0))))"

section \<open>Collecting dead threads and processes\<close>

definition clear_name :: "cstr \<Rightarrow> cstr" where
  "clear_name n = (case n of [] \<Rightarrow> [] | _ # cs \<Rightarrow> 0 # cs)"

text \<open>The kernel stack and, when the kernel allocated it, the user stack of slot \<open>i\<close>.\<close>

definition free_stacks :: "nat \<Rightarrow> ('x proc_state_scheme, unit) K" where
  "free_stacks i =
     kbind (proc_get i p_kstack) (\<lambda>ks.
     kdo [kfree ks,
          proc_mod i (\<lambda>p. p\<lparr>p_kstack := 0\<rparr>),
          kbind (proc_get i p_tstackalloc) (\<lambda>al. kwhen al
            (kbind (proc_get i p_pgdir) (\<lambda>pg. kbind (proc_get i p_tstack) (\<lambda>ts. freecloneuvm pg ts))))])"

definition clear_slot :: "proc \<Rightarrow> proc" where
  "clear_slot p = p\<lparr>p_pid := 0, p_tid := 0, p_tstack := 0, p_parent := None,
     p_name := clear_name (p_name p), p_killed := False, p_state := UNUSED\<rparr>"

text \<open>One round of the loop of \<open>join\<close>, with the table locked, waiting for slot \<open>i\<close>.\<close>

definition join_loop :: "nat \<Rightarrow> nat option \<Rightarrow> ('x proc_state_scheme, int) K" where
  "join_loop i tleader = with_myproc (\<lambda>cur.
     kbind (proc_get cur p_killed) (\<lambda>k.
     if k then kthen [release PtableLock] (kret (- 1))
     else kbind (proc_get i p_state) (\<lambda>st.
       if st = ZOMBIE then
         kbind (proc_get i p_tid) (\<lambda>jtid.
         kthen [free_stacks i,
                proc_mod i (\<lambda>p. p\<lparr>p_pgdir := 0\<rparr>),
                proc_mod i clear_slot,
                release PtableLock]
           (kret jtid))
       else sleep (map_option Ch_proc tleader) PtableLock)))"

definition join :: "int \<Rightarrow> ('x proc_state_scheme, int) K" where
  "join tid = with_myproc (\<lambda>cur.
     if tid = - 1 then kret (- 1)
     else kbind (kgets (\<lambda>s. thread_leader s cur)) (\<lambda>tleader.
       kbind (kgets (\<lambda>s. index_of (\<lambda>p. p_tid p = tid \<and> p_parent p = tleader) (procs s))) (\<lambda>found.
       kbind (proc_get cur p_killed) (\<lambda>k.
       case found of
         None \<Rightarrow> kret (- 1)
       | Some i \<Rightarrow> if k then kret (- 1) else kthen [acquire PtableLock] (join_loop i tleader)))))"

definition join_resume :: "bool \<Rightarrow> nat \<Rightarrow> nat option \<Rightarrow> ('x proc_state_scheme, int) K" where
  "join_resume saved i tleader = kthen [sleep_return saved PtableLock] (join_loop i tleader)"

text \<open>The scan of \<open>tgkill\<close>: collects the group's dead threads up to the first live one and says
  whether there is one.\<close>

primrec tgkill_scan :: "int \<Rightarrow> nat list \<Rightarrow> ('x proc_state_scheme, bool) K" where
  "tgkill_scan pid [] = kret False"
| "tgkill_scan pid (i # is) =
     kbind (kgets (\<lambda>s. procs s ! i)) (\<lambda>p.
     if p_pid p \<noteq> pid \<or> p_tid p = - 1 then tgkill_scan pid is
     else if p_state p = ZOMBIE then
       kthen [free_stacks i, proc_mod i clear_slot] (tgkill_scan pid is)
     else kret True)"

definition tgkill_loop :: "nat \<Rightarrow> ('x proc_state_scheme, int) K" where
  "tgkill_loop cur =
     kbind (proc_get cur p_pid) (\<lambda>pid.
     kbind (tgkill_scan pid [0..<NPROC]) (\<lambda>havethreads.
     if \<not> havethreads then kthen [release PtableLock] (kret 0)
     else kbind (proc_get cur p_killed) (\<lambda>k.
       if k then kthen [release PtableLock] (kret (- 1))
       else sleep (Some (Ch_proc cur)) PtableLock)))"

definition tgkill_mark :: "int \<Rightarrow> proc \<Rightarrow> proc" where
  "tgkill_mark pid p = (if p_pid p = pid \<and> p_tid p \<noteq> - 1 then
       (let q = p\<lparr>p_killed := True\<rparr>
        in if p_state q = SLEEPING then q\<lparr>p_state := RUNNABLE, p_chan := None\<rparr> else q)
     else p)"

definition tgkill :: "('x proc_state_scheme, int) K" where
  "tgkill = with_myproc (\<lambda>cur.
     kbind (kgets (\<lambda>s. thread_leader s cur)) (\<lambda>l.
     if l \<noteq> Some cur then kret (- 1)
     else kthen [acquire PtableLock,
                 kmod (\<lambda>s. s\<lparr>procs := map (tgkill_mark (p_pid (procs s ! cur))) (procs s)\<rparr>)]
            (tgkill_loop cur)))"

definition tgkill_resume :: "bool \<Rightarrow> nat \<Rightarrow> ('x proc_state_scheme, int) K" where
  "tgkill_resume saved cur = kthen [sleep_return saved PtableLock] (tgkill_loop cur)"

text \<open>
  \<open>THREAD_LEADER(p)->parent\<close> in \<open>wait\<close>. A slot whose \<open>tid\<close> is not -1 and whose \<open>parent\<close> is
  null (every slot that was never used or has been collected) makes the kernel read the
  field through the null pointer: the word at user address 84, the offset of \<open>parent\<close>, in
  the address space of the running process. \<open>struct proc\<close> is 188 bytes and follows the
  52-byte lock in \<open>ptable\<close>.
\<close>

definition proc_addr :: "'x proc_state_scheme \<Rightarrow> nat \<Rightarrow> addr" where
  "proc_addr s i = ptable_addr s + 52 + 188 * of_nat i"

definition user_word :: "'x proc_state_scheme \<Rightarrow> addr \<Rightarrow> uint option" where
  "user_word s va = (let e = pte_of (mem s) (P2V (cr3 s)) va in
     if e AND PTE_P = 0 then None else Some (load32 (mem s) (P2V (PTE_ADDR e) + (va AND 0xFFF))))"

definition leader_parent :: "nat \<Rightarrow> ('x proc_state_scheme, nat option) K" where
  "leader_parent i = kbind (kgets (\<lambda>s. thread_leader s i)) (\<lambda>l. case l of
       Some q \<Rightarrow> proc_get q p_parent
     | None \<Rightarrow> kbind (kgets (\<lambda>s. user_word s 84)) (\<lambda>w. case w of
         None \<Rightarrow> kpanic ''trap''
       | Some v \<Rightarrow> kgets (\<lambda>s. index_of (\<lambda>j. proc_addr s j = v) [0..<NPROC])))"

text \<open>The scan of \<open>wait\<close>: the pid of a child it collected, or whether there are children.\<close>

primrec wait_scan :: "nat option \<Rightarrow> nat list \<Rightarrow> bool \<Rightarrow> ('x proc_state_scheme, int + bool) K" where
  "wait_scan lead [] havekids = kret (Inr havekids)"
| "wait_scan lead (i # is) havekids =
     kbind (leader_parent i) (\<lambda>par.
     if par \<noteq> lead then wait_scan lead is havekids
     else kbind (kgets (\<lambda>s. procs s ! i)) (\<lambda>p.
       if p_state p = ZOMBIE \<and> p_tid p = - 1 then
         kthen [kfree (p_kstack p),
                proc_mod i (\<lambda>p. p\<lparr>p_kstack := 0\<rparr>),
                freevm (p_pgdir p),
                proc_mod i clear_slot,
                release PtableLock]
           (kret (Inl (p_pid p)))
       else wait_scan lead is True))"

definition wait_loop :: "nat \<Rightarrow> ('x proc_state_scheme, int) K" where
  "wait_loop cur =
     kbind (kgets (\<lambda>s. thread_leader s cur)) (\<lambda>lead.
     kbind (wait_scan lead [0..<NPROC] False) (\<lambda>r. case r of
       Inl pid \<Rightarrow> kret pid
     | Inr havekids \<Rightarrow>
       kbind (proc_get cur p_killed) (\<lambda>k.
       if \<not> havekids \<or> k then kthen [release PtableLock] (kret (- 1))
       else sleep (map_option Ch_proc lead) PtableLock)))"

definition wait :: "('x proc_state_scheme, int) K" where
  "wait = with_myproc (\<lambda>cur. kthen [acquire PtableLock] (wait_loop cur))"

definition wait_resume :: "bool \<Rightarrow> nat \<Rightarrow> ('x proc_state_scheme, int) K" where
  "wait_resume saved cur = kthen [sleep_return saved PtableLock] (wait_loop cur)"

section \<open>growproc and procdump\<close>

definition growproc :: "int \<Rightarrow> ('x proc_state_scheme, int) K" where
  "growproc n = with_myproc (\<lambda>cur.
     kbind (kgets (\<lambda>s. thread_leader s cur)) (\<lambda>l. case l of
       None \<Rightarrow> kpanic ''null process''
     | Some tleader \<Rightarrow>
       kbind (proc_get tleader p_sz) (\<lambda>sz.
       kbind (proc_get cur p_pgdir) (\<lambda>pg.
       kbind (if n > 0 then allocuvm pg sz (sz + uint_of n)
              else if n < 0 then deallocuvm pg sz (sz + uint_of n) else kret sz) (\<lambda>sz'.
       if n \<noteq> 0 \<and> sz' = 0 then kret (- 1)
       else kthen [proc_mod cur (\<lambda>p. p\<lparr>p_sz := sz'\<rparr>),
                   proc_mod tleader (\<lambda>p. p\<lparr>p_sz := sz'\<rparr>),
                   switchuvm (Some cur)]
              (kret 0))))))"

definition state_name :: "procstate \<Rightarrow> string" where
  "state_name st = (case st of UNUSED \<Rightarrow> ''unused'' | EMBRYO \<Rightarrow> ''embryo'' | SLEEPING \<Rightarrow> ''sleep ''
     | RUNNABLE \<Rightarrow> ''runble'' | RUNNING \<Rightarrow> ''run   '' | ZOMBIE \<Rightarrow> ''zombie'')"

text \<open>The arguments of the \<open>cprintf\<close> calls for each line of the listing.\<close>

definition procdump :: "'x proc_state_scheme \<Rightarrow> (int \<times> int \<times> string \<times> cstr \<times> uint list) list" where
  "procdump s = map (\<lambda>p. (p_pid p, p_tid p, state_name (p_state p), str_of (p_name p),
       if p_state p = SLEEPING
       then takeWhile (\<lambda>pc. pc \<noteq> 0) (getcallerpcs (mem s) (ctx_ebp (p_context p) + 8)) else []))
     (filter (\<lambda>p. p_state p \<noteq> UNUSED) (procs s))"

section \<open>Frames\<close>

lemma proc_frame [simp]:
  fixes s :: "'x proc_state_scheme"
  shows "procs (acquired l s) = procs s" "nextpid (acquired l s) = nextpid s" "initproc (acquired l s) = initproc s"
    "ptable_addr (acquired l s) = ptable_addr s" "proc_state.more (acquired l s) = proc_state.more s"
    "procs (released l s) = procs s" "nextpid (released l s) = nextpid s" "initproc (released l s) = initproc s"
    "ptable_addr (released l s) = ptable_addr s" "proc_state.more (released l s) = proc_state.more s"
    "procs (probed s) = procs s" "nextpid (probed s) = nextpid s" "initproc (probed s) = initproc s"
    "ptable_addr (probed s) = ptable_addr s" "proc_state.more (probed s) = proc_state.more s"
  by (simp_all add: acquired_def released_def probed_def Let_def)

lemma proc_alloc_frame [simp]:
  fixes s :: "'x proc_state_scheme"
  shows "procs (after_kalloc s) = procs s" "nextpid (after_kalloc s) = nextpid s"
    "initproc (after_kalloc s) = initproc s" "proc_state.more (after_kalloc s) = proc_state.more s"
    "procs (after_kfree v s) = procs s" "nextpid (after_kfree v s) = nextpid s"
    "initproc (after_kfree v s) = initproc s" "proc_state.more (after_kfree v s) = proc_state.more s"
  by (simp_all add: after_kalloc_def after_kfree_def with_kmem_lock_def)

lemma lk_ok_procs [simp]:
  fixes s :: "'x proc_state_scheme"
  shows "lk_ok (s\<lparr>procs := x\<rparr>) = lk_ok s" "held (s\<lparr>procs := x\<rparr>) = held s" "curproc (s\<lparr>procs := x\<rparr>) = curproc s"
    "lk_ok (s\<lparr>nextpid := n\<rparr>) = lk_ok s" "held (s\<lparr>nextpid := n\<rparr>) = held s" "curproc (s\<lparr>nextpid := n\<rparr>) = curproc s"
  by (simp_all add: lk_ok_def held_def mycpu_index_def curproc_def)

lemma vm_ok_procs [simp]:
  fixes s :: "'x proc_state_scheme"
  shows "kpage (s\<lparr>procs := x\<rparr>) = kpage s" "kmem_ok (s\<lparr>procs := x\<rparr>) ps = kmem_ok s ps"
    "pt_ok (s\<lparr>procs := x\<rparr>) pg = pt_ok s pg" "vm_ok ps pg (s\<lparr>procs := x\<rparr>) = vm_ok ps pg s"
    "kpage (s\<lparr>nextpid := n\<rparr>) = kpage s" "kmem_ok (s\<lparr>nextpid := n\<rparr>) ps = kmem_ok s ps"
  by (auto simp: kpage_def kmem_ok_def pt_ok_def vm_ok_def fun_eq_iff)

lemma vm_ok_locks [simp]:
  fixes s :: "'x kmem_state_scheme"
  shows "kpage (acquired l s) = kpage s" "kpage (released l s) = kpage s" "kpage (probed s) = kpage s"
    "kmem_ok (acquired l s) ps = kmem_ok s ps" "kmem_ok (released l s) ps = kmem_ok s ps"
    "kmem_ok (probed s) ps = kmem_ok s ps"
    "pt_ok (acquired l s) pg = pt_ok s pg" "pt_ok (released l s) pg = pt_ok s pg" "pt_ok (probed s) pg = pt_ok s pg"
  by (auto simp: kpage_def kmem_ok_def pt_ok_def fun_eq_iff)

lemma same_vm_procs:
  fixes s t :: "'x proc_state_scheme"
  assumes "same_vm s t"
  shows "procs t = procs s" "nextpid t = nextpid s" "initproc t = initproc s" "ptable_addr t = ptable_addr s"
    "proc_state.more t = proc_state.more s"
proof -
  have "vm_state.more t = vm_state.more s" using assms by (simp add: same_vm_def)
  then show "procs t = procs s" "nextpid t = nextpid s" "initproc t = initproc s" "ptable_addr t = ptable_addr s"
    "proc_state.more t = proc_state.more s"
    by (cases s; cases t; simp)+
qed

section \<open>Runs of the basic operations\<close>

lemma proc_mod_run [simp]: "proc_mod i f s = Ok () (s\<lparr>procs := upd_at i f (procs s)\<rparr>)"
  by (simp add: proc_mod_def)

lemma proc_get_run [simp]: "proc_get i f s = Ok (f (procs s ! i)) s"
  by (simp add: proc_get_def)

lemma with_myproc_run [simp]:
  "lk_ok s \<Longrightarrow> curproc s = Some p \<Longrightarrow> with_myproc f s = f p (probed s)"
  by (simp add: with_myproc_def)

text \<open>With a lock held the counters of \<open>pushcli\<close> and \<open>popcli\<close> leave no trace.\<close>

lemma probed_id:
  assumes "lk_ok s" "held s \<noteq> {}"
  shows "probed s = s"
proof -
  obtain c where c: "mycpu_index s = Some c" "c < length (cpus s)" "ncli (cpus s ! c) = int (card (held s))"
      "finite (held s)"
    using assms(1) by (rule lk_okE)
  then have "ncli (cpus s ! c) \<noteq> 0" using assms(2) by simp
  then have "upd_at c (\<lambda>k. k\<lparr>intena := if ncli k = 0 then fl_if s else intena k\<rparr>) (cpus s) = cpus s"
    using c(2) by (intro nth_equalityI) (auto simp: nth_upd_at)
  then show ?thesis using c(1) by (simp add: probed_def)
qed

lemma held_no_if: "lk_ok s \<Longrightarrow> held s \<noteq> {} \<Longrightarrow> \<not> fl_if s"
  by (auto simp: lk_ok_def)

lemma holding_held:
  assumes "lk_ok s" "held s \<noteq> {}"
  shows "holding l s = Ok (l \<in> held s) s"
proof -
  obtain c where c: "mycpu_index s = Some c" "ncli (cpus s ! c) = int (card (held s))"
      "\<forall>l\<in>held s. lcpu (locks s l) = Some c" "fl_if s \<longrightarrow> held s = {}"
    using assms(1) by (rule lk_okE) auto
  have "holding l s = Ok (locked (locks s l) \<and> lcpu (locks s l) = Some c) (probed s)"
    using holding_run [OF c(1)] c(1,2,4) by (simp add: probed_def)
  then show ?thesis using c(3) probed_id [OF assms] by (auto simp: held_def)
qed

lemma this_cpu_run:
  assumes "lk_ok s" "held s \<noteq> {}"
  shows "this_cpu f s = Ok (f (cpus s ! the (mycpu_index s))) s"
  using assms held_no_if [OF assms] by (auto simp: this_cpu_def mycpu_def lk_ok_def)

lemma lk_ok_ncli: "lk_ok s \<Longrightarrow> ncli (cpus s ! the (mycpu_index s)) = int (card (held s))"
  by (auto simp: lk_ok_def)

lemma sched_run:
  assumes "lk_ok s" "held s = {PtableLock}" "curproc s = Some p" "p_state (procs s ! p) \<noteq> RUNNING"
  shows "sched s = Blocked s"
  using assms held_no_if [OF assms(1)]
  by (simp add: sched_def sched_checks_def kthen_def probed_id holding_held this_cpu_run lk_ok_ncli)

text \<open>\<open>sleep\<close> with its lock as the only one held, whether or not that is the table's own.\<close>

definition asleep :: "nat \<Rightarrow> chan option \<Rightarrow> proc list \<Rightarrow> proc list" where
  "asleep p ch ps = upd_at p (\<lambda>q. q\<lparr>p_chan := ch, p_state := SLEEPING\<rparr>) ps"

lemma sleep_run_ptable:
  assumes "lk_ok s" "held s = {PtableLock}" "curproc s = Some p" "p < length (procs s)"
  shows "sleep ch PtableLock s = Blocked (s\<lparr>procs := asleep p ch (procs s)\<rparr>)"
proof -
  let ?t = "s\<lparr>procs := asleep p ch (procs s)\<rparr>"
  have "sched ?t = Blocked ?t" by (rule sched_run [of _ p]) (use assms in \<open>simp_all add: asleep_def\<close>)
  then show ?thesis using assms by (simp add: sleep_def kthen_def probed_id asleep_def comp_def)
qed

lemma sleep_run:
  assumes "lk_ok s" "held s = {l}" "l \<noteq> PtableLock" "curproc s = Some p" "p < length (procs s)"
  shows "sleep ch l s = Blocked ((released l (acquired PtableLock s))\<lparr>procs := asleep p ch (procs s)\<rparr>)"
proof -
  let ?t = "(released l (acquired PtableLock s))\<lparr>procs := asleep p ch (procs s)\<rparr>"
  have r: "lk_ok (acquired PtableLock s)" "lk_ok (released l (acquired PtableLock s))" using assms by simp_all
  have h: "held (released l (acquired PtableLock s)) = {PtableLock}" using assms(2,3) by auto
  have c: "curproc (released l (acquired PtableLock s)) = Some p" using assms(1,4) r(1) by simp
  have "probed s = s" "acquire PtableLock s = Ok () (acquired PtableLock s)"
    "release l (acquired PtableLock s) = Ok () (released l (acquired PtableLock s))"
    using assms r(1) by (simp_all add: probed_id)
  then have "sleep ch l s = sched ?t"
    using assms(1,3,4) by (simp add: sleep_def kthen_def asleep_def comp_def)
  also have "\<dots> = Blocked ?t"
    by (rule sched_run [of _ p]) (use assms(5) r(2) h c in \<open>simp_all add: asleep_def\<close>)
  finally show ?thesis .
qed

definition woken :: "chan option \<Rightarrow> proc list \<Rightarrow> proc list" where
  "woken ch ps = map (\<lambda>p. if p_state p = SLEEPING \<and> p_chan p = ch then p\<lparr>p_state := RUNNABLE\<rparr> else p) ps"

lemma wakeup1_run [simp]: "wakeup1 ch s = Ok () (s\<lparr>procs := woken ch (procs s)\<rparr>)"
  by (simp add: wakeup1_def woken_def)

lemma wakeup_run:
  "lk_ok s \<Longrightarrow> PtableLock \<notin> held s \<Longrightarrow>
   wakeup ch s = Ok () (released PtableLock ((acquired PtableLock s)\<lparr>procs := woken ch (procs s)\<rparr>))"
  by (simp add: wakeup_def)

end
