(* ===== verification/Xv6_Frame.thy ===== *)
theory Xv6_Frame
  imports Xv6_Vm
begin

text \<open>
  Frame conditions of the locks, the allocator and the page table code. A relation between
  states that a change of the interrupt flag, of the lock words, of the nesting counters,
  of memory and of the free list respects is kept by every operation of spinlock.c,
  kalloc.c and vm.c. The layers above interpret the locales with the parts of the state
  they care about.
\<close>

locale mach_frame = kframe R B
  for R B :: "'x mach_scheme \<Rightarrow> 'x mach_scheme \<Rightarrow> bool" +
  assumes R_fl_if: "R s (s\<lparr>fl_if := i\<rparr>)"
    and R_locks: "R s (s\<lparr>locks := k\<rparr>)"
    and R_cpu: "(\<And>k. apicid (f k) = apicid k \<and> cproc (f k) = cproc k) \<Longrightarrow> R s (s\<lparr>cpus := upd_at c f (cpus s)\<rparr>)"
begin

lemma keeps_cli: "keeps R B cli" and keeps_sti: "keeps R B sti"
  by (auto simp: cli_def sti_def intro!: keeps_kmod R_fl_if)

lemma keeps_mycpu: "keeps R B mycpu"
  by (auto simp: keeps_def mycpu_def R_refl split: if_splits option.splits)

lemma keeps_cpu_mod: "(\<And>k. apicid (f k) = apicid k \<and> cproc (f k) = cproc k) \<Longrightarrow> keeps R B (cpu_mod c f)"
  unfolding cpu_mod_def by (intro keeps_kmod R_cpu)

lemma keeps_lock_mod: "keeps R B (lock_mod l f)"
  by (auto simp: lock_mod_def intro!: keeps_kmod R_locks)

lemma keeps_pushcli: "keeps R B pushcli"
  unfolding pushcli_def Let_def by (auto intro!: frame_rules keeps_cli keeps_mycpu keeps_cpu_mod)

lemma keeps_popcli: "keeps R B popcli"
  unfolding popcli_def Let_def by (auto intro!: frame_rules keeps_sti keeps_mycpu keeps_cpu_mod)

lemma keeps_holding: "keeps R B (holding l)"
  unfolding holding_def by (auto intro!: frame_rules keeps_pushcli keeps_popcli keeps_mycpu)

lemma keeps_initlock: "keeps R B (initlock l n)"
  unfolding initlock_def by (auto intro!: frame_rules keeps_lock_mod)

lemma keeps_acquire: "keeps R B (acquire l)"
  unfolding acquire_def Let_def
  by (auto intro!: frame_rules keeps_pushcli keeps_holding keeps_mycpu keeps_lock_mod keeps_kmod R_locks)

lemma keeps_release: "keeps R B (release l)"
  unfolding release_def by (auto intro!: frame_rules keeps_popcli keeps_holding keeps_lock_mod)

lemma keeps_myproc: "keeps R B myproc"
  unfolding myproc_def by (auto intro!: frame_rules keeps_pushcli keeps_popcli keeps_mycpu)

lemmas lock_rules = frame_rules keeps_mycpu keeps_pushcli keeps_popcli keeps_holding keeps_initlock
  keeps_acquire keeps_release keeps_myproc

end

locale vm_frame = mach_frame R B
  for R B :: "'x vm_state_scheme \<Rightarrow> 'x vm_state_scheme \<Rightarrow> bool" +
  assumes R_mem: "R s (s\<lparr>mem := m\<rparr>)"
    and R_freelist: "R s (s\<lparr>kmem_freelist := v\<rparr>)"
begin

lemma keeps_mem_mod: "keeps R B (mem_mod f)" and keeps_rd: "keeps R B (rd a)" and keeps_wr: "keeps R B (wr a v)"
  by (auto simp: mem_mod_def rd_def wr_def intro!: keeps_kmod R_mem keeps_kgets)

lemmas mem_rules = lock_rules keeps_mem_mod keeps_rd keeps_wr

lemma keeps_kalloc: "keeps R B kalloc"
  unfolding kalloc_def by (auto intro!: mem_rules keeps_kmod R_freelist)

lemma keeps_kfree: "keeps R B (kfree v)"
  unfolding kfree_def by (auto intro!: mem_rules keeps_kmod R_freelist R_mem)

lemma keeps_walkpgdir: "keeps R B (walkpgdir pgdir va alloc)"
  unfolding walkpgdir_def Let_def by (auto intro!: mem_rules keeps_kalloc)

lemma keeps_mappages_loop: "keeps R B (mappages_loop n pgdir a last_page pa perm)"
  by (induction n arbitrary: a pa) (auto intro!: mem_rules keeps_walkpgdir)

lemma keeps_mappages: "keeps R B (mappages pgdir va sz pa perm)"
  unfolding mappages_def Let_def by (rule keeps_mappages_loop)

lemma keeps_deallocuvm_loop: "keeps R B (deallocuvm_loop n pgdir a oldsz)"
  by (induction n arbitrary: a) (auto intro!: mem_rules keeps_walkpgdir keeps_kfree)

lemma keeps_deallocuvm: "keeps R B (deallocuvm pgdir oldsz newsz)"
  unfolding deallocuvm_def
  by (auto intro!: mem_rules keeps_deallocuvm_loop simp del: deallocuvm_loop.simps)

lemma keeps_allocuvm_loop: "keeps R B (allocuvm_loop n pgdir a oldsz newsz)"
  by (induction n arbitrary: a) (auto intro!: mem_rules keeps_kalloc keeps_kfree keeps_mappages keeps_deallocuvm)

lemma keeps_allocuvm: "keeps R B (allocuvm pgdir oldsz newsz)"
  unfolding allocuvm_def
  by (auto intro!: mem_rules keeps_allocuvm_loop simp del: allocuvm_loop.simps)

lemma keeps_freevm: "keeps R B (freevm pgdir)"
  unfolding freevm_def by (auto intro!: mem_rules keeps_deallocuvm keeps_kfree)

lemma keeps_setupkvm: "keeps R B setupkvm"
  unfolding setupkvm_def by (auto intro!: mem_rules keeps_kalloc keeps_mappages keeps_freevm)

lemma keeps_copyuvm_loop: "keeps R B (copyuvm_loop n pgdir d i sz)"
  by (induction n arbitrary: i)
    (auto intro!: mem_rules keeps_walkpgdir keeps_kalloc keeps_freevm keeps_mappages keeps_kfree)

lemma keeps_copyuvm: "keeps R B (copyuvm pgdir sz)"
  unfolding copyuvm_def
  by (auto intro!: mem_rules keeps_setupkvm keeps_copyuvm_loop simp del: copyuvm_loop.simps)

lemma keeps_inituvm: "keeps R B (inituvm pgdir code)"
  unfolding inituvm_def by (auto intro!: mem_rules keeps_kalloc keeps_mappages)

lemma keeps_clearpteu: "keeps R B (clearpteu pgdir uva)"
  unfolding clearpteu_def by (auto intro!: mem_rules keeps_walkpgdir)

lemma keeps_find_slot: "keeps R B (find_slot n pgdir va sz)"
  by (induction n arbitrary: va) (auto intro!: mem_rules keeps_walkpgdir)

lemma keeps_cloneuvm: "keeps R B (cloneuvm pgdir sz guard)"
  unfolding cloneuvm_def Let_def by (auto intro!: mem_rules keeps_find_slot keeps_walkpgdir keeps_kalloc keeps_kfree)

lemma keeps_freecloneuvm: "keeps R B (freecloneuvm pgdir tstack)"
  unfolding freecloneuvm_def by (auto intro!: mem_rules keeps_walkpgdir keeps_kfree)

lemma keeps_copy_thread_stack: "keeps R B (copy_thread_stack d ds s ss)"
  unfolding copy_thread_stack_def by (auto intro!: mem_rules keeps_walkpgdir)

lemma keeps_uva2ka: "keeps R B (uva2ka pgdir uva)"
  unfolding uva2ka_def by (auto intro!: mem_rules keeps_walkpgdir)

lemma keeps_copyout_loop: "keeps R B (copyout_loop n pgdir va buf)"
  by (induction n arbitrary: va buf) (auto simp: Let_def intro!: mem_rules keeps_uva2ka)

lemma keeps_copyout: "keeps R B (copyout pgdir va buf)"
  unfolding copyout_def by (rule keeps_copyout_loop)

lemmas vm_rules = mem_rules keeps_kalloc keeps_kfree keeps_walkpgdir keeps_mappages keeps_deallocuvm
  keeps_allocuvm keeps_freevm keeps_setupkvm keeps_copyuvm keeps_inituvm keeps_clearpteu keeps_cloneuvm
  keeps_freecloneuvm keeps_copy_thread_stack keeps_uva2ka keeps_copyout

end

end
