(* ===== verification/Xv6_Sched.thy ===== *)
theory Xv6_Sched
  imports Xv6_Proc Xv6_Frame
begin

text \<open>
  Scheduling on several processors: which process runs where. A configuration is the
  kernel state between two critical sections of the process table; a step is a whole
  operation of proc.c on one processor, up to its return or its switch to the scheduler.
\<close>

section \<open>Which processor runs what\<close>

definition ctl :: "'x mach_scheme \<Rightarrow> 'x mach_scheme \<Rightarrow> bool" where
  "ctl s t \<longleftrightarrow> lapic_id t = lapic_id s \<and> map apicid (cpus t) = map apicid (cpus s)
     \<and> map cproc (cpus t) = map cproc (cpus s)"

lemma index_of_map: "index_of P (map f xs) = index_of (\<lambda>x. P (f x)) xs"
  by (induction xs) auto

lemma ctl_mycpu: "ctl s t \<Longrightarrow> mycpu_index t = mycpu_index s"
  using index_of_map [of "\<lambda>a. a = lapic_id s" apicid "cpus s"] index_of_map [of "\<lambda>a. a = lapic_id s" apicid "cpus t"]
  by (simp add: ctl_def mycpu_index_def)

lemma ctl_cproc: "ctl s t \<Longrightarrow> c < length (cpus s) \<Longrightarrow> cproc (cpus t ! c) = cproc (cpus s ! c)"
  by (metis ctl_def length_map nth_map)

lemma ctl_length: "ctl s t \<Longrightarrow> length (cpus t) = length (cpus s)"
  by (metis ctl_def length_map)

text \<open>The process of the executing processor, if that is one of \<open>cpus\<close>.\<close>

definition running :: "'x mach_scheme \<Rightarrow> nat option" where
  "running s = (case mycpu_index s of None \<Rightarrow> None | Some c \<Rightarrow> cproc (cpus s ! c))"

lemma ctl_running: "ctl s t \<Longrightarrow> running t = running s"
  using ctl_mycpu [of s t] ctl_cproc [of s t]
  by (auto simp: running_def mycpu_index_def split: option.splits dest: index_of_SomeD)

lemma map_upd_at_id: "(\<And>x. g (f x) = g x) \<Longrightarrow> map g (upd_at i f xs) = map g xs"
  by (intro nth_equalityI) (auto simp: nth_upd_at)

interpretation cf: mach_frame ctl "\<lambda>_ _. False"
  by unfold_locales (auto simp: ctl_def intro!: map_upd_at_id)

text \<open>What no operation below the process table touches.\<close>

definition pframe :: "'x proc_state_scheme \<Rightarrow> 'x proc_state_scheme \<Rightarrow> bool" where
  "pframe s t \<longleftrightarrow> ctl s t \<and> procs t = procs s \<and> nextpid t = nextpid s \<and> initproc t = initproc s"

interpretation pf: vm_frame pframe "\<lambda>_ _. False"
  by unfold_locales (auto simp: pframe_def ctl_def intro!: map_upd_at_id)

section \<open>Scheduling relations\<close>

definition is_running :: "'x proc_state_scheme \<Rightarrow> nat \<Rightarrow> bool" where
  "is_running s i \<longleftrightarrow> i < length (procs s) \<and> p_state (procs s ! i) = RUNNING"

text \<open>A call that returns leaves every process running that ran; one that gives up the
  processor stops its own process and no other.\<close>

definition run_frame :: "'x proc_state_scheme \<Rightarrow> 'x proc_state_scheme \<Rightarrow> bool" where
  "run_frame s t \<longleftrightarrow> ctl s t \<and> length (procs t) = length (procs s) \<and> (\<forall>i. is_running t i = is_running s i)"

definition run_blocks :: "'x proc_state_scheme \<Rightarrow> 'x proc_state_scheme \<Rightarrow> bool" where
  "run_blocks s t \<longleftrightarrow> ctl s t \<and> length (procs t) = length (procs s)
     \<and> (\<forall>i. running s \<noteq> Some i \<longrightarrow> is_running t i = is_running s i)
     \<and> (\<exists>i. running s = Some i \<and> \<not> is_running t i)"

lemma ctl_trans: "ctl s t \<Longrightarrow> ctl t u \<Longrightarrow> ctl s u"
  by (simp add: ctl_def)

lemma run_frame_blocks: "run_frame s t \<Longrightarrow> run_blocks t u \<Longrightarrow> run_blocks s u"
  using ctl_running [of s t] ctl_trans [of s t u] by (auto simp: run_frame_def run_blocks_def)

lemma run_frame_basic:
  "run_frame s s" "run_frame s (s\<lparr>fl_if := b\<rparr>)" "run_frame s (s\<lparr>locks := k\<rparr>)" "run_frame s (s\<lparr>mem := m\<rparr>)"
  "run_frame s (s\<lparr>kmem_freelist := v\<rparr>)"
  "(\<And>k. apicid (f k) = apicid k \<and> cproc (f k) = cproc k) \<Longrightarrow> run_frame s (s\<lparr>cpus := upd_at c f (cpus s)\<rparr>)"
  by (simp_all add: run_frame_def is_running_def ctl_def map_upd_at_id)

lemma run_frame_trans: "run_frame s t \<Longrightarrow> run_frame t u \<Longrightarrow> run_frame s u"
  by (simp add: run_frame_def ctl_def)

interpretation rf: vm_frame run_frame run_blocks
  by unfold_locales (rule run_frame_basic run_frame_trans run_frame_blocks; assumption)+

lemma pframe_run: "pframe s t \<Longrightarrow> run_frame s t"
  by (simp add: pframe_def run_frame_def is_running_def)

subsection \<open>myproc and sched\<close>

lemma mycpu_value: "mycpu s = Ok c t \<Longrightarrow> mycpu_index s = Some c \<and> t = s"
  by (auto simp: mycpu_def split: if_splits option.splits)

lemma myproc_value: "myproc s = Ok p t \<Longrightarrow> p = running s"
proof -
  assume "myproc s = Ok p t"
  then obtain s1 c where a: "pushcli s = Ok () s1" "mycpu s1 = Ok c s1" "p = cproc (cpus s1 ! c)"
    by (auto simp: myproc_def kthen_def kbind_eq_Ok dest: mycpu_value)
  then have "ctl s s1" using keepsD(1) [OF cf.keeps_pushcli] by blast
  then show ?thesis using a mycpu_value [OF a(2)] ctl_running by (fastforce simp: running_def)
qed

lemma with_myproc_Ok: "with_myproc f s = Ok x t \<longleftrightarrow> (\<exists>p u. running s = Some p \<and> myproc s = Ok (Some p) u \<and> f p u = Ok x t)"
  by (auto simp: with_myproc_def kbind_eq_Ok split: option.splits dest: myproc_value) (metis myproc_value)

lemma myproc_not_blocked: "myproc s \<noteq> Blocked t"
  using keepsD(2) [OF cf.keeps_myproc] by blast

lemma with_myproc_Blocked: "with_myproc f s = Blocked t \<longleftrightarrow> (\<exists>p u. running s = Some p \<and> myproc s = Ok (Some p) u \<and> f p u = Blocked t)"
  by (auto simp: with_myproc_def kbind_eq_Blocked myproc_not_blocked split: option.splits dest: myproc_value) (metis myproc_value)

lemma sched_not_Ok: "sched s \<noteq> Ok x t"
  by (auto simp: sched_def with_myproc_Ok kthen_def kbind_eq_Ok)

lemma pframe_myproc: "myproc s = Ok p t \<Longrightarrow> pframe s t"
  by (rule keepsD(1) [OF pf.keeps_myproc])

lemma pframe_trans: "pframe s t \<Longrightarrow> pframe t u \<Longrightarrow> pframe s u"
  by (rule pf.R_trans)

lemma keeps_this_cpu: "keeps pframe (\<lambda>_ _. False) (this_cpu f)"
  unfolding this_cpu_def by (auto intro!: pf.lock_rules)

lemma keeps_proc_get: "keeps pframe (\<lambda>_ _. False) (proc_get i f)"
  unfolding proc_get_def by (rule pf.keeps_kgets)

lemma keeps_sched_checks: "keeps pframe (\<lambda>_ _. False) (sched_checks p)"
  unfolding sched_checks_def by (auto intro!: pf.lock_rules keeps_this_cpu keeps_proc_get)

lemma sched_checks_state: "sched_checks p s = Ok x t \<Longrightarrow> \<not> is_running t p"
  by (auto simp: sched_checks_def kbind_eq_Ok is_running_def split: if_splits)

lemma sched_Blocked:
  assumes "sched s = Blocked t"
  shows "pframe s t \<and> (\<exists>p. running s = Some p \<and> \<not> is_running t p)"
proof -
  have nb: "sched_checks p u \<noteq> Blocked v" for p and u v :: "'a proc_state_scheme"
    using keepsD(2) [OF keeps_sched_checks] by blast
  obtain p u where u: "running s = Some p" "myproc s = Ok (Some p) u" "sched_checks p u = Ok () t"
    using assms nb by (auto simp: sched_def with_myproc_Blocked kthen_def kbind_eq_Blocked kbind_eq_Ok)
  then show ?thesis
    using u(1) pframe_trans [OF pframe_myproc [OF u(2)] keepsD(1) [OF keeps_sched_checks u(3)]] sched_checks_state [OF u(3)]
    by blast
qed

lemma keeps_sched: "keeps run_frame run_blocks (sched :: ('x proc_state_scheme, 'a) K)"
proof (rule keepsI)
  fix s :: "'x proc_state_scheme" and t assume "(sched s :: (_, 'a) outcome) = Blocked t"
  then have "pframe s t \<and> (\<exists>p. running s = Some p \<and> \<not> is_running t p)" by (rule sched_Blocked)
  then show "run_blocks s t" by (auto simp: run_blocks_def pframe_def is_running_def)
qed (simp add: sched_not_Ok)

subsection \<open>Giving up the processor\<close>

definition others :: "nat \<Rightarrow> 'x proc_state_scheme \<Rightarrow> 'x proc_state_scheme \<Rightarrow> bool" where
  "others p s t \<longleftrightarrow> ctl s t \<and> length (procs t) = length (procs s) \<and> (\<forall>i. i \<noteq> p \<longrightarrow> is_running t i = is_running s i)"

interpretation ofr: vm_frame "others p" "\<lambda>_ _. False" for p
  by unfold_locales (auto simp: others_def is_running_def ctl_def intro!: map_upd_at_id)

lemma others_proc_mod: "keeps (others p) (\<lambda>_ _. False) (proc_mod p f)"
  by (rule keepsI) (auto simp: others_def is_running_def ctl_def)

lemma blocks_after:
  fixes s :: "'x proc_state_scheme"
  assumes "keeps (others p) (\<lambda>_ _. False) m" "running s = Some p"
    "kbind m (\<lambda>_. sched) s = (Blocked t :: ('x proc_state_scheme, 'b) outcome)"
  shows "run_blocks s t"
proof -
  obtain x u where u: "m s = Ok x u" "sched u = (Blocked t :: ('x proc_state_scheme, 'b) outcome)"
    using assms(1,3) keepsD(2) [OF assms(1)] by (auto simp: kbind_eq_Blocked)
  have o: "others p s u" using keepsD(1) [OF assms(1) u(1)] .
  then have "running u = Some p" using assms(2) ctl_running by (fastforce simp: others_def)
  then have "pframe u t" "\<not> is_running t p" using sched_Blocked [OF u(2)] by auto
  then show ?thesis
    using o assms(2) ctl_trans [of s u t] by (auto simp: run_blocks_def others_def pframe_def is_running_def)
qed

definition sleep_prep :: "nat \<Rightarrow> chan option \<Rightarrow> lockid \<Rightarrow> ('x proc_state_scheme, unit) K" where
  "sleep_prep p ch l = kdo [kwhen (l \<noteq> PtableLock) (kdo [acquire PtableLock, release l]),
     proc_mod p (\<lambda>q. q\<lparr>p_chan := ch\<rparr>), proc_mod p (\<lambda>q. q\<lparr>p_state := SLEEPING\<rparr>)]"

lemma sleep_split: "sleep ch l = kbind myproc (\<lambda>p. case p of None \<Rightarrow> kpanic ''sleep'' | Some i \<Rightarrow>
    kbind (sleep_prep i ch l) (\<lambda>_. sched))"
  unfolding sleep_def sleep_prep_def kthen_def ..

lemma others_sleep_prep: "keeps (others p) (\<lambda>_ _. False) (sleep_prep p ch l)"
  unfolding sleep_prep_def
  by (intro ofr.keeps_kdo) (auto intro!: ofr.lock_rules others_proc_mod simp del: kdo.simps)

lemma keeps_sleep: "keeps run_frame run_blocks (sleep ch l :: ('x proc_state_scheme, 'a) K)"
  unfolding sleep_split
proof (rule keepsI)
  let ?f = "\<lambda>p. case p of None \<Rightarrow> kpanic ''sleep'' | Some i \<Rightarrow> kbind (sleep_prep i ch l) (\<lambda>_. sched :: ('x proc_state_scheme, 'a) K)"
  fix s t and x :: 'a
  assume "kbind myproc ?f s = Ok x t"
  then show "run_frame s t" by (auto simp: kbind_eq_Ok sched_not_Ok split: option.splits)
next
  let ?f = "\<lambda>p. case p of None \<Rightarrow> kpanic ''sleep'' | Some i \<Rightarrow> kbind (sleep_prep i ch l) (\<lambda>_. sched :: ('x proc_state_scheme, 'a) K)"
  fix s t assume "kbind myproc ?f s = Blocked t"
  then obtain q u where q: "myproc s = Ok q u" "?f q u = Blocked t"
    unfolding kbind_eq_Blocked [of myproc] using myproc_not_blocked by blast
  then obtain p where p: "q = Some p" "kbind (sleep_prep p ch l) (\<lambda>_. sched) u = (Blocked t :: (_, 'a) outcome)"
    by (cases q) simp_all
  have r: "running u = Some p"
    using myproc_value [OF q(1)] ctl_running pframe_myproc [OF q(1)] p(1) by (metis pframe_def)
  have "run_blocks u t" by (rule blocks_after [OF others_sleep_prep r p(2)])
  then show "run_blocks s t" using pframe_run [OF pframe_myproc [OF q(1)]] run_frame_blocks by blast
qed

lemma keeps_yield: "keeps run_frame run_blocks yield"
proof (rule keepsI)
  fix s t :: "'x proc_state_scheme" and x assume "yield s = Ok x t"
  then show "run_frame s t" by (auto simp: yield_def kbind_eq_Ok sched_not_Ok)
next
  fix s t :: "'x proc_state_scheme" assume b: "yield s = Blocked t"
  have na: "acquire PtableLock s \<noteq> Blocked t" using keepsD(2) [OF pf.keeps_acquire] by blast
  obtain v where v: "acquire PtableLock s = Ok () v" "kbind (with_myproc (\<lambda>p. proc_mod p (\<lambda>q. q\<lparr>p_state := RUNNABLE\<rparr>))) (\<lambda>_. sched) v = (Blocked t :: (_, unit) outcome)"
    using b na by (auto simp: yield_def kbind_eq_Blocked kbind_eq_Ok sched_not_Ok)
  have rv: "run_frame s v" using pframe_run keepsD(1) [OF pf.keeps_acquire v(1)] by blast
  obtain p u where u: "running v = Some p" "myproc v = Ok (Some p) u"
      "kbind (proc_mod p (\<lambda>q. q\<lparr>p_state := RUNNABLE\<rparr>)) (\<lambda>_. sched) u = (Blocked t :: (_, unit) outcome)"
    using v(2) by (auto simp: kbind_eq_Blocked with_myproc_Blocked with_myproc_Ok)
  have "run_blocks u t"
    by (rule blocks_after [OF others_proc_mod _ u(3)])
      (use u ctl_running pframe_myproc [OF u(2)] in \<open>fastforce simp: pframe_def\<close>)
  then show "run_blocks s t"
    using pframe_run [OF pframe_myproc [OF u(2)]] rv run_frame_blocks by blast
qed

subsection \<open>The other operations\<close>

lemma keeps_with_myproc: "(\<And>p. keeps run_frame run_blocks (f p)) \<Longrightarrow> keeps run_frame run_blocks (with_myproc f)"
  unfolding with_myproc_def by (auto intro!: rf.lock_rules)

lemma run_procs_list:
  fixes f :: "'x proc_state_scheme \<Rightarrow> proc list"
  assumes "\<And>s. length (f s) = length (procs s)"
    and "\<And>s j. j < length (procs s) \<Longrightarrow> (p_state (f s ! j) = RUNNING) = (p_state (procs s ! j) = RUNNING)"
  shows "keeps run_frame run_blocks (kmod (\<lambda>s. s\<lparr>procs := f s\<rparr>))"
proof (rule rf.keeps_kmod)
  fix s :: "'x proc_state_scheme"
  have "is_running (s\<lparr>procs := f s\<rparr>) j = is_running s j" for j
    using assms(1) [of s] assms(2) [of j s] unfolding is_running_def by auto
  then show "run_frame s (s\<lparr>procs := f s\<rparr>)"
    using assms(1) [of s] by (simp add: run_frame_def ctl_def)
qed

lemma run_proc_mod:
  assumes "\<And>q. (p_state (f q) = RUNNING) = (p_state q = RUNNING)"
  shows "keeps run_frame run_blocks (proc_mod i f)"
  unfolding proc_mod_def
  by (rule run_procs_list) (use assms in \<open>simp_all add: nth_upd_at\<close>)

lemma run_procs_map:
  assumes "\<And>s q. (p_state (f s q) = RUNNING) = (p_state q = RUNNING)"
  shows "keeps run_frame run_blocks (kmod (\<lambda>s. s\<lparr>procs := map (f s) (procs s)\<rparr>))"
  by (rule run_procs_list) (use assms in simp_all)

lemma keeps_run_get: "keeps run_frame run_blocks (proc_get i f)"
  unfolding proc_get_def by (rule rf.keeps_kgets)

lemmas run_rules = rf.vm_rules keeps_with_myproc run_proc_mod run_procs_map keeps_run_get keeps_sleep

lemma keeps_wakeup1: "keeps run_frame run_blocks (wakeup1 ch)"
  unfolding wakeup1_def by (rule run_procs_map) auto

lemma keeps_wakeup: "keeps run_frame run_blocks (wakeup ch)"
  unfolding wakeup_def by (auto intro!: rf.lock_rules keeps_wakeup1)

lemma kill_proc_running: "(p_state (kill_proc q) = RUNNING) = (p_state q = RUNNING)"
  by (auto simp: kill_proc_def Let_def)

lemma keeps_kill: "keeps run_frame run_blocks (kill pid)"
  unfolding kill_def by (auto intro!: run_rules simp: kill_proc_running)

lemma keeps_tkill: "keeps run_frame run_blocks (tkill tid)"
  unfolding tkill_def by (auto intro!: run_rules simp: kill_proc_running split: option.splits)

lemma keeps_tsuspend: "keeps run_frame run_blocks tsuspend"
  unfolding tsuspend_def by (auto intro!: run_rules)

lemma keeps_free_stacks: "keeps run_frame run_blocks (free_stacks i)"
  unfolding free_stacks_def by (auto intro!: run_rules)

text \<open>A slot is cleared only after it was seen to hold a zombie.\<close>

lemma run_clear_zombie:
  assumes "p_state (procs s ! i) \<noteq> RUNNING"
  shows "run_frame s (s\<lparr>procs := upd_at i clear_slot (procs s)\<rparr>)"
  using assms by (auto simp: run_frame_def is_running_def ctl_def nth_upd_at clear_slot_def split: if_splits)

definition st_frame :: "'x proc_state_scheme \<Rightarrow> 'x proc_state_scheme \<Rightarrow> bool" where
  "st_frame s t \<longleftrightarrow> ctl s t \<and> map p_state (procs t) = map p_state (procs s)"

interpretation sf: vm_frame st_frame "\<lambda>_ _. False"
  by unfold_locales (simp_all add: st_frame_def ctl_def map_upd_at_id)

lemma map_eq_nth:
  assumes "map g xs = map g ys"
  shows "length xs = length ys" "i < length ys \<Longrightarrow> g (xs ! i) = g (ys ! i)"
proof -
  show l: "length xs = length ys" using assms by (rule map_eq_imp_length_eq)
  assume "i < length ys"
  then have "map g xs ! i = g (xs ! i)" "map g ys ! i = g (ys ! i)" using l by simp_all
  then show "g (xs ! i) = g (ys ! i)" using assms by simp
qed

lemma st_frame_state: "st_frame s t \<Longrightarrow> i < length (procs s) \<Longrightarrow> p_state (procs t ! i) = p_state (procs s ! i)"
  unfolding st_frame_def by (blast intro: map_eq_nth(2))

lemma st_frame_length: "st_frame s t \<Longrightarrow> length (procs t) = length (procs s)"
  unfolding st_frame_def by (blast intro: map_eq_nth(1))

lemma st_frame_run: "st_frame s t \<Longrightarrow> run_frame s t"
  using st_frame_state [of s t] st_frame_length [of s t]
  by (auto simp: run_frame_def is_running_def st_frame_def)

lemma st_proc_mod: "(\<And>q. p_state (f q) = p_state q) \<Longrightarrow> keeps st_frame (\<lambda>_ _. False) (proc_mod i f)"
  unfolding proc_mod_def by (rule sf.keeps_kmod) (auto simp: st_frame_def ctl_def intro!: map_upd_at_id)

lemma st_get: "keeps st_frame (\<lambda>_ _. False) (proc_get i f)"
  unfolding proc_get_def by (rule sf.keeps_kgets)

lemma st_free_stacks: "keeps st_frame (\<lambda>_ _. False) (free_stacks i)"
  unfolding free_stacks_def by (auto intro!: sf.vm_rules st_proc_mod st_get)

text \<open>Collecting a zombie: work that changes no state, then the slot is cleared.\<close>

lemma run_reap:
  assumes m: "keeps st_frame (\<lambda>_ _. False) m" and z: "p_state (procs s ! i) = ZOMBIE" "i < length (procs s)"
    and n: "keeps run_frame run_blocks n"
  shows "keeps_at run_frame run_blocks (kbind m (\<lambda>_. kbind (proc_mod i clear_slot) (\<lambda>_. n))) s"
proof -
  have step: "run_frame s (u\<lparr>procs := upd_at i clear_slot (procs u)\<rparr>)" if u: "m s = Ok x u" for x u
  proof -
    have f: "st_frame s u" using keepsD(1) [OF m u] .
    then have "p_state (procs u ! i) \<noteq> RUNNING" using z st_frame_state by fastforce
    then show ?thesis using run_clear_zombie st_frame_run [OF f] run_frame_trans by blast
  qed
  have "run_frame s t" if t: "kbind m (\<lambda>_. kbind (proc_mod i clear_slot) (\<lambda>_. n)) s = Ok x t" for x t
    using t step keepsD(1) [OF n] run_frame_trans unfolding kbind_eq_Ok proc_mod_run by blast
  moreover have "run_blocks s t" if t: "kbind m (\<lambda>_. kbind (proc_mod i clear_slot) (\<lambda>_. n)) s = Blocked t" for t
    using t step keepsD(2) [OF n] keepsD(2) [OF m] run_frame_blocks
    unfolding kbind_eq_Blocked kbind_eq_Ok proc_mod_run by blast
  ultimately show ?thesis by (simp add: keeps_at_def)
qed

lemma keeps_at_of: "keeps R B m \<Longrightarrow> keeps_at R B m s"
  by (simp add: keeps_at_all)

lemma keeps_at_if: "(b \<Longrightarrow> keeps_at R B m s) \<Longrightarrow> (\<not> b \<Longrightarrow> keeps_at R B n s) \<Longrightarrow> keeps_at R B (if b then m else n) s"
  by simp

lemma keeps_at_kgets: "keeps_at R B (f (g s)) s \<Longrightarrow> keeps_at R B (kbind (kgets g) f) s"
  by (simp add: keeps_at_def)

lemma run_reap_proc:
  assumes m: "keeps st_frame (\<lambda>_ _. False) m" and z: "p_state (procs s ! i) = ZOMBIE"
    and n: "keeps run_frame run_blocks n"
  shows "keeps_at run_frame run_blocks (kbind m (\<lambda>_. kbind (proc_mod i clear_slot) (\<lambda>_. n))) s"
proof (cases "i < length (procs s)")
  case True
  then show ?thesis using run_reap [OF m z _ n] by blast
next
  case False
  have "run_frame u (u\<lparr>procs := upd_at i clear_slot (procs u)\<rparr>)" if "st_frame s u" for u
    using False st_frame_length [OF that] by (simp add: upd_at_def run_frame_basic)
  then have c: "keeps_at run_frame run_blocks (kbind (proc_mod i clear_slot) (\<lambda>_. n)) u" if "st_frame s u" for u
    using that keepsD [OF n] run_frame_trans run_frame_blocks
    unfolding keeps_at_def kbind_eq_Ok kbind_eq_Blocked proc_mod_run by blast
  show ?thesis
    using c keepsD [OF m] st_frame_run run_frame_trans run_frame_blocks
    unfolding keeps_at_def kbind_eq_Ok [of m] kbind_eq_Blocked [of m] by meson
qed

lemma keeps_release_ret: "keeps run_frame run_blocks (kthen [release l] (kret x))"
  by (auto intro!: rf.lock_rules)

lemma keeps_join_loop: "keeps run_frame run_blocks (join_loop i tleader :: ('x proc_state_scheme, int) K)"
  unfolding join_loop_def proc_get_def
proof (rule keeps_with_myproc, rule rf.keeps_kbind, rule rf.keeps_kgets, rule rf.keeps_if,
    rule keeps_release_ret, rule keeps_kgets_bind)
  fix s :: "'x proc_state_scheme"
  let ?m = "\<lambda>jtid. kdo [free_stacks i, proc_mod i (\<lambda>p. p\<lparr>p_pgdir := 0\<rparr>)]"
  have m: "keeps st_frame (\<lambda>_ _. False) (?m jtid)" for jtid
    by (auto intro!: sf.vm_rules st_free_stacks st_proc_mod)
  have e: "kthen [free_stacks i, proc_mod i (\<lambda>p. p\<lparr>p_pgdir := 0\<rparr>), proc_mod i clear_slot, release PtableLock] (kret jtid)
      = kbind (?m jtid) (\<lambda>_. kbind (proc_mod i clear_slot) (\<lambda>_. kthen [release PtableLock] (kret jtid)))" for jtid
    by (simp add: kthen_def kbind_assoc del: kbind_Ok)
  show "keeps_at run_frame run_blocks
    (if p_state (procs s ! i) = ZOMBIE then
       kbind (kgets (\<lambda>s. p_tid (procs s ! i))) (\<lambda>jtid.
         kthen [free_stacks i, proc_mod i (\<lambda>p. p\<lparr>p_pgdir := 0\<rparr>), proc_mod i clear_slot, release PtableLock] (kret jtid))
     else sleep (map_option Ch_proc tleader) PtableLock) s"
    unfolding e
    by (intro keeps_at_if keeps_at_kgets run_reap_proc [OF m _ keeps_release_ret] keeps_at_of [OF keeps_sleep])
qed

lemma keeps_tgkill_scan: "keeps run_frame run_blocks (tgkill_scan pid is)"
proof (induction "is")
  case (Cons i "is")
  have m: "keeps st_frame (\<lambda>_ _. False) (free_stacks i)" by (rule st_free_stacks)
  have e: "kthen [free_stacks i, proc_mod i clear_slot] (tgkill_scan pid is)
      = kbind (free_stacks i) (\<lambda>_. kbind (proc_mod i clear_slot) (\<lambda>_. tgkill_scan pid is))"
    by (simp add: kthen_def kbind_assoc del: kbind_Ok)
  show ?case
    unfolding tgkill_scan.simps e
    by (intro keeps_kgets_bind keeps_at_if run_reap_proc [OF m _ Cons.IH] keeps_at_of [OF Cons.IH]
        keeps_at_of [OF rf.keeps_kret(1)])
qed (simp add: rf.keeps_kret)

lemma keeps_tgkill_loop: "keeps run_frame run_blocks (tgkill_loop cur)"
  unfolding tgkill_loop_def
  by (intro run_rules keeps_tgkill_scan) (auto intro!: run_rules)

lemma keeps_tgkill: "keeps run_frame run_blocks tgkill"
  unfolding tgkill_def
  by (intro run_rules rf.keeps_kthen keeps_tgkill_loop)
    (auto intro!: run_rules simp: tgkill_mark_def Let_def split: if_splits)

lemma keeps_leader_parent: "keeps run_frame run_blocks (leader_parent i)"
  unfolding leader_parent_def by (auto intro!: run_rules)

lemma keeps_wait_scan: "keeps run_frame run_blocks (wait_scan lead is h :: ('x proc_state_scheme, int + bool) K)"
proof (induction "is" arbitrary: h)
  case (Cons i "is")
  let ?m = "\<lambda>p. kdo [kfree (p_kstack p), proc_mod i (\<lambda>p. p\<lparr>p_kstack := 0\<rparr>), freevm (p_pgdir p)]"
  have m: "keeps st_frame (\<lambda>_ _. False) (?m p)" for p
    by (auto intro!: sf.vm_rules st_proc_mod)
  have e: "kthen [kfree (p_kstack p), proc_mod i (\<lambda>p. p\<lparr>p_kstack := 0\<rparr>), freevm (p_pgdir p), proc_mod i clear_slot,
        release PtableLock] (kret (Inl (p_pid p)))
      = kbind (?m p) (\<lambda>_. kbind (proc_mod i clear_slot) (\<lambda>_. kthen [release PtableLock] (kret (Inl (p_pid p)))))" for p
    by (simp add: kthen_def kbind_assoc del: kbind_Ok)
  have z: "keeps_at run_frame run_blocks
     (if p_state (procs s ! i) = ZOMBIE \<and> p_tid (procs s ! i) = - 1
      then kbind (?m (procs s ! i)) (\<lambda>_. kbind (proc_mod i clear_slot) (\<lambda>_. kthen [release PtableLock] (kret (Inl (p_pid (procs s ! i))))))
      else wait_scan lead is True) s" for s :: "'x proc_state_scheme"
    by (intro keeps_at_if run_reap_proc [OF m _ keeps_release_ret] keeps_at_of [OF Cons.IH]) simp
  show ?case
    unfolding wait_scan.simps e
    by (intro rf.keeps_kbind rf.keeps_if keeps_leader_parent Cons.IH keeps_kgets_bind z)
qed (simp add: rf.keeps_kret)

lemma keeps_wait_loop: "keeps run_frame run_blocks (wait_loop cur)"
  unfolding wait_loop_def by (intro run_rules keeps_wait_scan) (auto intro!: run_rules)

lemma keeps_wait: "keeps run_frame run_blocks wait"
  unfolding wait_def by (intro run_rules keeps_wait_loop) (auto intro!: run_rules)

lemma keeps_join: "keeps run_frame run_blocks (join tid)"
  unfolding join_def by (intro run_rules keeps_join_loop) (auto intro!: run_rules)

lemma keeps_sched_return: "keeps run_frame run_blocks (sched_return b)"
  unfolding sched_return_def by (auto intro!: rf.lock_rules rf.keeps_cpu_mod)

lemma keeps_sleep_return: "keeps run_frame run_blocks (sleep_return b l)"
  unfolding sleep_return_def by (auto intro!: run_rules keeps_sched_return)

lemma keeps_switchuvm: "keeps run_frame run_blocks (switchuvm p)"
  unfolding switchuvm_def
  by (auto intro!: run_rules rf.keeps_kmod simp: run_frame_def is_running_def ctl_def)

lemma keeps_growproc: "keeps run_frame run_blocks (growproc n)"
  unfolding growproc_def by (auto intro!: run_rules keeps_switchuvm)

text \<open>Work on a slot that is not running.\<close>

definition idle_frame :: "nat \<Rightarrow> 'x proc_state_scheme \<Rightarrow> 'x proc_state_scheme \<Rightarrow> bool" where
  "idle_frame i s t \<longleftrightarrow> (\<not> is_running s i \<longrightarrow> run_frame s t)"

lemma idle_frame_trans: "idle_frame i s t \<Longrightarrow> idle_frame i t u \<Longrightarrow> idle_frame i s u"
  using run_frame_trans unfolding idle_frame_def run_frame_def by blast

interpretation idf: vm_frame "idle_frame i" "\<lambda>_ _. False" for i
  by unfold_locales (simp_all add: idle_frame_def run_frame_basic idle_frame_trans [unfolded idle_frame_def])

lemma idle_upd:
  assumes "\<And>q. p_state (f q) = RUNNING \<Longrightarrow> p_state q = RUNNING"
  shows "idle_frame i s (s\<lparr>procs := upd_at i f (procs s)\<rparr>)"
  using assms by (auto simp: idle_frame_def run_frame_def is_running_def ctl_def nth_upd_at split: if_splits)

lemma idle_upd_nextpid:
  assumes "idle_frame i s (s\<lparr>procs := x\<rparr>)"
  shows "idle_frame i s (s\<lparr>procs := x, nextpid := n\<rparr>)"
proof -
  have "run_frame s (s\<lparr>procs := x, nextpid := n\<rparr>) = run_frame s (s\<lparr>procs := x\<rparr>)"
    by (simp add: run_frame_def is_running_def ctl_def)
  then show ?thesis using assms by (simp add: idle_frame_def)
qed

lemma keeps_allocproc_found: "keeps (idle_frame i) (\<lambda>_ _. False) (allocproc_found i)"
  unfolding allocproc_found_def proc_mod_def Let_def
  by (auto intro!: idf.vm_rules idf.keeps_kmod idf.R_mem idle_upd idle_upd_nextpid)

lemma keeps_allocproc: "keeps run_frame run_blocks (allocproc :: ('x proc_state_scheme, nat option) K)"
proof -
  have "keeps_at run_frame run_blocks
     (case index_of (\<lambda>p. p_state p = UNUSED) (procs s) of
        None \<Rightarrow> kthen [release PtableLock] (kret None) | Some i \<Rightarrow> allocproc_found i) s"
    for s :: "'x proc_state_scheme"
  proof (cases "index_of (\<lambda>p. p_state p = UNUSED) (procs s)")
    case None
    then show ?thesis using keeps_at_of [OF keeps_release_ret] by simp
  next
    case (Some i)
    then have "\<not> is_running s i" using index_of_SomeD [OF Some] by (simp add: is_running_def)
    then show ?thesis using keeps_allocproc_found [of i] Some by (auto simp: keeps_def keeps_at_def idle_frame_def)
  qed
  then show ?thesis
    unfolding allocproc_def by (intro rf.keeps_kthen keeps_kgets_bind) (auto intro!: rf.lock_rules)
qed

section \<open>The system\<close>

text \<open>
  What a process asks of proc.c, and what it does when the scheduler switches back to it:
  the rest of the call it was switched away in. The continuation is left open, so the
  steps below include every one the code can take. \<open>tresume\<close> is kept apart.
\<close>

datatype kop =
    Op_wakeup "chan option" | Op_kill int | Op_tkill int | Op_alloc | Op_yield
  | Op_sleep "chan option" lockid | Op_suspend | Op_join int | Op_tgkill | Op_wait | Op_grow int

definition drop_result :: "('s, 'a) K \<Rightarrow> ('s, unit) K" where
  "drop_result m = kbind m (\<lambda>_. kret ())"

fun run_kop :: "kop \<Rightarrow> ('x proc_state_scheme, unit) K" where
  "run_kop (Op_wakeup ch) = wakeup ch"
| "run_kop (Op_kill pid) = drop_result (kill pid)"
| "run_kop (Op_tkill tid) = drop_result (tkill tid)"
| "run_kop Op_alloc = drop_result allocproc"
| "run_kop Op_yield = yield"
| "run_kop (Op_sleep ch l) = kthen [acquire l] (sleep ch l)"
| "run_kop Op_suspend = drop_result tsuspend"
| "run_kop (Op_join tid) = drop_result (join tid)"
| "run_kop Op_tgkill = drop_result tgkill"
| "run_kop Op_wait = drop_result wait"
| "run_kop (Op_grow n) = drop_result (growproc n)"

datatype kres =
    Res_release bool | Res_sleep bool lockid | Res_join bool nat "nat option" | Res_tgkill bool nat | Res_wait bool nat

fun run_kres :: "kres \<Rightarrow> ('x proc_state_scheme, unit) K" where
  "run_kres (Res_release b) = yield_return b"
| "run_kres (Res_sleep b l) = kdo [sleep_return b l, release l]"
| "run_kres (Res_join b i l) = drop_result (join_resume b i l)"
| "run_kres (Res_tgkill b i) = drop_result (tgkill_resume b i)"
| "run_kres (Res_wait b i) = drop_result (wait_resume b i)"

lemma keeps_drop: "keeps run_frame run_blocks m \<Longrightarrow> keeps run_frame run_blocks (drop_result m)"
  unfolding drop_result_def by (auto intro!: rf.frame_rules)

lemma keeps_run_kop: "keeps run_frame run_blocks (run_kop k)"
  by (cases k) (auto intro!: keeps_drop keeps_wakeup keeps_kill keeps_tkill keeps_allocproc keeps_yield keeps_sleep
      keeps_tsuspend keeps_join keeps_tgkill keeps_wait keeps_growproc rf.lock_rules)

lemma keeps_run_kres: "keeps run_frame run_blocks (run_kres k)"
  by (cases k) (auto intro!: keeps_drop keeps_sched_return keeps_sleep_return keeps_join_loop keeps_tgkill_loop
      keeps_wait_loop rf.lock_rules simp: yield_return_def join_resume_def tgkill_resume_def wait_resume_def)

text \<open>Execution on processor \<open>c\<close>.\<close>

definition at_cpu :: "nat \<Rightarrow> bool \<Rightarrow> 'x mach_scheme \<Rightarrow> 'x mach_scheme" where
  "at_cpu c i s = s\<lparr>lapic_id := apicid (cpus s ! c), fl_if := i\<rparr>"

text \<open>
  A processor with a process runs an operation; one without runs the scheduler; a processor
  whose scheduler has just switched to a process runs that process's continuation. When a
  process gives up the processor, the scheduler goes on with the slot after it.
\<close>

inductive sys_step :: "'x proc_state_scheme \<times> bool \<Rightarrow> 'x proc_state_scheme \<times> bool \<Rightarrow> bool" where
  call: "c < length (cpus s) \<Longrightarrow> cproc (cpus s ! c) = Some p \<Longrightarrow> run_kop k (at_cpu c i s) = Ok () t \<Longrightarrow>
     sys_step (s, False) (t, False)"
| call_blocks: "c < length (cpus s) \<Longrightarrow> cproc (cpus s ! c) = Some p \<Longrightarrow> run_kop k (at_cpu c i s) = Blocked t \<Longrightarrow>
     scheduler_next p t = Ok r u \<Longrightarrow> sys_step (s, False) (u, r \<noteq> None)"
| schedule: "c < length (cpus s) \<Longrightarrow> cproc (cpus s ! c) = None \<Longrightarrow> scheduler_round (at_cpu c i s) = Ok r u \<Longrightarrow>
     sys_step (s, False) (u, r \<noteq> None)"
| resume: "run_kres k s = Ok () t \<Longrightarrow> sys_step (s, True) (t, False)"
| resume_blocks: "running s = Some p \<Longrightarrow> run_kres k s = Blocked t \<Longrightarrow> scheduler_next p t = Ok r u \<Longrightarrow>
     sys_step (s, True) (u, r \<noteq> None)"

text \<open>Every processor's process is marked running and no process is on two processors.\<close>

definition run_inv :: "'x proc_state_scheme \<Rightarrow> bool" where
  "run_inv s \<longleftrightarrow> distinct (map apicid (cpus s)) \<and> length (procs s) = NPROC
     \<and> (\<forall>c p. c < length (cpus s) \<longrightarrow> cproc (cpus s ! c) = Some p \<longrightarrow> is_running s p)
     \<and> (\<forall>c d p. c < length (cpus s) \<longrightarrow> d < length (cpus s) \<longrightarrow> cproc (cpus s ! c) = Some p
          \<longrightarrow> cproc (cpus s ! d) = Some p \<longrightarrow> c = d)"

lemma mycpu_index_distinct:
  assumes "distinct (map apicid (cpus s))" "c < length (cpus s)" "lapic_id s = apicid (cpus s ! c)"
  shows "mycpu_index s = Some c"
proof -
  obtain d where d: "mycpu_index s = Some d"
    using index_of_exists [OF assms(2), of "\<lambda>k. apicid k = lapic_id s"] assms(3) by (auto simp: mycpu_index_def)
  then have "d < length (cpus s)" "apicid (cpus s ! d) = apicid (cpus s ! c)"
    using index_of_SomeD [of "\<lambda>k. apicid k = lapic_id s" "cpus s" d] assms(3) by (auto simp: mycpu_index_def)
  then have "d = c" using assms(1,2) by (auto simp: distinct_conv_nth)
  then show ?thesis using d by simp
qed

lemma at_cpu_simps [simp]:
  "cpus (at_cpu c i s) = cpus s" "lapic_id (at_cpu c i s) = apicid (cpus s ! c)"
  "procs (at_cpu c i (s' :: 'x proc_state_scheme)) = procs s'"
  "is_running (at_cpu c i s') p = is_running s' p"
  by (simp_all add: at_cpu_def is_running_def)

lemma run_inv_at_cpu:
  assumes "run_inv s" "c < length (cpus s)"
  shows "run_inv (at_cpu c i s)" "mycpu_index (at_cpu c i s) = Some c" "running (at_cpu c i s) = cproc (cpus s ! c)"
proof -
  show "run_inv (at_cpu c i s)" using assms(1) by (simp add: run_inv_def)
  show "mycpu_index (at_cpu c i s) = Some c"
    by (rule mycpu_index_distinct) (use assms in \<open>simp_all add: run_inv_def\<close>)
  then show "running (at_cpu c i s) = cproc (cpus s ! c)" by (simp add: running_def)
qed

lemma run_inv_frame:
  assumes "run_inv s" "run_frame s t"
  shows "run_inv t"
proof -
  have c: "ctl s t" using assms(2) by (simp add: run_frame_def)
  then have "map apicid (cpus t) = map apicid (cpus s)" by (simp add: ctl_def)
  then show ?thesis
    using assms ctl_length [OF c] ctl_cproc [OF c] unfolding run_inv_def run_frame_def by metis
qed

text \<open>The scheduler's half of a switch: the processor's process is marked stopped, and the
  invariant holds once the processor has let go of it.\<close>

definition free_cpu :: "nat \<Rightarrow> 'x mach_scheme \<Rightarrow> 'x mach_scheme" where
  "free_cpu c s = s\<lparr>cpus := upd_at c (\<lambda>k. k\<lparr>cproc := None\<rparr>) (cpus s)\<rparr>"

lemma run_inv_blocks:
  fixes s t :: "'x proc_state_scheme"
  assumes "run_inv s" "run_blocks s t" "mycpu_index s = Some c"
  shows "run_inv (free_cpu c t)" "mycpu_index (free_cpu c t) = Some c" "cproc (cpus (free_cpu c t) ! c) = None"
proof -
  obtain p where p: "ctl s t" "length (procs t) = length (procs s)" "running s = Some p" "\<not> is_running t p"
      "\<forall>i. i \<noteq> p \<longrightarrow> is_running t i = is_running s i"
    using assms(2) by (auto simp: run_blocks_def)
  have c: "c < length (cpus s)" "apicid (cpus s ! c) = lapic_id s" "cproc (cpus s ! c) = Some p"
    using assms(3) p(3) index_of_SomeD [of "\<lambda>k. apicid k = lapic_id s" "cpus s" c]
    by (auto simp: mycpu_index_def running_def)
  have len: "length (cpus t) = length (cpus s)" using ctl_length [OF p(1)] .
  have ap: "map apicid (cpus (free_cpu c t)) = map apicid (cpus s)"
    using p(1) by (simp add: free_cpu_def ctl_def map_upd_at_id)
  have cp: "cproc (cpus (free_cpu c t) ! d) = (if d = c then None else cproc (cpus s ! d))" if "d < length (cpus s)" for d
    using that len ctl_cproc [OF p(1) that] by (simp add: free_cpu_def nth_upd_at)
  show "mycpu_index (free_cpu c t) = Some c"
    using assms(3) ctl_mycpu [OF p(1)] by (simp add: free_cpu_def mycpu_index_def index_of_upd_at)
  show "cproc (cpus (free_cpu c t) ! c) = None" using cp [OF c(1)] by simp
  have r: "is_running (free_cpu c t) i = is_running t i" for i by (simp add: free_cpu_def is_running_def)
  have "is_running (free_cpu c t) q" if q: "d < length (cpus s)" "cproc (cpus (free_cpu c t) ! d) = Some q" for d q
  proof -
    have d: "d \<noteq> c" "cproc (cpus s ! d) = Some q" using cp [OF q(1)] q(2) by (auto split: if_splits)
    then have "q \<noteq> p" using assms(1) c q(1) unfolding run_inv_def by blast
    then show ?thesis using p(5) r d(2) q(1) assms(1) unfolding run_inv_def by blast
  qed
  moreover have "d = e" if "d < length (cpus s)" "e < length (cpus s)"
      "cproc (cpus (free_cpu c t) ! d) = Some q" "cproc (cpus (free_cpu c t) ! e) = Some q" for d e q
    using that cp assms(1) unfolding run_inv_def by (metis option.distinct(1))
  moreover have "length (procs (free_cpu c t)) = NPROC" "length (cpus (free_cpu c t)) = length (cpus s)"
    using p(2) assms(1) len by (simp_all add: free_cpu_def run_inv_def)
  ultimately show "run_inv (free_cpu c t)"
    using assms(1) ap unfolding run_inv_def by metis
qed

text \<open>A processor without a process takes one that is not running.\<close>

lemma run_inv_take:
  fixes s t :: "'x proc_state_scheme"
  assumes inv: "run_inv s" and c: "c < length (cpus s)" "cproc (cpus s ! c) = None"
    and i: "i < NPROC" "\<not> is_running s i"
    and t: "map apicid (cpus t) = map apicid (cpus s)"
      "map cproc (cpus t) = map cproc (upd_at c (\<lambda>k. k\<lparr>cproc := Some i\<rparr>) (cpus s))"
      "procs t = upd_at i (\<lambda>p. p\<lparr>p_state := RUNNING\<rparr>) (procs s)"
  shows "run_inv t"
proof -
  have len: "length (cpus t) = length (cpus s)" using t(1) by (rule map_eq_imp_length_eq)
  have np: "length (procs s) = NPROC" using inv by (simp add: run_inv_def)
  have cp: "cproc (cpus t ! d) = (if d = c then Some i else cproc (cpus s ! d))" if d: "d < length (cpus s)" for d
    using map_eq_nth(2) [OF t(2), of d] d by (simp add: nth_upd_at)
  have r: "is_running t q \<longleftrightarrow> q = i \<or> is_running s q" for q
    using i(1) np by (auto simp: is_running_def t(3) nth_upd_at)
  have other: "q \<noteq> i" if "d < length (cpus s)" "cproc (cpus s ! d) = Some q" for d q
    using that inv i(2) unfolding run_inv_def by blast
  have "is_running t q" if "d < length (cpus s)" "cproc (cpus t ! d) = Some q" for d q
    using that cp [of d] r inv unfolding run_inv_def by (metis option.inject)
  moreover have "d = e" if "d < length (cpus s)" "e < length (cpus s)" "cproc (cpus t ! d) = Some q" "cproc (cpus t ! e) = Some q" for d e q
    using that cp [of d] cp [of e] other inv unfolding run_inv_def by (metis option.inject)
  moreover have "length (procs t) = NPROC" using np t(3) by simp
  ultimately show ?thesis using inv t(1) len unfolding run_inv_def by metis
qed

lemma pframe_switchuvm: "keeps pframe (\<lambda>_ _. False) (switchuvm p)"
  unfolding switchuvm_def
  by (auto intro!: pf.vm_rules pf.keeps_kmod keeps_proc_get simp: pframe_def ctl_def)

lemma scan_inv:
  fixes s t :: "'x proc_state_scheme"
  assumes inv: "run_inv s" and c: "mycpu_index s = Some c" "cproc (cpus s ! c) = None"
    and run: "scheduler_scan k s = Ok r t"
  shows "run_inv t"
proof (cases "index_of (\<lambda>i. k \<le> i \<and> p_state (procs s ! i) = RUNNABLE) [0..<NPROC]")
  case None
  then have "release PtableLock s = Ok () t"
    using run by (auto simp: scheduler_scan_def kthen_def kbind_eq_Ok)
  then show ?thesis using run_inv_frame [OF inv pframe_run] keepsD(1) [OF pf.keeps_release] by blast
next
  case (Some j)
  have j: "j < NPROC" "p_state (procs s ! j) = RUNNABLE"
    using index_of_SomeD [OF Some] by auto
  have cl: "c < length (cpus s)" using c(1) by (auto simp: mycpu_index_def)
  let ?s1 = "s\<lparr>cpus := upd_at c (\<lambda>k. k\<lparr>cproc := Some j\<rparr>) (cpus s)\<rparr>"
  obtain u where u: "switchuvm (Some j) ?s1 = Ok () u" "t = u\<lparr>procs := upd_at j (\<lambda>p. p\<lparr>p_state := RUNNING\<rparr>) (procs u)\<rparr>"
    using run Some c(1)
    by (auto simp: scheduler_scan_def kthen_def kbind_eq_Ok cpu_mod_def dest!: mycpu_value)
  have pf: "pframe ?s1 u" using keepsD(1) [OF pframe_switchuvm u(1)] .
  show ?thesis
    by (rule run_inv_take [OF inv cl c(2) j(1)])
      (use pf u(2) j(2) in \<open>simp_all add: is_running_def pframe_def ctl_def map_upd_at_id\<close>)
qed

lemma next_inv:
  fixes s t u :: "'x proc_state_scheme"
  assumes "run_inv s" "run_blocks s t" "mycpu_index s = Some c" "scheduler_next p t = Ok r u"
  shows "run_inv u"
proof -
  let ?v = "free_cpu c (t\<lparr>cr3 := V2P (kpgdir t)\<rparr>)"
  have m: "mycpu_index t = Some c" using assms(2,3) ctl_mycpu by (fastforce simp: run_blocks_def)
  have b: "run_blocks s (t\<lparr>cr3 := V2P (kpgdir t)\<rparr>)"
  proof -
    have "is_running (t\<lparr>cr3 := x\<rparr>) i = is_running t i" "ctl s (t\<lparr>cr3 := x\<rparr>) = ctl s t" for x i
      by (simp_all add: is_running_def ctl_def)
    then show ?thesis using assms(2) by (simp add: run_blocks_def)
  qed
  have "scheduler_scan (Suc p) ?v = Ok r u"
    using assms(4) m
    by (auto simp: scheduler_next_def scheduler_back_def switchkvm_def kthen_def kbind_eq_Ok cpu_mod_def free_cpu_def
        mycpu_index_def dest!: mycpu_value)
  then show ?thesis using scan_inv run_inv_blocks [OF assms(1) b assms(3)] by blast
qed

lemma sys_step_inv:
  assumes "sys_step a b" "run_inv (fst a)"
  shows "run_inv (fst b)"
  using assms
proof cases
  case (call c s p k i t)
  then show ?thesis
    using run_inv_frame [OF run_inv_at_cpu(1)] keepsD(1) [OF keeps_run_kop] assms(2) by fastforce
next
  case (call_blocks c s p k i t r u)
  then show ?thesis
    using next_inv [OF run_inv_at_cpu(1) keepsD(2) [OF keeps_run_kop] run_inv_at_cpu(2)] assms(2) by fastforce
next
  case (schedule c s i r u)
  have inv: "run_inv (at_cpu c i s)" "mycpu_index (at_cpu c i s) = Some c" "running (at_cpu c i s) = None"
    using run_inv_at_cpu [of s c i] assms(2) schedule by simp_all
  let ?s1 = "(at_cpu c i s)\<lparr>fl_if := True\<rparr>"
  obtain v where v: "acquire PtableLock ?s1 = Ok () v" "scheduler_scan 0 v = Ok r u"
    using schedule by (auto simp: scheduler_round_def kthen_def kbind_eq_Ok sti_def)
  have pf: "pframe (at_cpu c i s) v"
    using keepsD(1) [OF pf.keeps_acquire v(1)] by (simp add: pframe_def ctl_def)
  have "mycpu_index v = Some c" "cproc (cpus v ! c) = None"
    using pf inv(2) schedule ctl_mycpu ctl_cproc unfolding pframe_def by (fastforce)+
  then show ?thesis using scan_inv [OF run_inv_frame [OF inv(1) pframe_run [OF pf]]] v(2) schedule by auto
next
  case (resume k s t)
  then show ?thesis using run_inv_frame keepsD(1) [OF keeps_run_kres] assms(2) by fastforce
next
  case (resume_blocks s p k t r u)
  obtain c where "mycpu_index s = Some c" using resume_blocks by (auto simp: running_def split: option.splits)
  then show ?thesis
    using next_inv [OF _ keepsD(2) [OF keeps_run_kres]] assms(2) resume_blocks by fastforce
qed

section \<open>Properties\<close>


definition idle_slot :: proc where
  "idle_slot = \<lparr>p_sz = 0, p_pgdir = 0, p_kstack = 0, p_state = UNUSED, p_pid = 0, p_tid = 0, p_tstack = 0,
     p_tstackalloc = False, p_parent = None,
     p_tf = tf_at (\<lambda>_. 0) 0, p_context = \<lparr>ctx_edi = 0, ctx_esi = 0, ctx_ebx = 0, ctx_ebp = 0, ctx_eip = 0\<rparr>,
     p_chan = None, p_killed = False, p_ofile = replicate NOFILE None, p_cwd = None, p_name = replicate 16 0\<rparr>"

text \<open>Two processors: the first runs the leader (pid 3) in slot 0, the second its thread (tid 7) in slot 1.\<close>

definition smp_demo :: proc_state where
  "smp_demo = vm_state.extend
     (vm_demo\<lparr>cpus := [\<lparr>apicid = 0, started = True, ncli = 0, intena = False, cproc = Some 0\<rparr>,
                 \<lparr>apicid = 1, started = True, ncli = 0, intena = False, cproc = Some 1\<rparr>]\<rparr>)
     \<lparr>procs = [idle_slot\<lparr>p_state := RUNNING, p_pid := 3, p_tid := - 1\<rparr>,
               idle_slot\<lparr>p_state := RUNNING, p_pid := 3, p_tid := 7, p_parent := Some 0\<rparr>]
              @ replicate 62 idle_slot,
      nextpid = 8, initproc = Some 0, ptable_addr = 0xC800000, forkret_addr = 0, trapret_addr = 0\<rparr>"

lemma smp_demo_inv: "run_inv smp_demo"
  by (auto simp: run_inv_def smp_demo_def vm_state.defs is_running_def less_Suc_eq numeral_2_eq_2)

lemma smp_demo_ok: "lk_ok smp_demo" "held smp_demo = {}" "curproc smp_demo = Some 0" "length (procs smp_demo) = NPROC"
  by (simp_all add: smp_demo_def lk_ok_def held_def curproc_def mycpu_index_def vm_state.defs vm_demo_def mach.defs smp_boot_def)


text \<open>C35: \<open>tresume\<close> makes its target runnable whatever state it is in: with a thread of the caller's
  process found under \<open>tid\<close> and the caller not killed, it returns 0 and the slot is runnable
  and on no channel, also when it was running, dead or not asleep in \<open>tsuspend\<close>.\<close>

theorem tresume_any_state:
  assumes "lk_ok s" "PtableLock \<notin> held s" "curproc s = Some cur" "\<not> p_killed (procs s ! cur)" "tid \<noteq> - 1"
    and "index_of (\<lambda>p. p_tid p = tid \<and> p_pid p = p_pid (procs s ! cur)) (procs s) = Some i"
  shows "\<exists>t. tresume tid s = Ok 0 t \<and> held t = held s
     \<and> procs t = upd_at i (\<lambda>p. p\<lparr>p_state := RUNNABLE, p_chan := None\<rparr>) (procs s)"
  using assms by (auto simp: tresume_def kthen_def comp_def)

theorem tresume_any_state_witness:
  "run_inv smp_demo \<and> (\<exists>t. tresume 7 smp_demo = Ok 0 t \<and> p_state (procs t ! 1) = RUNNABLE)"
proof -
  have f: "index_of (\<lambda>p. p_tid p = 7 \<and> p_pid p = p_pid (procs smp_demo ! 0)) (procs smp_demo) = Some 1"
    "\<not> p_killed (procs smp_demo ! 0)"
    by (simp_all add: smp_demo_def vm_state.defs idle_slot_def)
  obtain t where "tresume 7 smp_demo = Ok 0 t"
      "procs t = upd_at 1 (\<lambda>p. p\<lparr>p_state := RUNNABLE, p_chan := None\<rparr>) (procs smp_demo)"
    using tresume_any_state [OF smp_demo_ok(1) _ smp_demo_ok(3) f(2) _ f(1)] smp_demo_ok(2) by auto
  then show ?thesis using smp_demo_inv smp_demo_ok(4) by simp
qed

end
