(* ===== verification/Xv6_Sleeplock.thy ===== *)
theory Xv6_Sleeplock
  imports Xv6_Sched
begin

text \<open>
  sleeplock.c. Every sleep lock of the kernel belongs to a buffer or to an inode and is named
  by it. \<open>acquiresleep\<close> is the code up to its loop and one round of the loop; when the round
  sleeps the outcome is \<open>Blocked\<close>, and \<open>acquiresleep_resume\<close> is the next round, run when the
  scheduler switches back.
\<close>

record sleeplock =
  sl_locked :: bool
  sl_name :: string
  sl_pid :: int

record sl_state = proc_state +
  slocks :: "slid \<Rightarrow> sleeplock"

definition sl_mod :: "slid \<Rightarrow> (sleeplock \<Rightarrow> sleeplock) \<Rightarrow> ('x sl_state_scheme, unit) K" where
  "sl_mod l f = kmod (\<lambda>s. s\<lparr>slocks := (slocks s)(l := f (slocks s l))\<rparr>)"

definition initsleeplock :: "slid \<Rightarrow> string \<Rightarrow> ('x sl_state_scheme, unit) K" where
  "initsleeplock l name = kdo [initlock (SleepLk l) ''sleep lock'',
     sl_mod l (\<lambda>k. k\<lparr>sl_name := name\<rparr>),
     sl_mod l (\<lambda>k. k\<lparr>sl_locked := False\<rparr>),
     sl_mod l (\<lambda>k. k\<lparr>sl_pid := 0\<rparr>)]"

definition acquiresleep_loop :: "slid \<Rightarrow> ('x sl_state_scheme, unit) K" where
  "acquiresleep_loop l =
     kbind (kgets (\<lambda>s. sl_locked (slocks s l))) (\<lambda>b.
     if b then sleep (Some (Ch_sleeplock l)) (SleepLk l)
     else kdo [sl_mod l (\<lambda>k. k\<lparr>sl_locked := True\<rparr>),
               with_myproc (\<lambda>p. kbind (proc_get p p_pid) (\<lambda>pid. sl_mod l (\<lambda>k. k\<lparr>sl_pid := pid\<rparr>))),
               release (SleepLk l)])"

definition acquiresleep :: "slid \<Rightarrow> ('x sl_state_scheme, unit) K" where
  "acquiresleep l = kthen [acquire (SleepLk l)] (acquiresleep_loop l)"

definition acquiresleep_resume :: "bool \<Rightarrow> slid \<Rightarrow> ('x sl_state_scheme, unit) K" where
  "acquiresleep_resume saved l = kthen [sleep_return saved (SleepLk l)] (acquiresleep_loop l)"

definition releasesleep :: "slid \<Rightarrow> ('x sl_state_scheme, unit) K" where
  "releasesleep l = kdo [acquire (SleepLk l),
     sl_mod l (\<lambda>k. k\<lparr>sl_locked := False\<rparr>),
     sl_mod l (\<lambda>k. k\<lparr>sl_pid := 0\<rparr>),
     wakeup (Some (Ch_sleeplock l)),
     release (SleepLk l)]"

definition holdingsleep :: "slid \<Rightarrow> ('x sl_state_scheme, bool) K" where
  "holdingsleep l = kthen [acquire (SleepLk l)]
     (kbind (kgets (\<lambda>s. sl_locked (slocks s l))) (\<lambda>b.
      kbind (if b then with_myproc (\<lambda>p. kbind (proc_get p p_pid) (\<lambda>pid.
               kgets (\<lambda>s. sl_pid (slocks s l) = pid))) else kret False) (\<lambda>r.
      kthen [release (SleepLk l)] (kret r))))"

section \<open>Frames\<close>

lemma slocks_frame [simp]:
  fixes s :: "'x sl_state_scheme"
  shows "slocks (acquired k s) = slocks s" "slocks (released k s) = slocks s" "slocks (probed s) = slocks s"
    "sl_state.more (acquired k s) = sl_state.more s" "sl_state.more (released k s) = sl_state.more s"
    "sl_state.more (probed s) = sl_state.more s"
  by (simp_all add: acquired_def released_def probed_def Let_def)

lemma lk_ok_slocks [simp]:
  fixes s :: "'x sl_state_scheme"
  shows "lk_ok (s\<lparr>slocks := x\<rparr>) = lk_ok s" "held (s\<lparr>slocks := x\<rparr>) = held s" "curproc (s\<lparr>slocks := x\<rparr>) = curproc s"
  by (simp_all add: lk_ok_def held_def mycpu_index_def curproc_def)

lemma sl_mod_run [simp]: "sl_mod l f s = Ok () (s\<lparr>slocks := (slocks s)(l := f (slocks s l))\<rparr>)"
  by (simp add: sl_mod_def)

section \<open>Runs\<close>

text \<open>The state after the lock is taken, and after it is given up.\<close>

definition taken :: "slid \<Rightarrow> int \<Rightarrow> (slid \<Rightarrow> sleeplock) \<Rightarrow> slid \<Rightarrow> sleeplock" where
  "taken l pid k = k(l := (k l)\<lparr>sl_locked := True, sl_pid := pid\<rparr>)"

definition given_up :: "slid \<Rightarrow> (slid \<Rightarrow> sleeplock) \<Rightarrow> slid \<Rightarrow> sleeplock" where
  "given_up l k = k(l := (k l)\<lparr>sl_locked := False, sl_pid := 0\<rparr>)"

lemma acquiresleep_free:
  fixes s :: "'x sl_state_scheme"
  assumes "lk_ok s" "SleepLk l \<notin> held s" "curproc s = Some p" "\<not> sl_locked (slocks s l)"
  shows "\<exists>t. acquiresleep l s = Ok () t \<and> slocks t = taken l (p_pid (procs s ! p)) (slocks s)
    \<and> procs t = procs s \<and> sl_state.more t = sl_state.more s \<and> lk_ok t \<and> held t = held s \<and> curproc t = Some p"
  using assms by (simp add: acquiresleep_def kthen_def acquiresleep_loop_def taken_def probed_id)

lemma acquiresleep_taken:
  fixes s :: "'x sl_state_scheme"
  assumes "lk_ok s" "held s = {}" "curproc s = Some p" "p < length (procs s)" "sl_locked (slocks s l)"
  shows "\<exists>t. acquiresleep l s = Blocked t \<and> slocks t = slocks s
    \<and> procs t = asleep p (Some (Ch_sleeplock l)) (procs s) \<and> lk_ok t \<and> held t = {PtableLock}"
proof -
  let ?a = "acquired (SleepLk l) s"
  have a: "lk_ok ?a" "held ?a = {SleepLk l}" "curproc ?a = Some p" "p < length (procs ?a)" using assms by simp_all
  have "acquiresleep l s = sleep (Some (Ch_sleeplock l)) (SleepLk l) ?a"
    using assms by (simp add: acquiresleep_def kthen_def acquiresleep_loop_def)
  also have "\<dots> = Blocked ((released (SleepLk l) (acquired PtableLock ?a))\<lparr>procs := asleep p (Some (Ch_sleeplock l)) (procs ?a)\<rparr>)"
    by (rule sleep_run [OF a(1,2) _ a(3,4)]) simp
  finally show ?thesis using a assms(2) by auto
qed

lemma releasesleep_run:
  fixes s :: "'x sl_state_scheme"
  assumes "lk_ok s" "SleepLk l \<notin> held s" "PtableLock \<notin> held s"
  shows "\<exists>t. releasesleep l s = Ok () t \<and> slocks t = given_up l (slocks s)
    \<and> procs t = woken (Some (Ch_sleeplock l)) (procs s) \<and> sl_state.more t = sl_state.more s \<and> lk_ok t \<and> held t = held s \<and> curproc t = curproc s"
  using assms by (simp add: releasesleep_def given_up_def wakeup_run)

lemma holdingsleep_run:
  fixes s :: "'x sl_state_scheme"
  assumes "lk_ok s" "SleepLk l \<notin> held s" "curproc s = Some p"
  shows "\<exists>t. holdingsleep l s = Ok (sl_locked (slocks s l) \<and> sl_pid (slocks s l) = p_pid (procs s ! p)) t
    \<and> slocks t = slocks s \<and> procs t = procs s \<and> sl_state.more t = sl_state.more s \<and> lk_ok t \<and> held t = held s \<and> curproc t = Some p"
  using assms by (cases "sl_locked (slocks s l)") (simp_all add: holdingsleep_def kthen_def probed_id)

text \<open>A process in the kernel with no spin lock held: how the file system code finds the machine.\<close>

definition env :: "nat \<Rightarrow> int \<Rightarrow> 'x sl_state_scheme \<Rightarrow> bool" where
  "env p pid s \<longleftrightarrow> lk_ok s \<and> held s = {} \<and> curproc s = Some p \<and> p < length (procs s) \<and> p_pid (procs s ! p) = pid"

lemma env_slocks [simp]: "env p pid (s\<lparr>slocks := x\<rparr>) = env p pid (s :: 'x sl_state_scheme)"
  by (simp add: env_def)

text \<open>Only the processors, the locks and the process table matter to it.\<close>

lemma env_cong:
  assumes "locks t = locks s" "cpus t = cpus s" "lapic_id t = lapic_id s" "fl_if t = fl_if s" "procs t = procs s"
  shows "env p pid t = env p pid s"
  using assms by (simp add: env_def lk_ok_def held_def curproc_def mycpu_index_def)

lemma acquiresleep_env:
  assumes "env p pid s" "\<not> sl_locked (slocks s l)"
  shows "\<exists>t. acquiresleep l s = Ok () t \<and> env p pid t \<and> slocks t = taken l pid (slocks s)
    \<and> procs t = procs s \<and> sl_state.more t = sl_state.more s"
  using acquiresleep_free [of s l p] assms by (auto simp: env_def)

lemma releasesleep_env:
  assumes "env p pid s"
  shows "\<exists>t. releasesleep l s = Ok () t \<and> env p pid t \<and> slocks t = given_up l (slocks s)
    \<and> procs t = woken (Some (Ch_sleeplock l)) (procs s) \<and> sl_state.more t = sl_state.more s"
  using releasesleep_run [of s l] assms by (auto simp: env_def woken_def)

lemma holdingsleep_env:
  assumes "env p pid s"
  shows "\<exists>t. holdingsleep l s = Ok (sl_locked (slocks s l) \<and> sl_pid (slocks s l) = pid) t \<and> env p pid t
    \<and> slocks t = slocks s \<and> procs t = procs s \<and> sl_state.more t = sl_state.more s"
  using holdingsleep_run [of s l p] assms by (auto simp: env_def)

section \<open>Properties\<close>

text \<open>No process sleeps on a sleep lock that is free.\<close>

definition no_lost_wakeup :: "'x sl_state_scheme \<Rightarrow> bool" where
  "no_lost_wakeup s \<longleftrightarrow> (\<forall>p\<in>set (procs s). \<forall>l. p_state p = SLEEPING \<and> p_chan p = Some (Ch_sleeplock l)
     \<longrightarrow> sl_locked (slocks s l))"

lemma no_lost_wakeup_taken: "no_lost_wakeup s \<Longrightarrow> slocks t = taken l pid (slocks s) \<Longrightarrow> procs t = procs s \<Longrightarrow> no_lost_wakeup t"
  by (auto simp: no_lost_wakeup_def taken_def)

lemma no_lost_wakeup_asleep:
  assumes "no_lost_wakeup s" "slocks t = slocks s" "procs t = asleep p (Some (Ch_sleeplock l)) (procs s)"
    and "sl_locked (slocks s l)"
  shows "no_lost_wakeup t"
  using assms set_upd_at_subset [of p "\<lambda>q. q\<lparr>p_chan := Some (Ch_sleeplock l), p_state := SLEEPING\<rparr>" "procs s"]
  by (fastforce simp: no_lost_wakeup_def asleep_def)

lemma no_lost_wakeup_given_up:
  assumes "no_lost_wakeup s" "slocks t = given_up l (slocks s)" "procs t = woken (Some (Ch_sleeplock l)) (procs s)"
  shows "no_lost_wakeup t"
  using assms by (auto simp: no_lost_wakeup_def given_up_def woken_def split: if_splits)

text \<open>C11: no wakeup of a sleep lock is lost. With no process asleep on a free lock, \<open>acquiresleep\<close> of a
  free lock takes it in the caller's name; of a taken lock it puts the caller to sleep on the lock,
  with its spin lock released and the process table locked; \<open>releasesleep\<close> frees the lock and leaves
  no process asleep on it. After each of them still no process is asleep on a free lock.\<close>

theorem sleeplock_no_lost_wakeup:
  fixes s :: "'x sl_state_scheme"
  assumes "no_lost_wakeup s" "lk_ok s" "held s = {}" "curproc s = Some p" "p < length (procs s)"
  shows "(\<exists>t. (if sl_locked (slocks s l)
      then acquiresleep l s = Blocked t \<and> held t = {PtableLock} \<and> slocks t = slocks s
        \<and> p_state (procs t ! p) = SLEEPING \<and> p_chan (procs t ! p) = Some (Ch_sleeplock l)
      else acquiresleep l s = Ok () t \<and> held t = {} \<and> sl_locked (slocks t l)
        \<and> sl_pid (slocks t l) = p_pid (procs s ! p) \<and> procs t = procs s) \<and> no_lost_wakeup t)
    \<and> (\<exists>t. releasesleep l s = Ok () t \<and> held t = {} \<and> \<not> sl_locked (slocks t l) \<and> no_lost_wakeup t
      \<and> (\<forall>q\<in>set (procs t). \<not> (p_state q = SLEEPING \<and> p_chan q = Some (Ch_sleeplock l))))"
proof (rule conjI)
  show "\<exists>t. (if sl_locked (slocks s l)
      then acquiresleep l s = Blocked t \<and> held t = {PtableLock} \<and> slocks t = slocks s
        \<and> p_state (procs t ! p) = SLEEPING \<and> p_chan (procs t ! p) = Some (Ch_sleeplock l)
      else acquiresleep l s = Ok () t \<and> held t = {} \<and> sl_locked (slocks t l)
        \<and> sl_pid (slocks t l) = p_pid (procs s ! p) \<and> procs t = procs s) \<and> no_lost_wakeup t"
  proof (cases "sl_locked (slocks s l)")
    case True
    with acquiresleep_taken [OF assms(2-5)] no_lost_wakeup_asleep [OF assms(1)] assms(5) show ?thesis
      by (fastforce simp: asleep_def)
  next
    case False
    with acquiresleep_free [OF assms(2) _ assms(4)] no_lost_wakeup_taken [OF assms(1)] assms(3) show ?thesis
      by (fastforce simp: taken_def)
  qed
  show "\<exists>t. releasesleep l s = Ok () t \<and> held t = {} \<and> \<not> sl_locked (slocks t l) \<and> no_lost_wakeup t
      \<and> (\<forall>q\<in>set (procs t). \<not> (p_state q = SLEEPING \<and> p_chan q = Some (Ch_sleeplock l)))"
    using releasesleep_run [OF assms(2), of l] no_lost_wakeup_given_up [OF assms(1)] assms(3)
    by (fastforce simp: given_up_def no_lost_wakeup_def)
qed

definition sl_demo :: sl_state where
  "sl_demo = proc_state.extend smp_demo \<lparr>slocks = \<lambda>_. \<lparr>sl_locked = False, sl_name = ''buffer'', sl_pid = 0\<rparr>\<rparr>"

lemma sl_demo_ok: "lk_ok sl_demo" "held sl_demo = {}" "curproc sl_demo = Some 0" "procs sl_demo = procs smp_demo"
  using smp_demo_ok by (simp_all add: sl_demo_def proc_state.defs lk_ok_def held_def curproc_def mycpu_index_def)

theorem sleeplock_no_lost_wakeup_witness:
  "\<exists>t. acquiresleep (SL_buf 2) sl_demo = Ok () t \<and> sl_pid (slocks t (SL_buf 2)) = 3 \<and> no_lost_wakeup t"
proof -
  have n: "no_lost_wakeup sl_demo"
    by (auto simp: no_lost_wakeup_def sl_demo_ok smp_demo_def vm_state.defs idle_slot_def)
  have p: "0 < length (procs sl_demo)" "p_pid (procs sl_demo ! 0) = 3" "\<not> sl_locked (slocks sl_demo (SL_buf 2))"
    by (simp_all add: sl_demo_ok smp_demo_ok) (simp_all add: smp_demo_def vm_state.defs sl_demo_def proc_state.defs)
  from sleeplock_no_lost_wakeup [OF n sl_demo_ok(1-3) p(1), of "SL_buf 2"] p(2,3) show ?thesis by auto
qed

end
