(* ===== verification/Xv6_Bio.thy ===== *)
theory Xv6_Bio
  imports Xv6_Sleeplock
begin

text \<open>
  bio.c over the in-memory disk of memide.c. The buffers form a doubly linked list through
  \<open>prev\<close> and \<open>next\<close>, kept here as the two pointer maps of the code; the list they represent, most
  recently used first, is the abstraction. The two bits of \<open>flags\<close> are two booleans. The disk
  is its initial image and the writes made to it, newest first: what a crash leaves is the
  image with some older part of the writes.
\<close>

abbreviation (input) BSIZE :: nat where "BSIZE \<equiv> 512"

datatype bref = BHead | BBuf nat

record buf =
  b_valid :: bool
  b_dirty :: bool
  b_dev :: uint
  b_blockno :: uint
  b_refcnt :: uint
  b_data :: "uchar list"

record buf_state = sl_state +
  bufs :: "buf list"
  bprev :: "bref \<Rightarrow> bref"
  bnext :: "bref \<Rightarrow> bref"
  disk_image :: "uint \<Rightarrow> uchar list"
  disk_writes :: "(uint \<times> uchar list) list"
  disksize :: uint

definition disk_of :: "(uint \<Rightarrow> uchar list) \<Rightarrow> (uint \<times> uchar list) list \<Rightarrow> uint \<Rightarrow> uchar list" where
  "disk_of img ws b = (case map_of ws b of Some d \<Rightarrow> d | None \<Rightarrow> img b)"

abbreviation disk :: "'x buf_state_scheme \<Rightarrow> uint \<Rightarrow> uchar list" where
  "disk s \<equiv> disk_of (disk_image s) (disk_writes s)"

definition buf_mod :: "nat \<Rightarrow> (buf \<Rightarrow> buf) \<Rightarrow> ('x buf_state_scheme, unit) K" where
  "buf_mod i f = kmod (\<lambda>s. s\<lparr>bufs := upd_at i f (bufs s)\<rparr>)"

definition buf_get :: "nat \<Rightarrow> (buf \<Rightarrow> 'a) \<Rightarrow> ('x buf_state_scheme, 'a) K" where
  "buf_get i f = kgets (\<lambda>s. f (bufs s ! i))"

section \<open>memide.c\<close>

text \<open>\<open>img\<close> is \<open>_binary_fs_img_start\<close> as blocks and \<open>img_size\<close> its size in bytes.\<close>

definition ideinit :: "(uint \<Rightarrow> uchar list) \<Rightarrow> uint \<Rightarrow> ('x buf_state_scheme, unit) K" where
  "ideinit img img_size = kdo [kmod (\<lambda>s. s\<lparr>disk_image := img, disk_writes := []\<rparr>),
     kmod (\<lambda>s. s\<lparr>disksize := img_size div 512\<rparr>)]"

definition iderw :: "nat \<Rightarrow> ('x buf_state_scheme, unit) K" where
  "iderw i =
     kbind (holdingsleep (SL_buf i)) (\<lambda>h.
     if \<not> h then kpanic ''iderw: buf not locked''
     else kbind (kgets (\<lambda>s. bufs s ! i)) (\<lambda>b.
       if b_valid b \<and> \<not> b_dirty b then kpanic ''iderw: nothing to do''
       else if b_dev b \<noteq> 1 then kpanic ''iderw: request not for disk 1''
       else kbind (kgets disksize) (\<lambda>sz.
         if b_blockno b \<ge> sz then kpanic ''iderw: block out of range''
         else kdo [
           if b_dirty b then kdo [buf_mod i (\<lambda>b. b\<lparr>b_dirty := False\<rparr>),
              kmod (\<lambda>s. s\<lparr>disk_writes := (b_blockno b, b_data b) # disk_writes s\<rparr>)]
           else kmod (\<lambda>s. s\<lparr>bufs := upd_at i (\<lambda>q. q\<lparr>b_data := disk s (b_blockno b)\<rparr>) (bufs s)\<rparr>),
           buf_mod i (\<lambda>b. b\<lparr>b_valid := True\<rparr>)])))"

section \<open>bio.c\<close>

definition set_next :: "bref \<Rightarrow> bref \<Rightarrow> ('x buf_state_scheme, unit) K" where
  "set_next a b = kmod (\<lambda>s. s\<lparr>bnext := (bnext s)(a := b)\<rparr>)"

definition set_prev :: "bref \<Rightarrow> bref \<Rightarrow> ('x buf_state_scheme, unit) K" where
  "set_prev a b = kmod (\<lambda>s. s\<lparr>bprev := (bprev s)(a := b)\<rparr>)"

definition binit :: "('x buf_state_scheme, unit) K" where
  "binit = kdo [initlock BcacheLock ''bcache'',
     set_prev BHead BHead,
     set_next BHead BHead,
     keach (\<lambda>i. kdo [
       kbind (kgets (\<lambda>s. bnext s BHead)) (set_next (BBuf i)),
       set_prev (BBuf i) BHead,
       initsleeplock (SL_buf i) ''buffer'',
       kbind (kgets (\<lambda>s. bnext s BHead)) (\<lambda>n. set_prev n (BBuf i)),
       set_next BHead (BBuf i)]) [0..<NBUF]]"

text \<open>A walk along one of the two chains, from \<open>r\<close> to the head, to the first buffer with \<open>P\<close>.\<close>

primrec bscan :: "nat \<Rightarrow> (bref \<Rightarrow> bref) \<Rightarrow> (nat \<Rightarrow> bool) \<Rightarrow> bref \<Rightarrow> ('s, nat option) K" where
  "bscan 0 lnk P r = kspin"
| "bscan (Suc n) lnk P r = (case r of BHead \<Rightarrow> kret None
     | BBuf i \<Rightarrow> if P i then kret (Some i) else bscan n lnk P (lnk r))"

definition bget :: "uint \<Rightarrow> uint \<Rightarrow> ('x buf_state_scheme, nat) K" where
  "bget dev blockno = kthen [acquire BcacheLock]
     (kbind (kgets id) (\<lambda>s.
      kbind (bscan (Suc NBUF) (bnext s) (\<lambda>i. b_dev (bufs s ! i) = dev \<and> b_blockno (bufs s ! i) = blockno)
               (bnext s BHead)) (\<lambda>cached.
      case cached of
        Some i \<Rightarrow> kthen [buf_mod i (\<lambda>b. b\<lparr>b_refcnt := b_refcnt b + 1\<rparr>),
                         release BcacheLock,
                         acquiresleep (SL_buf i)] (kret i)
      | None \<Rightarrow>
        kbind (bscan (Suc NBUF) (bprev s) (\<lambda>i. b_refcnt (bufs s ! i) = 0 \<and> \<not> b_dirty (bufs s ! i))
                 (bprev s BHead)) (\<lambda>unused.
        case unused of
          Some i \<Rightarrow> kthen [buf_mod i (\<lambda>b. b\<lparr>b_dev := dev\<rparr>),
                           buf_mod i (\<lambda>b. b\<lparr>b_blockno := blockno\<rparr>),
                           buf_mod i (\<lambda>b. b\<lparr>b_valid := False, b_dirty := False\<rparr>),
                           buf_mod i (\<lambda>b. b\<lparr>b_refcnt := 1\<rparr>),
                           release BcacheLock,
                           acquiresleep (SL_buf i)] (kret i)
        | None \<Rightarrow> kpanic ''bget: no buffers''))))"

definition bread :: "uint \<Rightarrow> uint \<Rightarrow> ('x buf_state_scheme, nat) K" where
  "bread dev blockno =
     kbind (bget dev blockno) (\<lambda>i.
     kbind (buf_get i b_valid) (\<lambda>v.
     kthen [kwhen (\<not> v) (iderw i)] (kret i)))"

definition bwrite :: "nat \<Rightarrow> ('x buf_state_scheme, unit) K" where
  "bwrite i =
     kbind (holdingsleep (SL_buf i)) (\<lambda>h.
     if \<not> h then kpanic ''bwrite''
     else kdo [buf_mod i (\<lambda>b. b\<lparr>b_dirty := True\<rparr>), iderw i])"

definition brelse :: "nat \<Rightarrow> ('x buf_state_scheme, unit) K" where
  "brelse i =
     kbind (holdingsleep (SL_buf i)) (\<lambda>h.
     if \<not> h then kpanic ''brelse''
     else kdo [releasesleep (SL_buf i),
       acquire BcacheLock,
       buf_mod i (\<lambda>b. b\<lparr>b_refcnt := b_refcnt b - 1\<rparr>),
       kbind (buf_get i b_refcnt) (\<lambda>r. kwhen (r = 0) (kdo [
         kbind (kgets (\<lambda>s. (bnext s (BBuf i), bprev s (BBuf i)))) (\<lambda>(n, p). set_prev n p),
         kbind (kgets (\<lambda>s. (bprev s (BBuf i), bnext s (BBuf i)))) (\<lambda>(p, n). set_next p n),
         kbind (kgets (\<lambda>s. bnext s BHead)) (set_next (BBuf i)),
         set_prev (BBuf i) BHead,
         kbind (kgets (\<lambda>s. bnext s BHead)) (\<lambda>n. set_prev n (BBuf i)),
         set_next BHead (BBuf i)])),
       release BcacheLock])"

section \<open>The list the pointers represent\<close>

text \<open>\<open>links f a xs b\<close>: following \<open>f\<close> from \<open>a\<close> visits the buffers \<open>xs\<close> and then reaches \<open>b\<close>.\<close>

primrec links :: "(bref \<Rightarrow> bref) \<Rightarrow> bref \<Rightarrow> nat list \<Rightarrow> bref \<Rightarrow> bool" where
  "links f a [] b \<longleftrightarrow> f a = b"
| "links f a (x # xs) b \<longleftrightarrow> f a = BBuf x \<and> links f (BBuf x) xs b"

definition dll :: "(bref \<Rightarrow> bref) \<Rightarrow> (bref \<Rightarrow> bref) \<Rightarrow> nat list \<Rightarrow> bool" where
  "dll nx pv xs \<longleftrightarrow> distinct xs \<and> links nx BHead xs BHead \<and> links pv BHead (rev xs) BHead"

lemma links_append:
  "links f a (xs @ y # ys) b \<longleftrightarrow> links f a xs (BBuf y) \<and> links f (BBuf y) ys b"
  by (induction xs arbitrary: a) auto

lemma links_upd_other: "c \<noteq> a \<Longrightarrow> c \<notin> BBuf ` set xs \<Longrightarrow> links (f(c := d)) a xs b = links f a xs b"
  by (induction xs arbitrary: a) auto

text \<open>Redirecting the last pointer of a lnk.\<close>

lemma links_retarget:
  assumes "links f a xs b" "distinct xs" "a \<notin> BBuf ` set xs"
  shows "links (f(last (a # map BBuf xs) := d)) a xs d"
  using assms
proof (induction xs arbitrary: a)
  case Nil
  then show ?case by simp
next
  case (Cons x xs)
  have n: "BBuf x \<notin> BBuf ` set xs" using Cons.prems(2) by auto
  have "last (BBuf x # map BBuf xs) \<noteq> a" using Cons.prems(3) by (auto simp: last_map)
  then show ?case using Cons.IH [OF _ _ n] Cons.prems by auto
qed

lemma links_last: "links f a xs b \<Longrightarrow> f (last (a # map BBuf xs)) = b"
  by (induction xs arbitrary: a) (auto split: if_splits)

lemma bscan_links:
  assumes "links f a xs BHead" "length xs < n"
  shows "bscan n f P (f a) s = Ok (find P xs) s"
  using assms
proof (induction xs arbitrary: a n)
  case Nil
  then show ?case by (cases n) auto
next
  case (Cons x xs)
  then show ?case by (cases n) auto
qed

lemma links_first: "links f a xs b \<Longrightarrow> f a = hd (map BBuf xs @ [b])"
  by (cases xs) auto

lemma links_remove:
  assumes "links f a (ys @ i # zs) b" "distinct (ys @ i # zs)" "a \<notin> BBuf ` set (ys @ i # zs)"
  shows "links (f(last (a # map BBuf ys) := f (BBuf i))) a (ys @ zs) b"
proof -
  let ?k = "last (a # map BBuf ys)"
  have l: "links f a ys (BBuf i)" "links f (BBuf i) zs b" using assms(1) by (simp_all add: links_append)
  have k: "?k \<notin> BBuf ` set zs" using assms(2,3) by (cases ys rule: rev_cases) auto
  have r: "links (f(?k := d)) a ys d" for d by (rule links_retarget [OF l(1)]) (use assms in auto)
  show ?thesis
  proof (cases zs)
    case Nil
    then show ?thesis using r [of b] l(2) by simp
  next
    case (Cons z zs')
    then have "f (BBuf i) = BBuf z" "links f (BBuf z) zs' b" using l(2) by simp_all
    moreover have "links (f(?k := d)) (BBuf z) zs' b = links f (BBuf z) zs' b" for d
      by (rule links_upd_other) (use k Cons in auto)
    ultimately show ?thesis using r [of "BBuf z"] Cons by (simp add: links_append del: last.simps)
  qed
qed

lemma dll_neighbours:
  assumes "dll nx pv (ys @ i # zs)"
  shows "pv (BBuf i) = last (BHead # map BBuf ys)" "nx (BBuf i) = last (BHead # map BBuf (rev zs))"
proof -
  have "links pv (BBuf i) (rev ys) BHead" "links nx (BBuf i) zs BHead"
    using assms by (simp_all add: dll_def links_append)
  then show "pv (BBuf i) = last (BHead # map BBuf ys)" "nx (BBuf i) = last (BHead # map BBuf (rev zs))"
    by (auto dest!: links_first simp: hd_append hd_map hd_rev last_map last_rev split: if_splits)
qed

lemma dll_remove:
  assumes "dll nx pv (ys @ i # zs)"
  shows "dll (nx(pv (BBuf i) := nx (BBuf i))) (pv(nx (BBuf i) := pv (BBuf i))) (ys @ zs)"
proof -
  have d: "distinct (ys @ i # zs)" "distinct (rev zs @ i # rev ys)" using assms by (auto simp: dll_def)
  have n: "links (nx(last (BHead # map BBuf ys) := nx (BBuf i))) BHead (ys @ zs) BHead"
    by (rule links_remove [OF _ d(1)]) (use assms in \<open>auto simp: dll_def\<close>)
  have p: "links (pv(last (BHead # map BBuf (rev zs)) := pv (BBuf i))) BHead (rev zs @ rev ys) BHead"
    by (rule links_remove [OF _ d(2)]) (use assms in \<open>auto simp: dll_def\<close>)
  show ?thesis
    using n p d(1) dll_neighbours [OF assms] by (auto simp: dll_def)
qed

lemma dll_front:
  assumes "dll nx pv xs" "i \<notin> set xs"
  shows "dll (nx(BBuf i := nx BHead, BHead := BBuf i)) (pv(BBuf i := BHead, nx BHead := BBuf i)) (i # xs)"
proof -
  have l: "links nx BHead xs BHead" "links pv BHead (rev xs) BHead" "distinct xs" using assms by (simp_all add: dll_def)
  have n: "links (nx(BBuf i := nx BHead, BHead := BBuf i)) (BBuf i) xs BHead"
  proof (cases xs)
    case (Cons x xs')
    then have "links (nx(BBuf i := BBuf x, BHead := BBuf i)) (BBuf x) xs' BHead = links nx (BBuf x) xs' BHead"
      using assms(2) by (simp add: links_upd_other image_iff)
    then show ?thesis using l(1) Cons assms(2) by simp
  qed (use l(1) in simp)
  have h: "nx BHead = last (BHead # map BBuf (rev xs))"
    using links_first [OF l(1)] by (auto simp: hd_append hd_map last_map last_rev)
  have "links (pv(BBuf i := BHead)) BHead (rev xs) BHead"
    using l(2) assms(2) by (subst links_upd_other) auto
  then have "links (pv(BBuf i := BHead, nx BHead := BBuf i)) BHead (rev xs) (BBuf i)"
    unfolding h by (rule links_retarget) (use l(3) in auto)
  moreover have "nx BHead \<noteq> BBuf i" using h assms(2) by (auto simp: last_map last_rev)
  ultimately show ?thesis using n l(3) assms(2) by (simp add: dll_def links_append)
qed

text \<open>What \<open>brelse\<close> does to the pointers is a move to the front of the list.\<close>

lemma dll_move_front:
  assumes "dll nx pv (ys @ i # zs)"
  defines "nx' \<equiv> nx(pv (BBuf i) := nx (BBuf i))" and "pv' \<equiv> pv(nx (BBuf i) := pv (BBuf i))"
  shows "dll (nx'(BBuf i := nx' BHead, BHead := BBuf i)) (pv'(BBuf i := BHead, nx' BHead := BBuf i)) (i # ys @ zs)"
  unfolding nx'_def pv'_def
  by (rule dll_front [OF dll_remove [OF assms(1)]]) (use assms(1) in \<open>auto simp: dll_def\<close>)

section \<open>Frames\<close>

text \<open>The part of the state that belongs to the cache, and the part beyond it.\<close>

definition ptrs :: "'x buf_state_scheme \<Rightarrow> (bref \<Rightarrow> bref) \<times> (bref \<Rightarrow> bref)" where
  "ptrs s = (bnext s, bprev s)"

definition disk_part :: "'x buf_state_scheme \<Rightarrow> (uint \<Rightarrow> uchar list) \<times> (uint \<times> uchar list) list \<times> uint \<times> 'x" where
  "disk_part s = (disk_image s, disk_writes s, disksize s, buf_state.more s)"

lemma more_bufs:
  assumes "sl_state.more t = sl_state.more (s :: 'x buf_state_scheme)"
  shows "bufs t = bufs s" "ptrs t = ptrs s" "disk_part t = disk_part s"
  using assms by (cases s; cases t; simp add: ptrs_def disk_part_def)+

lemma more_bufsD:
  "sl_state.more t = sl_state.more (s :: 'x buf_state_scheme) \<Longrightarrow>
   bufs t = bufs s \<and> ptrs t = ptrs s \<and> disk_part t = disk_part s"
  using more_bufs by blast

lemma disk_part_eq:
  assumes "disk_part t = disk_part s"
  shows "disk_image t = disk_image s" "disk_writes t = disk_writes s" "disksize t = disksize s"
    "buf_state.more t = buf_state.more s"
  using assms by (simp_all add: disk_part_def)

lemma buf_frame [simp]:
  fixes s :: "'x buf_state_scheme"
  shows "bufs (acquired k s) = bufs s" "bufs (released k s) = bufs s" "ptrs (acquired k s) = ptrs s"
    "ptrs (released k s) = ptrs s" "disk_part (acquired k s) = disk_part s" "disk_part (released k s) = disk_part s"
    "ptrs (s\<lparr>bufs := x\<rparr>) = ptrs s" "disk_part (s\<lparr>bufs := x\<rparr>) = disk_part s"
    "bnext (acquired k s) = bnext s" "bprev (acquired k s) = bprev s"
    "bnext (released k s) = bnext s" "bprev (released k s) = bprev s"
  by (simp_all add: acquired_def released_def Let_def ptrs_def disk_part_def)

lemma lk_ok_bufs [simp]:
  fixes s :: "'x buf_state_scheme"
  shows "lk_ok (s\<lparr>bufs := x\<rparr>) = lk_ok s" "held (s\<lparr>bufs := x\<rparr>) = held s" "curproc (s\<lparr>bufs := x\<rparr>) = curproc s"
    "lk_ok (s\<lparr>bnext := n\<rparr>) = lk_ok s" "held (s\<lparr>bnext := n\<rparr>) = held s" "curproc (s\<lparr>bnext := n\<rparr>) = curproc s"
    "lk_ok (s\<lparr>bprev := n\<rparr>) = lk_ok s" "held (s\<lparr>bprev := n\<rparr>) = held s" "curproc (s\<lparr>bprev := n\<rparr>) = curproc s"
    "lk_ok (s\<lparr>disk_writes := w\<rparr>) = lk_ok s" "held (s\<lparr>disk_writes := w\<rparr>) = held s"
    "curproc (s\<lparr>disk_writes := w\<rparr>) = curproc s"
  by (simp_all add: lk_ok_def held_def mycpu_index_def curproc_def)

lemma env_bufs [simp]:
  fixes s :: "'x buf_state_scheme"
  shows "env p pid (s\<lparr>bufs := x\<rparr>) = env p pid s" "env p pid (s\<lparr>disk_writes := w\<rparr>) = env p pid s"
  by (simp_all add: env_def)

lemma buf_run [simp]:
  "buf_mod i f s = Ok () (s\<lparr>bufs := upd_at i f (bufs s)\<rparr>)" "buf_get i g s = Ok (g (bufs s ! i)) s"
  "set_next a b s = Ok () (s\<lparr>bnext := (bnext s)(a := b)\<rparr>)" "set_prev a b s = Ok () (s\<lparr>bprev := (bprev s)(a := b)\<rparr>)"
  by (simp_all add: buf_mod_def buf_get_def set_next_def set_prev_def)

section \<open>The cache invariant\<close>

text \<open>
  No process waits for a buffer (\<open>buf_ok\<close> ties the reference count to the lock), at most one buffer
  holds a block, and a valid buffer that is neither in use nor pinned agrees with the disk.
\<close>

definition lru :: "'x buf_state_scheme \<Rightarrow> nat list \<Rightarrow> bool" where
  "lru s xs \<longleftrightarrow> dll (bnext s) (bprev s) xs \<and> set xs = {..<NBUF} \<and> length (bufs s) = NBUF"

definition in_use :: "'x sl_state_scheme \<Rightarrow> nat \<Rightarrow> bool" where
  "in_use s i = sl_locked (slocks s (SL_buf i))"

definition buf_ok :: "(uint \<Rightarrow> uchar list) \<Rightarrow> uint \<Rightarrow> bool \<Rightarrow> buf \<Rightarrow> bool" where
  "buf_ok d sz used b \<longleftrightarrow>
     (b_valid b \<longrightarrow> b_dev b = 1 \<and> b_blockno b < sz \<and> length (b_data b) = BSIZE) \<and> (b_dirty b \<longrightarrow> b_valid b)
     \<and> (b_valid b \<and> \<not> b_dirty b \<and> \<not> used \<longrightarrow> b_data b = d (b_blockno b))
     \<and> b_refcnt b = (if used then 1 else 0)"

definition bc_ok :: "'x buf_state_scheme \<Rightarrow> bool" where
  "bc_ok s \<longleftrightarrow> (\<exists>xs. lru s xs) \<and> (\<forall>i<NBUF. buf_ok (disk s) (disksize s) (in_use s i) (bufs s ! i))
     \<and> (\<forall>i<NBUF. \<forall>j<NBUF. b_dev (bufs s ! i) = 1 \<longrightarrow> b_dev (bufs s ! j) = 1 \<longrightarrow>
          b_blockno (bufs s ! i) = b_blockno (bufs s ! j) \<longrightarrow> i = j)
     \<and> (\<forall>b. length (disk s b) = BSIZE)"

definition holds_block :: "'x buf_state_scheme \<Rightarrow> nat \<Rightarrow> uint \<Rightarrow> bool" where
  "holds_block s i b \<longleftrightarrow> i < NBUF \<and> b_dev (bufs s ! i) = 1 \<and> b_blockno (bufs s ! i) = b"

text \<open>A block as a reader sees it.\<close>

definition view :: "'x buf_state_scheme \<Rightarrow> uint \<Rightarrow> uchar list" where
  "view s b = (case index_of (\<lambda>x. b_dev x = 1 \<and> b_blockno x = b \<and> b_valid x) (bufs s) of
     Some i \<Rightarrow> b_data (bufs s ! i) | None \<Rightarrow> disk s b)"

lemma lru_scan:
  assumes "lru s xs"
  shows "bscan 31 (bnext s) P (bnext s BHead) t = Ok (find P xs) t"
    "bscan 31 (bprev s) P (bprev s BHead) t = Ok (find P (rev xs)) t"
proof -
  have "length xs = NBUF" using assms distinct_card [of xs] by (simp add: lru_def dll_def)
  then have "length xs < 31" "length (rev xs) < 31" by simp_all
  then show "bscan 31 (bnext s) P (bnext s BHead) t = Ok (find P xs) t"
    "bscan 31 (bprev s) P (bprev s BHead) t = Ok (find P (rev xs)) t"
    using assms unfolding lru_def dll_def by (blast intro: bscan_links)+
qed

section \<open>Runs of the cache operations\<close>

text \<open>The cache's own critical section: the buffers change while \<open>bcache.lock\<close> is held.\<close>

definition under_lock :: "(buf list \<Rightarrow> buf list) \<Rightarrow> 'x buf_state_scheme \<Rightarrow> 'x buf_state_scheme" where
  "under_lock f s = released BcacheLock ((acquired BcacheLock s)\<lparr>bufs := f (bufs s)\<rparr>)"

lemma under_lock_simps [simp]:
  assumes "env p pid s"
  shows "env p pid (under_lock f s)" "bufs (under_lock f s) = f (bufs s)" "ptrs (under_lock f s) = ptrs s"
    "disk_part (under_lock f s) = disk_part s" "slocks (under_lock f s) = slocks s"
  using assms by (simp_all add: under_lock_def env_def)

definition match :: "uint \<Rightarrow> uint \<Rightarrow> buf \<Rightarrow> bool" where
  "match dev blk b \<longleftrightarrow> b_dev b = dev \<and> b_blockno b = blk"

definition recycled :: "uint \<Rightarrow> uint \<Rightarrow> buf \<Rightarrow> buf" where
  "recycled dev blk b = b\<lparr>b_dev := dev, b_blockno := blk, b_valid := False, b_dirty := False, b_refcnt := 1\<rparr>"

definition refer :: "buf \<Rightarrow> buf" where
  "refer b = b\<lparr>b_refcnt := b_refcnt b + 1\<rparr>"

lemma bget_cached:
  assumes "env p pid s" "lru s xs" "find (\<lambda>i. match dev blk (bufs s ! i)) xs = Some i" "\<not> in_use s i"
  shows "\<exists>t. bget dev blk s = Ok i t \<and> env p pid t \<and> slocks t = taken (SL_buf i) pid (slocks s)
    \<and> bufs t = upd_at i refer (bufs s) \<and> ptrs t = ptrs s \<and> disk_part t = disk_part s"
proof -
  let ?u = "under_lock (upd_at i refer) s"
  have l: "lk_ok s" "held s = {}" using assms(1) by (simp_all add: env_def)
  have "bget dev blk s = kbind (acquiresleep (SL_buf i)) (\<lambda>_. kret i) ?u"
    using l assms(3) by (simp add: bget_def kthen_def lru_scan [OF assms(2)] match_def under_lock_def refer_def [abs_def] kbind_assoc)
  then show ?thesis
    using acquiresleep_env [of p pid ?u "SL_buf i"] assms(1,4) by (auto simp: in_use_def dest!: more_bufsD)
qed

lemma bget_recycles:
  assumes "env p pid s" "lru s xs" "find (\<lambda>i. match dev blk (bufs s ! i)) xs = None"
    and "find (\<lambda>i. b_refcnt (bufs s ! i) = 0 \<and> \<not> b_dirty (bufs s ! i)) (rev xs) = Some i" "\<not> in_use s i"
  shows "\<exists>t. bget dev blk s = Ok i t \<and> env p pid t \<and> slocks t = taken (SL_buf i) pid (slocks s)
    \<and> bufs t = upd_at i (recycled dev blk) (bufs s) \<and> ptrs t = ptrs s \<and> disk_part t = disk_part s"
proof -
  let ?u = "under_lock (upd_at i (recycled dev blk)) s"
  have l: "lk_ok s" "held s = {}" using assms(1) by (simp_all add: env_def)
  have "bget dev blk s = kbind (acquiresleep (SL_buf i)) (\<lambda>_. kret i) ?u"
    using l assms(3,4)
    by (simp add: bget_def kthen_def lru_scan [OF assms(2)] match_def under_lock_def recycled_def [abs_def] kbind_assoc comp_def)
  then show ?thesis
    using acquiresleep_env [of p pid ?u "SL_buf i"] assms(1,5) by (auto simp: in_use_def dest!: more_bufsD)
qed

text \<open>With every buffer taken or pinned there is no room: the code panics.\<close>

lemma bget_full:
  assumes "env p pid s" "lru s xs" "find (\<lambda>i. match dev blk (bufs s ! i)) xs = None"
    and "find (\<lambda>i. b_refcnt (bufs s ! i) = 0 \<and> \<not> b_dirty (bufs s ! i)) (rev xs) = None"
  shows "bget dev blk s = Panic ''bget: no buffers''"
proof -
  have l: "lk_ok s" "held s = {}" using assms(1) by (simp_all add: env_def)
  show ?thesis using l assms(3,4) by (simp add: bget_def kthen_def lru_scan [OF assms(2)] match_def)
qed

definition mine :: "int \<Rightarrow> 'x sl_state_scheme \<Rightarrow> nat \<Rightarrow> bool" where
  "mine pid s i \<longleftrightarrow> in_use s i \<and> sl_pid (slocks s (SL_buf i)) = pid"

lemma iderw_read:
  assumes "env p pid s" "mine pid s i" "\<not> b_valid (bufs s ! i)" "\<not> b_dirty (bufs s ! i)"
    and "b_dev (bufs s ! i) = 1" "b_blockno (bufs s ! i) < disksize s"
  shows "\<exists>t. iderw i s = Ok () t \<and> env p pid t \<and> slocks t = slocks s \<and> ptrs t = ptrs s \<and> disk_part t = disk_part s
    \<and> bufs t = upd_at i (\<lambda>b. b\<lparr>b_data := disk s (b_blockno b), b_valid := True\<rparr>) (bufs s)"
proof -
  obtain u where u: "holdingsleep (SL_buf i) s = Ok True u" "env p pid u" "slocks u = slocks s"
      "sl_state.more u = sl_state.more s"
    using holdingsleep_env [OF assms(1), of "SL_buf i"] assms(2) by (auto simp: mine_def in_use_def)
  note m = more_bufs [OF u(4)] disk_part_eq [OF more_bufs(3) [OF u(4)]]
  have "upd_at i ((\<lambda>b. b\<lparr>b_valid := True\<rparr>) \<circ> (\<lambda>q. q\<lparr>b_data := disk s (b_blockno (bufs s ! i))\<rparr>)) (bufs s)
      = upd_at i (\<lambda>b. b\<lparr>b_data := disk s (b_blockno b), b_valid := True\<rparr>) (bufs s)"
    by (simp add: upd_at_def)
  then show ?thesis using u m assms(3-6) by (simp add: iderw_def)
qed

lemma iderw_write:
  assumes "env p pid s" "mine pid s i" "b_dirty (bufs s ! i)"
    and "b_dev (bufs s ! i) = 1" "b_blockno (bufs s ! i) < disksize s"
  shows "\<exists>t. iderw i s = Ok () t \<and> env p pid t \<and> slocks t = slocks s \<and> ptrs t = ptrs s
    \<and> disk_image t = disk_image s \<and> disksize t = disksize s \<and> buf_state.more t = buf_state.more s
    \<and> disk_writes t = (b_blockno (bufs s ! i), b_data (bufs s ! i)) # disk_writes s
    \<and> bufs t = upd_at i (\<lambda>b. b\<lparr>b_dirty := False, b_valid := True\<rparr>) (bufs s)"
proof -
  obtain u where u: "holdingsleep (SL_buf i) s = Ok True u" "env p pid u" "slocks u = slocks s"
      "sl_state.more u = sl_state.more s"
    using holdingsleep_env [OF assms(1), of "SL_buf i"] assms(2) by (auto simp: mine_def in_use_def)
  note m = more_bufs [OF u(4)] disk_part_eq [OF more_bufs(3) [OF u(4)]]
  show ?thesis using u m assms(3-5) by (simp add: iderw_def comp_def ptrs_def)
qed

section \<open>The block interface\<close>

lemma bc_ok_buf: "bc_ok s \<Longrightarrow> i < NBUF \<Longrightarrow> buf_ok (disk s) (disksize s) (in_use s i) (bufs s ! i)"
  by (simp add: bc_ok_def)

lemma bc_ok_length: "bc_ok s \<Longrightarrow> length (bufs s) = NBUF"
  by (auto simp: bc_ok_def lru_def)

lemma bc_ok_unique: "bc_ok s \<Longrightarrow> holds_block s i b \<Longrightarrow> holds_block s j b \<Longrightarrow> i = j"
  by (auto simp: bc_ok_def holds_block_def)

lemma lru_same: "lru s xs \<Longrightarrow> ptrs t = ptrs s \<Longrightarrow> length (bufs t) = length (bufs s) \<Longrightarrow> lru t xs"
  by (simp add: lru_def ptrs_def)

text \<open>One buffer changes: what has to be checked of it for the invariant to hold again.\<close>

lemma bc_ok_step:
  assumes "bc_ok s" "i < NBUF" "bufs t = upd_at i f (bufs s)" "\<exists>xs. lru t xs" "disksize t = disksize s"
    and "\<And>j. j \<noteq> i \<Longrightarrow> in_use t j = in_use s j"
    and "buf_ok (disk t) (disksize t) (in_use t i) (f (bufs s ! i))"
    and "\<And>j. j < NBUF \<Longrightarrow> j \<noteq> i \<Longrightarrow> b_valid (bufs s ! j) \<Longrightarrow>
          disk t (b_blockno (bufs s ! j)) = disk s (b_blockno (bufs s ! j))"
    and "\<And>j. j < NBUF \<Longrightarrow> j \<noteq> i \<Longrightarrow> b_dev (bufs s ! j) = 1 \<Longrightarrow> b_dev (f (bufs s ! i)) = 1 \<Longrightarrow>
          b_blockno (f (bufs s ! i)) \<noteq> b_blockno (bufs s ! j)"
    and "\<And>b. length (disk t b) = BSIZE"
  shows "bc_ok t"
proof -
  have l: "length (bufs s) = NBUF" using bc_ok_length [OF assms(1)] .
  have n: "bufs t ! j = (if j = i then f (bufs s ! i) else bufs s ! j)" if "j < NBUF" for j
    using that l by (simp add: assms(3) nth_upd_at)
  have "buf_ok (disk t) (disksize t) (in_use t j) (bufs t ! j)" if j: "j < NBUF" for j
  proof (cases "j = i")
    case True
    then show ?thesis using n [OF j] assms(7) by simp
  next
    case False
    have "buf_ok (disk s) (disksize s) (in_use s j) (bufs s ! j)" by (rule bc_ok_buf [OF assms(1) j])
    then show ?thesis
      using n [OF j] False assms(5) assms(6) [OF False] assms(8) [OF j False] by (auto simp: buf_ok_def)
  qed
  moreover have "j = k" if "j < NBUF" "k < NBUF" "b_dev (bufs t ! j) = 1" "b_dev (bufs t ! k) = 1"
    "b_blockno (bufs t ! j) = b_blockno (bufs t ! k)" for j k
  proof -
    consider "j = k" | "j \<noteq> i" "k \<noteq> i" | "j = i" "k \<noteq> i" | "j \<noteq> i" "k = i" by blast
    then show ?thesis
    proof cases
      case 2
      then show ?thesis using that n assms(1) by (simp add: bc_ok_def)
    next
      case 3
      then show ?thesis using that n [OF assms(2)] n [OF that(2)] assms(9) [of k] by simp
    next
      case 4
      then show ?thesis using that n [OF assms(2)] n [OF that(1)] assms(9) [of j] by simp
    qed
  qed
  ultimately show ?thesis using assms(4,10) unfolding bc_ok_def by blast
qed

lemma view_holder:
  assumes "bc_ok s" "holds_block s i b" "b_valid (bufs s ! i)"
  shows "view s b = b_data (bufs s ! i)"
proof -
  let ?P = "\<lambda>x. b_dev x = 1 \<and> b_blockno x = b \<and> b_valid x"
  have "i < length (bufs s)" using assms(2) bc_ok_length [OF assms(1)] by (simp add: holds_block_def)
  then obtain j where j: "index_of ?P (bufs s) = Some j"
    using index_of_exists [of i "bufs s" ?P] assms(2,3) by (auto simp: holds_block_def)
  then have "holds_block s j b"
    using index_of_SomeD [OF j] bc_ok_length [OF assms(1)] by (simp add: holds_block_def)
  then have "j = i" using bc_ok_unique [OF assms(1) _ assms(2)] by blast
  then show ?thesis using j by (simp add: view_def)
qed

lemma view_disk:
  assumes "length (bufs s) = NBUF" "\<And>i. holds_block s i b \<Longrightarrow> \<not> b_valid (bufs s ! i)"
  shows "view s b = disk s b"
proof -
  have "index_of (\<lambda>x. b_dev x = 1 \<and> b_blockno x = b \<and> b_valid x) (bufs s) = None"
    using assms by (fastforce simp: index_of_None in_set_conv_nth holds_block_def)
  then show ?thesis by (simp add: view_def)
qed

lemma view_clean:
  assumes "bc_ok s" "\<And>i. holds_block s i b \<Longrightarrow> \<not> in_use s i \<and> \<not> b_dirty (bufs s ! i)"
  shows "view s b = disk s b"
proof (cases "\<exists>i. holds_block s i b \<and> b_valid (bufs s ! i)")
  case True
  then obtain i where i: "holds_block s i b" "b_valid (bufs s ! i)" by blast
  then have "buf_ok (disk s) (disksize s) (in_use s i) (bufs s ! i)"
    using bc_ok_buf [OF assms(1)] by (simp add: holds_block_def)
  then show ?thesis using view_holder [OF assms(1) i] assms(2) [OF i(1)] i by (simp add: buf_ok_def holds_block_def)
next
  case False
  then show ?thesis using view_disk [OF bc_ok_length [OF assms(1)]] by blast
qed

text \<open>A block the changed buffer does not hold looks as before.\<close>

lemma view_step:
  assumes "bc_ok s" "bc_ok t" "bufs t = upd_at i f (bufs s)" "disk t c = disk s c"
    and "holds_block s i c \<Longrightarrow> \<not> b_valid (bufs s ! i)" "holds_block t i c \<Longrightarrow> \<not> b_valid (bufs t ! i)"
  shows "view t c = view s c"
proof (cases "\<exists>j. holds_block s j c \<and> b_valid (bufs s ! j)")
  case True
  then obtain j where j: "holds_block s j c" "b_valid (bufs s ! j)" by blast
  then have "j \<noteq> i" using assms(5) by blast
  then have "bufs t ! j = bufs s ! j" by (simp add: assms(3))
  then show ?thesis using view_holder [OF assms(1) j] view_holder [OF assms(2), of j c] j by (simp add: holds_block_def)
next
  case False
  have "\<not> b_valid (bufs t ! j)" if "holds_block t j c" for j
  proof (cases "j = i")
    case True
    then show ?thesis using assms(6) that by blast
  next
    case 2: False
    then have "bufs t ! j = bufs s ! j" by (simp add: assms(3))
    then show ?thesis using False that by (simp add: holds_block_def)
  qed
  then show ?thesis
    using False assms(4) view_disk [OF bc_ok_length [OF assms(1)]] view_disk [OF bc_ok_length [OF assms(2)]] by metis
qed

lemma in_use_taken [simp]:
  "slocks t = taken (SL_buf i) pid (slocks s) \<Longrightarrow> in_use t j = (j = i \<or> in_use s j)"
  by (simp add: in_use_def taken_def)

lemma in_use_given_up [simp]:
  "slocks t = given_up (SL_buf i) (slocks s) \<Longrightarrow> in_use t j = (j \<noteq> i \<and> in_use s j)"
  by (simp add: in_use_def given_up_def)

lemma mine_taken: "slocks t = taken (SL_buf i) pid (slocks s) \<Longrightarrow> mine pid t i"
  by (simp add: mine_def in_use_def taken_def)

text \<open>There is room for a block: it is cached in a buffer not in use, or some buffer is neither in
  use nor pinned.\<close>

definition room :: "'x buf_state_scheme \<Rightarrow> uint \<Rightarrow> bool" where
  "room s b \<longleftrightarrow> (if \<exists>i. holds_block s i b then \<forall>i. holds_block s i b \<longrightarrow> \<not> in_use s i
     else \<exists>i<NBUF. \<not> in_use s i \<and> \<not> b_dirty (bufs s ! i))"

text \<open>\<open>got s t i b\<close>: from \<open>s\<close> to \<open>t\<close> the caller has obtained buffer \<open>i\<close> for block \<open>b\<close>, and nothing a reader
  can see has changed.\<close>

definition got :: "int \<Rightarrow> 'x buf_state_scheme \<Rightarrow> 'x buf_state_scheme \<Rightarrow> nat \<Rightarrow> uint \<Rightarrow> bool" where
  "got pid s t i b \<longleftrightarrow> i < NBUF \<and> \<not> in_use s i \<and> slocks t = taken (SL_buf i) pid (slocks s)
     \<and> (\<exists>g. bufs t = upd_at i g (bufs s)) \<and> b_dirty (bufs t ! i) = b_dirty (bufs s ! i) \<and> ptrs t = ptrs s
     \<and> disk_part t = disk_part s \<and> holds_block t i b \<and> (b_dirty (bufs s ! i) \<longrightarrow> holds_block s i b)
     \<and> bc_ok t \<and> view t = view s"

lemma find_holder:
  assumes "lru s xs"
  shows "find (\<lambda>i. match 1 b (bufs s ! i)) xs = None \<longleftrightarrow> \<not> (\<exists>i. holds_block s i b)"
    "find (\<lambda>i. match 1 b (bufs s ! i)) xs = Some j \<Longrightarrow> holds_block s j b"
proof -
  show "find (\<lambda>i. match 1 b (bufs s ! i)) xs = None \<longleftrightarrow> \<not> (\<exists>i. holds_block s i b)"
    using assms by (auto simp: find_None_iff lru_def match_def holds_block_def)
  assume "find (\<lambda>i. match 1 b (bufs s ! i)) xs = Some j"
  then have "j \<in> set xs" "match 1 b (bufs s ! j)" by (auto simp: find_Some_iff)
  then show "holds_block s j b" using assms by (auto simp: lru_def match_def holds_block_def)
qed

lemma bget_hit:
  assumes "env p pid s" "bc_ok s" "holds_block s i b" "\<not> in_use s i"
  shows "\<exists>t. bget 1 b s = Ok i t \<and> env p pid t \<and> got pid s t i b"
proof -
  obtain xs where xs: "lru s xs" using assms(2) by (auto simp: bc_ok_def)
  obtain j where j: "find (\<lambda>i. match 1 b (bufs s ! i)) xs = Some j"
    using find_holder(1) [OF xs, of b] assms(3) by blast
  then have "j = i" using find_holder(2) [OF xs j] bc_ok_unique [OF assms(2) _ assms(3)] by blast
  then obtain t where t: "bget 1 b s = Ok i t" "env p pid t" "slocks t = taken (SL_buf i) pid (slocks s)"
      "bufs t = upd_at i refer (bufs s)" "ptrs t = ptrs s" "disk_part t = disk_part s"
    using bget_cached [OF assms(1) xs, of 1 b i] j assms(4) by blast
  note d = disk_part_eq [OF t(6)]
  have i: "i < NBUF" "b_dev (bufs s ! i) = 1" "b_blockno (bufs s ! i) = b" using assms(3) by (simp_all add: holds_block_def)
  have n: "bufs t ! i = refer (bufs s ! i)" using t(4) i(1) bc_ok_length [OF assms(2)] by simp
  have ok: "bc_ok t"
  proof (rule bc_ok_step [OF assms(2) i(1) t(4)])
    show "\<exists>xs. lru t xs" using lru_same [OF xs t(5)] t(4) by auto
    show "buf_ok (disk t) (disksize t) (in_use t i) (refer (bufs s ! i))"
      using bc_ok_buf [OF assms(2) i(1)] assms(4) t(3) d by (auto simp: buf_ok_def refer_def)
    show "b_blockno (refer (bufs s ! i)) \<noteq> b_blockno (bufs s ! j)" if "j < NBUF" "j \<noteq> i" "b_dev (bufs s ! j) = 1" for j
      using that bc_ok_unique [OF assms(2,3), of j] i by (auto simp: holds_block_def refer_def)
  qed (use t(3) d assms(2) in \<open>auto simp: bc_ok_def\<close>)
  have h: "holds_block t i b" using n i by (simp add: holds_block_def refer_def)
  have "view t c = view s c" for c
  proof (cases "c = b \<and> b_valid (bufs s ! i)")
    case True
    then show ?thesis using view_holder [OF ok h] view_holder [OF assms(2,3)] n by (simp add: refer_def)
  next
    case False
    then show ?thesis using n i d by (intro view_step [OF assms(2) ok t(4)]) (auto simp: holds_block_def refer_def)
  qed
  then show ?thesis using t ok h n i(1) assms(3,4) by (auto simp: got_def refer_def)
qed

lemma bget_miss:
  assumes "env p pid s" "bc_ok s" "\<not> (\<exists>i. holds_block s i b)" "k < NBUF" "\<not> in_use s k" "\<not> b_dirty (bufs s ! k)"
  shows "\<exists>i t. bget 1 b s = Ok i t \<and> env p pid t \<and> got pid s t i b"
proof -
  obtain xs where xs: "lru s xs" using assms(2) by (auto simp: bc_ok_def)
  have f: "find (\<lambda>i. match 1 b (bufs s ! i)) xs = None" using find_holder(1) [OF xs] assms(3) by blast
  have k: "k \<in> set (rev xs)" "b_refcnt (bufs s ! k) = 0"
    using xs assms(4,5) bc_ok_buf [OF assms(2,4)] by (auto simp: lru_def buf_ok_def)
  then obtain i where u: "find (\<lambda>i. b_refcnt (bufs s ! i) = 0 \<and> \<not> b_dirty (bufs s ! i)) (rev xs) = Some i"
    using assms(6) by (metis (mono_tags, lifting) find_None_iff not_Some_eq)
  then have i: "i < NBUF" "b_refcnt (bufs s ! i) = 0" "\<not> b_dirty (bufs s ! i)"
    using xs by (auto simp: find_Some_iff lru_def) (metis lessThan_iff nth_mem set_rev length_rev)
  then have nu: "\<not> in_use s i" using bc_ok_buf [OF assms(2) i(1)] by (auto simp: buf_ok_def)
  obtain t where t: "bget 1 b s = Ok i t" "env p pid t" "slocks t = taken (SL_buf i) pid (slocks s)"
      "bufs t = upd_at i (recycled 1 b) (bufs s)" "ptrs t = ptrs s" "disk_part t = disk_part s"
    using bget_recycles [OF assms(1) xs f u nu] by blast
  note d = disk_part_eq [OF t(6)]
  have n: "bufs t ! i = recycled 1 b (bufs s ! i)" using t(4) i(1) bc_ok_length [OF assms(2)] by simp
  have ok: "bc_ok t"
  proof (rule bc_ok_step [OF assms(2) i(1) t(4)])
    show "\<exists>xs. lru t xs" using lru_same [OF xs t(5)] t(4) by auto
    show "buf_ok (disk t) (disksize t) (in_use t i) (recycled 1 b (bufs s ! i))"
      using t(3) by (simp add: buf_ok_def recycled_def)
    show "b_blockno (recycled 1 b (bufs s ! i)) \<noteq> b_blockno (bufs s ! j)" if "j < NBUF" "b_dev (bufs s ! j) = 1" for j
      using that assms(3) by (auto simp: holds_block_def recycled_def)
  qed (use t(3) d assms(2) in \<open>auto simp: bc_ok_def\<close>)
  have "view t c = view s c" for c
  proof (cases "holds_block s i c")
    case True
    have "view s c = disk s c"
      by (rule view_clean [OF assms(2)]) (use bc_ok_unique [OF assms(2) True] nu i(3) in blast)
    moreover have "view t c = disk t c"
    proof (rule view_disk)
      show "length (bufs t) = NBUF" using bc_ok_length [OF ok] .
      show "\<not> b_valid (bufs t ! j)" if "holds_block t j c" for j
        using that n bc_ok_unique [OF assms(2) True, of j] t(4)
        by (cases "j = i") (auto simp: holds_block_def recycled_def)
    qed
    ultimately show ?thesis using d by simp
  next
    case False
    then show ?thesis using n d by (intro view_step [OF assms(2) ok t(4)]) (auto simp: recycled_def)
  qed
  then show ?thesis using t ok n i nu by (auto simp: got_def recycled_def holds_block_def)
qed

lemma bget_law:
  assumes "env p pid s" "bc_ok s" "room s b"
  shows "\<exists>i t. bget 1 b s = Ok i t \<and> env p pid t \<and> got pid s t i b"
  using bget_hit [OF assms(1,2)] bget_miss [OF assms(1,2)] assms(3) by (auto simp: room_def split: if_splits) blast

lemma mine_in_use: "mine pid s i \<Longrightarrow> in_use s i"
  by (simp add: mine_def)

lemma iderw_read_law:
  assumes "env p pid s" "bc_ok s" "mine pid s i" "holds_block s i b" "b < disksize s" "\<not> b_valid (bufs s ! i)"
  shows "\<exists>t. iderw i s = Ok () t \<and> env p pid t \<and> slocks t = slocks s \<and> ptrs t = ptrs s \<and> disk_part t = disk_part s
    \<and> (\<exists>g. bufs t = upd_at i g (bufs s)) \<and> \<not> b_dirty (bufs t ! i) \<and> b_valid (bufs t ! i)
    \<and> holds_block t i b \<and> bc_ok t \<and> view t = view s"
proof -
  obtain xs where xs: "lru s xs" using assms(2) by (auto simp: bc_ok_def)
  have i: "i < NBUF" "b_dev (bufs s ! i) = 1" "b_blockno (bufs s ! i) = b" using assms(4) by (simp_all add: holds_block_def)
  have nd: "\<not> b_dirty (bufs s ! i)" using bc_ok_buf [OF assms(2) i(1)] assms(6) by (auto simp: buf_ok_def)
  let ?g = "\<lambda>x. x\<lparr>b_data := disk s (b_blockno x), b_valid := True\<rparr>"
  obtain t where t: "iderw i s = Ok () t" "env p pid t" "slocks t = slocks s" "ptrs t = ptrs s"
      "disk_part t = disk_part s" "bufs t = upd_at i ?g (bufs s)"
    using iderw_read [OF assms(1,3,6) nd i(2)] assms(5) i(3) by blast
  note d = disk_part_eq [OF t(5)]
  have n: "bufs t ! i = ?g (bufs s ! i)" using t(6) i(1) bc_ok_length [OF assms(2)] by simp
  have u: "in_use t j = in_use s j" for j using t(3) by (simp add: in_use_def)
  have ok: "bc_ok t"
  proof (rule bc_ok_step [OF assms(2) i(1) t(6)])
    show "\<exists>xs. lru t xs" using lru_same [OF xs t(4)] t(6) by auto
    show "buf_ok (disk t) (disksize t) (in_use t i) (?g (bufs s ! i))"
      using bc_ok_buf [OF assms(2) i(1)] assms(2,5) i u d nd by (auto simp: buf_ok_def bc_ok_def)
    show "b_blockno (?g (bufs s ! i)) \<noteq> b_blockno (bufs s ! j)" if "j < NBUF" "j \<noteq> i" "b_dev (bufs s ! j) = 1" for j
      using that bc_ok_unique [OF assms(2,4), of j] i by (auto simp: holds_block_def)
  qed (use u d assms(2) in \<open>auto simp: bc_ok_def\<close>)
  have h: "holds_block t i b" using n i by (simp add: holds_block_def)
  have "view t c = view s c" for c
  proof (cases "c = b")
    case True
    have "view s b = disk s b"
      by (rule view_disk [OF bc_ok_length [OF assms(2)]]) (use bc_ok_unique [OF assms(2,4)] assms(6) in blast)
    then show ?thesis using True view_holder [OF ok h] n i by simp
  next
    case False
    then show ?thesis using h i d assms(4) by (intro view_step [OF assms(2) ok t(6)]) (auto simp: holds_block_def)
  qed
  then show ?thesis using t ok h n nd by auto
qed

text \<open>\<open>bread\<close> returns a locked buffer with the block as a reader sees it.\<close>

lemma bread_law:
  assumes "env p pid s" "bc_ok s" "room s b" "b < disksize s"
  shows "\<exists>i t. bread 1 b s = Ok i t \<and> env p pid t \<and> got pid s t i b \<and> b_valid (bufs t ! i)
    \<and> b_data (bufs t ! i) = view s b"
proof -
  obtain i u where u: "bget 1 b s = Ok i u" "env p pid u" "got pid s u i b" using bget_law [OF assms(1-3)] by blast
  have m: "mine pid u i" using u(3) mine_taken by (auto simp: got_def)
  have g: "bc_ok u" "holds_block u i b" "b < disksize u" "i < NBUF"
    using u(3) assms(4) disk_part_eq [of u s] by (auto simp: got_def)
  show ?thesis
  proof (cases "b_valid (bufs u ! i)")
    case True
    then have "bread 1 b s = Ok i u" using u(1) by (simp add: bread_def kthen_def)
    then show ?thesis using u True view_holder [OF g(1,2) True] by (auto simp: got_def)
  next
    case False
    obtain t where t: "iderw i u = Ok () t" "env p pid t" "slocks t = slocks u" "ptrs t = ptrs u"
        "disk_part t = disk_part u" "\<exists>g. bufs t = upd_at i g (bufs u)" "\<not> b_dirty (bufs t ! i)" "b_valid (bufs t ! i)"
        "holds_block t i b" "bc_ok t" "view t = view u"
      using iderw_read_law [OF u(2) g(1) m g(2,3) False] by blast
    have nd: "\<not> b_dirty (bufs s ! i)"
      using u(3) False bc_ok_buf [OF g(1,4)] by (auto simp: got_def buf_ok_def)
    have "\<exists>g. bufs t = upd_at i g (bufs s)" using t(6) u(3) by (auto simp: got_def)
    then have "got pid s t i b" using t u(3) nd by (simp add: got_def)
    moreover have "bread 1 b s = Ok i t" using u(1) t(1) False by (simp add: bread_def kthen_def)
    ultimately show ?thesis using t view_holder [OF t(10,9,8)] u(3) by (auto simp: got_def)
  qed
qed

lemma disk_of_Cons: "disk_of img ((b, d) # ws) = (disk_of img ws)(b := d)"
  by (rule ext) (simp add: disk_of_def)

text \<open>\<open>bwrite\<close> makes the disk agree with the buffer, by one write.\<close>

lemma bwrite_law:
  assumes "env p pid s" "bc_ok s" "mine pid s i" "holds_block s i b" "b_valid (bufs s ! i)"
  shows "\<exists>t. bwrite i s = Ok () t \<and> env p pid t \<and> slocks t = slocks s \<and> ptrs t = ptrs s
    \<and> disk_image t = disk_image s \<and> disksize t = disksize s \<and> buf_state.more t = buf_state.more s
    \<and> disk_writes t = (b, view s b) # disk_writes s
    \<and> bufs t = upd_at i (\<lambda>x. x\<lparr>b_dirty := False, b_valid := True\<rparr>) (bufs s) \<and> bc_ok t \<and> view t = view s"
proof -
  obtain xs where xs: "lru s xs" using assms(2) by (auto simp: bc_ok_def)
  have i: "i < NBUF" "b_dev (bufs s ! i) = 1" "b_blockno (bufs s ! i) = b" using assms(4) by (simp_all add: holds_block_def)
  have bo: "buf_ok (disk s) (disksize s) (in_use s i) (bufs s ! i)" by (rule bc_ok_buf [OF assms(2) i(1)])
  have len: "length (bufs s) = NBUF" using bc_ok_length [OF assms(2)] .
  obtain u where u: "holdingsleep (SL_buf i) s = Ok True u" "env p pid u" "slocks u = slocks s"
      "sl_state.more u = sl_state.more s"
    using holdingsleep_env [OF assms(1), of "SL_buf i"] assms(3) by (auto simp: mine_def in_use_def)
  note m = more_bufs [OF u(4)] disk_part_eq [OF more_bufs(3) [OF u(4)]]
  let ?v = "u\<lparr>bufs := upd_at i (\<lambda>x. x\<lparr>b_dirty := True\<rparr>) (bufs u)\<rparr>"
  have v: "env p pid ?v" "mine pid ?v i" "bufs ?v ! i = (bufs s ! i)\<lparr>b_dirty := True\<rparr>"
    using u m assms(3) i(1) len by (simp_all add: mine_def in_use_def)
  obtain t where t: "iderw i ?v = Ok () t" "env p pid t" "slocks t = slocks s" "ptrs t = ptrs s"
      "disk_image t = disk_image s" "disksize t = disksize s" "buf_state.more t = buf_state.more s"
      "disk_writes t = (b, b_data (bufs s ! i)) # disk_writes s"
      "bufs t = upd_at i (\<lambda>x. x\<lparr>b_dirty := False, b_valid := True\<rparr>) (bufs ?v)"
    using iderw_write [OF v(1,2)] v(3) u(3) m i bo assms(5) by (auto simp: buf_ok_def)
  have tb: "bufs t = upd_at i (\<lambda>x. x\<lparr>b_dirty := False, b_valid := True\<rparr>) (bufs s)"
    using t(9) m by (simp add: comp_def)
  have n: "bufs t ! i = (bufs s ! i)\<lparr>b_dirty := False, b_valid := True\<rparr>" using tb i(1) len by simp
  have dt: "disk t = (disk s)(b := b_data (bufs s ! i))" using t(5,8) by (simp add: disk_of_Cons)
  have us: "in_use t j = in_use s j" for j using t(3) by (simp add: in_use_def)
  have o: "b_blockno (bufs s ! j) \<noteq> b" if "j < NBUF" "j \<noteq> i" "b_dev (bufs s ! j) = 1" for j
    using that bc_ok_unique [OF assms(2,4), of j] by (auto simp: holds_block_def)
  have ok: "bc_ok t"
  proof (rule bc_ok_step [OF assms(2) i(1) tb])
    show "\<exists>xs. lru t xs" using lru_same [OF xs t(4)] tb by auto
    show "buf_ok (disk t) (disksize t) (in_use t i) ((bufs s ! i)\<lparr>b_dirty := False, b_valid := True\<rparr>)"
      using bo assms(5) i us t(6) dt by (auto simp: buf_ok_def)
    show "disk t (b_blockno (bufs s ! j)) = disk s (b_blockno (bufs s ! j))" if "j < NBUF" "j \<noteq> i" "b_valid (bufs s ! j)" for j
      using that o [OF that(1,2)] bc_ok_buf [OF assms(2) that(1)] dt by (auto simp: buf_ok_def)
    show "length (disk t c) = BSIZE" for c using assms(2,5) bo dt by (auto simp: bc_ok_def buf_ok_def)
    show "b_blockno ((bufs s ! i)\<lparr>b_dirty := False, b_valid := True\<rparr>) \<noteq> b_blockno (bufs s ! j)"
      if "j < NBUF" "j \<noteq> i" "b_dev (bufs s ! j) = 1" for j
      using o [OF that] i(3) by simp
  qed (use us t(6) in auto)
  have h: "holds_block t i b" using n i by (simp add: holds_block_def)
  have "view t c = view s c" for c
  proof (cases "c = b")
    case True
    then show ?thesis using view_holder [OF ok h] view_holder [OF assms(2,4,5)] n by simp
  next
    case False
    then show ?thesis using h i dt assms(4) by (intro view_step [OF assms(2) ok tb]) (auto simp: holds_block_def)
  qed
  then show ?thesis using t u m tb ok view_holder [OF assms(2,4,5)] by (auto simp: bwrite_def)
qed

text \<open>Changing the data of a buffer one has obtained changes the block for later readers.\<close>

lemma buf_data_law:
  assumes "env p pid s" "bc_ok s" "in_use s i" "holds_block s i b" "b_valid (bufs s ! i)" "length d = BSIZE"
  defines "t \<equiv> s\<lparr>bufs := upd_at i (\<lambda>x. x\<lparr>b_data := d\<rparr>) (bufs s)\<rparr>"
  shows "env p pid t" "bc_ok t" "view t = (view s)(b := d)" "holds_block t i b"
proof -
  obtain xs where xs: "lru s xs" using assms(2) by (auto simp: bc_ok_def)
  have i: "i < NBUF" "b_dev (bufs s ! i) = 1" "b_blockno (bufs s ! i) = b" using assms(4) by (simp_all add: holds_block_def)
  have len: "length (bufs s) = NBUF" using bc_ok_length [OF assms(2)] .
  have tb: "bufs t = upd_at i (\<lambda>x. x\<lparr>b_data := d\<rparr>) (bufs s)" by (simp add: t_def)
  have n: "bufs t ! i = (bufs s ! i)\<lparr>b_data := d\<rparr>" using tb i(1) len by simp
  have us: "in_use t j = in_use s j" for j by (simp add: t_def in_use_def)
  show "env p pid t" using assms(1) by (simp add: t_def)
  show h: "holds_block t i b" using n i by (simp add: holds_block_def)
  show ok: "bc_ok t"
  proof (rule bc_ok_step [OF assms(2) i(1) tb])
    show "\<exists>xs. lru t xs" using lru_same [OF xs, of t] tb by (auto simp: t_def)
    show "buf_ok (disk t) (disksize t) (in_use t i) ((bufs s ! i)\<lparr>b_data := d\<rparr>)"
      using bc_ok_buf [OF assms(2) i(1)] assms(3,5,6) us by (auto simp: buf_ok_def t_def)
    show "b_blockno ((bufs s ! i)\<lparr>b_data := d\<rparr>) \<noteq> b_blockno (bufs s ! j)"
      if "j < NBUF" "j \<noteq> i" "b_dev (bufs s ! j) = 1" for j
      using that bc_ok_unique [OF assms(2,4), of j] i by (auto simp: holds_block_def)
  qed (use us assms(2) in \<open>auto simp: bc_ok_def t_def\<close>)
  have "view t c = ((view s)(b := d)) c" for c
  proof (cases "c = b")
    case True
    then show ?thesis using view_holder [OF ok h] n assms(5) by simp
  next
    case False
    then have "view t c = view s c"
      using h i assms(4) by (intro view_step [OF assms(2) ok tb]) (auto simp: holds_block_def t_def)
    then show ?thesis using False by simp
  qed
  then show "view t = (view s)(b := d)" by blast
qed

text \<open>\<open>brelse\<close> gives the buffer up and moves it to the front of the list.\<close>

lemma ptrs_upd [simp]:
  fixes s :: "'x buf_state_scheme"
  shows "disk_part (s\<lparr>bnext := n\<rparr>) = disk_part s" "disk_part (s\<lparr>bprev := n\<rparr>) = disk_part s"
    "slocks (s\<lparr>bnext := n\<rparr>) = slocks s" "slocks (s\<lparr>bprev := n\<rparr>) = slocks s"
  by (simp_all add: disk_part_def)

lemma brelse_run:
  assumes "env p pid s" "mine pid s i" "lru s xs" "i < NBUF" "b_refcnt (bufs s ! i) = 1"
  shows "\<exists>t. brelse i s = Ok () t \<and> env p pid t \<and> slocks t = given_up (SL_buf i) (slocks s)
    \<and> bufs t = upd_at i (\<lambda>b. b\<lparr>b_refcnt := b_refcnt b - 1\<rparr>) (bufs s) \<and> disk_part t = disk_part s
    \<and> lru t (i # remove1 i xs)"
proof -
  obtain u where u: "holdingsleep (SL_buf i) s = Ok True u" "env p pid u" "slocks u = slocks s"
      "sl_state.more u = sl_state.more s"
    using holdingsleep_env [OF assms(1), of "SL_buf i"] assms(2) by (auto simp: mine_def in_use_def)
  obtain v where v: "releasesleep (SL_buf i) u = Ok () v" "env p pid v" "slocks v = given_up (SL_buf i) (slocks s)"
      "sl_state.more v = sl_state.more s"
    using releasesleep_env [OF u(2), of "SL_buf i"] u(3,4) by auto
  note m = more_bufs [OF v(4)]
  have pt: "bnext v = bnext s" "bprev v = bprev s" using m(2) by (simp_all add: ptrs_def)
  have e: "lk_ok v" "held v = {}" "curproc v = Some p" "p < length (procs v)" "p_pid (procs v ! p) = pid"
    using v(2) by (simp_all add: env_def)
  have len: "length (bufs s) = NBUF" "i \<in> set xs" "distinct xs" using assms(3,4) by (auto simp: lru_def dll_def)
  then obtain ys zs where xs: "xs = ys @ i # zs" "i \<notin> set ys" by (meson split_list_first)
  then have r: "remove1 i (ys @ i # zs) = ys @ zs" by (simp add: remove1_append)
  have "set (i # ys @ zs) = {..<NBUF}" using xs(1) assms(3) by (auto simp: lru_def)
  moreover note dll_move_front [of "bnext s" "bprev s" ys i zs]
  ultimately show ?thesis
    using u(1) v(1,3) e m pt assms(3,4,5) len(1) xs(1)
    by (simp add: brelse_def lru_def env_def r fun_upd_def split: if_splits)
qed

lemma brelse_law:
  assumes "env p pid s" "bc_ok s" "mine pid s i" "holds_block s i b" "b_valid (bufs s ! i)"
    and "b_dirty (bufs s ! i) \<or> view s b = disk s b"
  shows "\<exists>t. brelse i s = Ok () t \<and> env p pid t \<and> slocks t = given_up (SL_buf i) (slocks s)
    \<and> bufs t = upd_at i (\<lambda>x. x\<lparr>b_refcnt := b_refcnt x - 1\<rparr>) (bufs s) \<and> disk_part t = disk_part s
    \<and> bc_ok t \<and> view t = view s"
proof -
  let ?g = "\<lambda>x. x\<lparr>b_refcnt := b_refcnt x - 1\<rparr>"
  obtain xs where xs: "lru s xs" using assms(2) by (auto simp: bc_ok_def)
  have i: "i < NBUF" "b_dev (bufs s ! i) = 1" "b_blockno (bufs s ! i) = b" using assms(4) by (simp_all add: holds_block_def)
  have bo: "buf_ok (disk s) (disksize s) (in_use s i) (bufs s ! i)" by (rule bc_ok_buf [OF assms(2) i(1)])
  have r: "b_refcnt (bufs s ! i) = 1" using bo mine_in_use [OF assms(3)] by (simp add: buf_ok_def)
  obtain t where t: "brelse i s = Ok () t" "env p pid t" "slocks t = given_up (SL_buf i) (slocks s)"
      "bufs t = upd_at i ?g (bufs s)" "disk_part t = disk_part s" "lru t (i # remove1 i xs)"
    using brelse_run [OF assms(1,3) xs i(1) r] by blast
  note d = disk_part_eq [OF t(5)]
  have n: "bufs t ! i = ?g (bufs s ! i)" using t(4) i(1) bc_ok_length [OF assms(2)] by simp
  have ok: "bc_ok t"
  proof (rule bc_ok_step [OF assms(2) i(1) t(4)])
    show "\<exists>xs. lru t xs" using t(6) by blast
    show "buf_ok (disk t) (disksize t) (in_use t i) (?g (bufs s ! i))"
      using bo r t(3) d i assms(5,6) view_holder [OF assms(2,4,5)] by (auto simp: buf_ok_def)
    show "b_blockno (?g (bufs s ! i)) \<noteq> b_blockno (bufs s ! j)" if "j < NBUF" "j \<noteq> i" "b_dev (bufs s ! j) = 1" for j
      using that bc_ok_unique [OF assms(2,4), of j] i by (auto simp: holds_block_def)
  qed (use t(3) d assms(2) in \<open>auto simp: bc_ok_def\<close>)
  have h: "holds_block t i b" using n i by (simp add: holds_block_def)
  have "view t c = view s c" for c
  proof (cases "c = b")
    case True
    then show ?thesis using view_holder [OF ok h] view_holder [OF assms(2,4,5)] n assms(5) by simp
  next
    case False
    then show ?thesis using h i d assms(4) by (intro view_step [OF assms(2) ok t(4)]) (auto simp: holds_block_def)
  qed
  then show ?thesis using t ok by auto
qed

section \<open>The interface of the block layer\<close>

text \<open>
  What the layers above rely on. \<open>ok H s\<close>: the process holds the buffers \<open>H\<close>; \<open>blk s i\<close> is the block of
  a held buffer; \<open>seen s\<close> maps blocks to what a reader gets; \<open>pinned s\<close> are the blocks changed in
  memory that must not be evicted; \<open>writes s\<close> is the history of disk writes; \<open>rest s\<close> is what
  the cache does not touch.
\<close>

locale block_cache =
  fixes ok :: "nat set \<Rightarrow> 's \<Rightarrow> bool" and blk :: "'s \<Rightarrow> nat \<Rightarrow> uint" and seen :: "'s \<Rightarrow> uint \<Rightarrow> uchar list"
    and pinned :: "'s \<Rightarrow> uint set" and ondisk :: "'s \<Rightarrow> uint \<Rightarrow> uchar list"
    and writes :: "'s \<Rightarrow> (uint \<times> uchar list) list" and blocks :: "'s \<Rightarrow> uint" and rest :: "'s \<Rightarrow> 'r"
    and rd_blk :: "uint \<Rightarrow> ('s, nat) K" and wr_blk :: "nat \<Rightarrow> ('s, unit) K" and rel_blk :: "nat \<Rightarrow> ('s, unit) K"
    and data :: "'s \<Rightarrow> nat \<Rightarrow> uchar list" and set_data :: "nat \<Rightarrow> uchar list \<Rightarrow> 's \<Rightarrow> 's"
  assumes data_seen: "ok H s \<Longrightarrow> i \<in> H \<Longrightarrow> data s i = seen s (blk s i)"
    and seen_len: "ok H s \<Longrightarrow> length (seen s b) = BSIZE"
    and rd_law: "ok H s \<Longrightarrow> b \<notin> blk s ` H \<Longrightarrow> b < blocks s \<Longrightarrow>
      b \<in> pinned s \<or> card (pinned s \<union> blk s ` H) < NBUF \<Longrightarrow>
      \<exists>i t. rd_blk b s = Ok i t \<and> i \<notin> H \<and> ok (insert i H) t \<and> blk t i = b \<and> (\<forall>j\<in>H. blk t j = blk s j)
        \<and> seen t = seen s \<and> pinned t = pinned s \<and> ondisk t = ondisk s \<and> writes t = writes s
        \<and> blocks t = blocks s \<and> rest t = rest s"
    and set_law: "ok H s \<Longrightarrow> i \<in> H \<Longrightarrow> length d = BSIZE \<Longrightarrow>
      ok H (set_data i d s) \<and> blk (set_data i d s) = blk s \<and> seen (set_data i d s) = (seen s)(blk s i := d)
        \<and> pinned (set_data i d s) = pinned s \<and> ondisk (set_data i d s) = ondisk s
        \<and> writes (set_data i d s) = writes s \<and> blocks (set_data i d s) = blocks s \<and> rest (set_data i d s) = rest s"
    and wr_law: "ok H s \<Longrightarrow> i \<in> H \<Longrightarrow>
      \<exists>t. wr_blk i s = Ok () t \<and> ok H t \<and> (\<forall>j\<in>H. blk t j = blk s j) \<and> seen t = seen s
        \<and> pinned t = pinned s - {blk s i} \<and> ondisk t = (ondisk s)(blk s i := seen s (blk s i))
        \<and> writes t = (blk s i, seen s (blk s i)) # writes s \<and> blocks t = blocks s \<and> rest t = rest s"
    and rel_law: "ok H s \<Longrightarrow> i \<in> H \<Longrightarrow> blk s i \<in> pinned s \<or> seen s (blk s i) = ondisk s (blk s i) \<Longrightarrow>
      \<exists>t. rel_blk i s = Ok () t \<and> ok (H - {i}) t \<and> (\<forall>j\<in>H. blk t j = blk s j) \<and> seen t = seen s
        \<and> pinned t = pinned s \<and> ondisk t = ondisk s \<and> writes t = writes s \<and> blocks t = blocks s \<and> rest t = rest s"
    and clean: "ok {} s \<Longrightarrow> b \<notin> pinned s \<Longrightarrow> seen s b = ondisk s b"
begin

text \<open>Overwriting one block on disk, the buffer given back.\<close>

lemma write_block:
  assumes "ok {} s" "b < blocks s" "b \<in> pinned s \<or> card (pinned s) < NBUF"
    and "\<And>d. length d = BSIZE \<Longrightarrow> length (f d) = BSIZE"
  shows "\<exists>t. kbind (rd_blk b) (\<lambda>i. kdo [kmod (\<lambda>s. set_data i (f (data s i)) s), wr_blk i, rel_blk i]) s = Ok () t
    \<and> ok {} t \<and> seen t = (seen s)(b := f (seen s b)) \<and> pinned t = pinned s - {b}
    \<and> ondisk t = (ondisk s)(b := f (seen s b)) \<and> writes t = (b, f (seen s b)) # writes s
    \<and> blocks t = blocks s \<and> rest t = rest s"
proof -
  obtain i u where u: "rd_blk b s = Ok i u" "ok {i} u" "blk u i = b" "seen u = seen s" "pinned u = pinned s"
      "ondisk u = ondisk s" "writes u = writes s" "blocks u = blocks s" "rest u = rest s"
    using rd_law [OF assms(1) _ assms(2)] assms(3) by auto
  have d: "data u i = seen s b" "length (f (data u i)) = BSIZE"
    using data_seen [OF u(2)] u(3,4) seen_len [OF assms(1)] assms(4) by auto
  let ?v = "set_data i (f (data u i)) u"
  have v: "ok {i} ?v" "blk ?v = blk u" "seen ?v = (seen u)(blk u i := f (data u i))" "pinned ?v = pinned u"
      "ondisk ?v = ondisk u" "writes ?v = writes u" "blocks ?v = blocks u" "rest ?v = rest u"
    using set_law [OF u(2) _ d(2), of i] by auto
  obtain w where w: "wr_blk i ?v = Ok () w" "ok {i} w" "blk w i = b" "seen w = seen ?v" "pinned w = pinned s - {b}"
      "ondisk w = (ondisk s)(b := f (seen s b))" "writes w = (b, f (seen s b)) # writes s"
      "blocks w = blocks s" "rest w = rest s"
    using wr_law [OF v(1), of i] v u d(1) by auto
  have "seen w b = ondisk w b" using w(4,6) v(3) u(3) d(1) by simp
  then obtain t where "rel_blk i w = Ok () t" "ok {} t" "seen t = seen w" "pinned t = pinned w" "ondisk t = ondisk w"
      "writes t = writes w" "blocks t = blocks w" "rest t = rest w"
    using rel_law [OF w(2), of i] w(3) by auto
  then show ?thesis using u w v d(1) by auto
qed

text \<open>Reading one block.\<close>

lemma read_block:
  assumes "ok {} s" "b < blocks s" "b \<in> pinned s \<or> card (pinned s) < NBUF"
  shows "\<exists>t. kbind (rd_blk b) (\<lambda>i. kbind (kgets (\<lambda>s. data s i)) (\<lambda>d. kthen [rel_blk i] (kret d))) s = Ok (seen s b) t
    \<and> ok {} t \<and> seen t = seen s \<and> pinned t = pinned s \<and> ondisk t = ondisk s \<and> writes t = writes s
    \<and> blocks t = blocks s \<and> rest t = rest s"
proof -
  obtain i u where u: "rd_blk b s = Ok i u" "ok {i} u" "blk u i = b" "seen u = seen s" "pinned u = pinned s"
      "ondisk u = ondisk s" "writes u = writes s" "blocks u = blocks s" "rest u = rest s"
    using rd_law [OF assms(1) _ assms(2)] assms(3) by auto
  have d: "data u i = seen s b" using data_seen [OF u(2)] u(3,4) by auto
  have "b \<in> pinned u \<or> seen u b = ondisk u b" using clean [OF assms(1)] u(4-6) by auto
  then obtain t where "rel_blk i u = Ok () t" "ok {} t" "seen t = seen u" "pinned t = pinned u" "ondisk t = ondisk u"
      "writes t = writes u" "blocks t = blocks u" "rest t = rest u"
    using rel_law [OF u(2), of i] u(3) by auto
  then show ?thesis using u d by (auto simp: kthen_def)
qed

text \<open>Copying the data of one held buffer to another and writing it, then giving both back.\<close>

lemma copy_held:
  assumes "ok {i, j} s" "i \<noteq> j" "blk s i \<noteq> blk s j" "blk s i \<in> pinned s \<or> seen s (blk s i) = ondisk s (blk s i)"
  shows "\<exists>t. kdo [kmod (\<lambda>s. set_data j (data s i) s), wr_blk j, rel_blk i, rel_blk j] s = Ok () t
    \<and> ok {} t \<and> seen t = (seen s)(blk s j := seen s (blk s i)) \<and> pinned t = pinned s - {blk s j}
    \<and> ondisk t = (ondisk s)(blk s j := seen s (blk s i)) \<and> writes t = (blk s j, seen s (blk s i)) # writes s
    \<and> blocks t = blocks s \<and> rest t = rest s"
proof -
  have d: "data s i = seen s (blk s i)" "length (data s i) = BSIZE"
    using data_seen [OF assms(1), of i] seen_len [OF assms(1)] by simp_all
  let ?v = "set_data j (data s i) s"
  have v: "ok {i, j} ?v" "blk ?v = blk s" "seen ?v = (seen s)(blk s j := data s i)" "pinned ?v = pinned s"
      "ondisk ?v = ondisk s" "writes ?v = writes s" "blocks ?v = blocks s" "rest ?v = rest s"
    using set_law [OF assms(1) _ d(2), of j] by auto
  obtain w where w: "wr_blk j ?v = Ok () w" "ok {i, j} w" "blk w i = blk s i" "blk w j = blk s j" "seen w = seen ?v"
      "pinned w = pinned s - {blk s j}" "ondisk w = (ondisk s)(blk s j := data s i)"
      "writes w = (blk s j, data s i) # writes s" "blocks w = blocks s" "rest w = rest s"
    using wr_law [OF v(1), of j] v by auto
  have "blk w i \<in> pinned w \<or> seen w (blk w i) = ondisk w (blk w i)" using assms(3,4) w(3,5-7) v(3) by auto
  then obtain x where x: "rel_blk i w = Ok () x" "ok {j} x" "blk x j = blk s j" "seen x = seen w" "pinned x = pinned w"
      "ondisk x = ondisk w" "writes x = writes w" "blocks x = blocks w" "rest x = rest w"
    using rel_law [OF w(2), of i] w(4) assms(2) by (auto simp: insert_Diff_if)
  have "seen x (blk x j) = ondisk x (blk x j)" using x(3,4,6) w(5,7) v(3) by simp
  then obtain t where "rel_blk j x = Ok () t" "ok {} t" "seen t = seen x" "pinned t = pinned x" "ondisk t = ondisk x"
      "writes t = writes x" "blocks t = blocks x" "rest t = rest x"
    using rel_law [OF x(2), of j] by auto
  then show ?thesis using w(1,5-10) x v(3) d(1) by auto
qed

text \<open>Two blocks read, in either order.\<close>

lemma read_two:
  assumes "ok {} s" "a \<noteq> b" "a < blocks s" "b < blocks s" "a \<in> pinned s \<or> card (pinned s) < NBUF"
    and "b \<in> pinned s \<or> card (insert a (pinned s)) < NBUF"
  shows "\<exists>i j t. kbind (rd_blk a) (\<lambda>i. kbind (rd_blk b) (f i)) s = f i j t \<and> i \<noteq> j \<and> ok {i, j} t
    \<and> blk t i = a \<and> blk t j = b \<and> seen t = seen s \<and> pinned t = pinned s \<and> ondisk t = ondisk s
    \<and> writes t = writes s \<and> blocks t = blocks s \<and> rest t = rest s"
proof -
  obtain i u where u: "rd_blk a s = Ok i u" "ok {i} u" "blk u i = a" "seen u = seen s" "pinned u = pinned s"
      "ondisk u = ondisk s" "writes u = writes s" "blocks u = blocks s" "rest u = rest s"
    using rd_law [OF assms(1) _ assms(3)] assms(5) by auto
  obtain j t where "rd_blk b u = Ok j t" "j \<noteq> i" "ok {j, i} t" "blk t j = b" "blk t i = a" "seen t = seen u"
      "pinned t = pinned u" "ondisk t = ondisk u" "writes t = writes u" "blocks t = blocks u" "rest t = rest u"
    using rd_law [OF u(2), of b] u assms(2,4,6) by auto
  then show ?thesis using u by (intro exI [of _ i] exI [of _ j] exI [of _ t]) (auto simp: insert_commute)
qed

definition copied :: "uint \<Rightarrow> uint \<Rightarrow> 's \<Rightarrow> 's \<Rightarrow> bool" where
  "copied src dst s t \<longleftrightarrow> ok {} t \<and> seen t = (seen s)(dst := seen s src) \<and> pinned t = pinned s - {dst}
     \<and> ondisk t = (ondisk s)(dst := seen s src) \<and> writes t = (dst, seen s src) # writes s
     \<and> blocks t = blocks s \<and> rest t = rest s"

lemma copy_src_first:
  assumes "ok {} s" "src \<noteq> dst" "src < blocks s" "dst < blocks s" "src \<in> pinned s \<or> card (pinned s) < NBUF"
    and "dst \<in> pinned s \<or> card (insert src (pinned s)) < NBUF"
  shows "\<exists>t. kbind (rd_blk src) (\<lambda>i. kbind (rd_blk dst) (\<lambda>j.
      kdo [kmod (\<lambda>s. set_data j (data s i) s), wr_blk j, rel_blk i, rel_blk j])) s = Ok () t \<and> copied src dst s t"
proof -
  obtain i j u where u: "kbind (rd_blk src) (\<lambda>i. kbind (rd_blk dst) (\<lambda>j.
      kdo [kmod (\<lambda>s. set_data j (data s i) s), wr_blk j, rel_blk i, rel_blk j])) s
      = kdo [kmod (\<lambda>s. set_data j (data s i) s), wr_blk j, rel_blk i, rel_blk j] u"
      "i \<noteq> j" "ok {i, j} u" "blk u i = src" "blk u j = dst" "seen u = seen s" "pinned u = pinned s"
      "ondisk u = ondisk s" "writes u = writes s" "blocks u = blocks s" "rest u = rest s"
    using read_two [OF assms, where f = "\<lambda>i j. kdo [kmod (\<lambda>s. set_data j (data s i) s), wr_blk j, rel_blk i, rel_blk j]"] by blast
  have "src \<in> pinned u \<or> seen u src = ondisk u src" using clean [OF assms(1)] u(6-8) by auto
  then show ?thesis using copy_held [OF u(3,2)] u assms(2) by (auto simp: copied_def)
qed

lemma copy_dst_first:
  assumes "ok {} s" "src \<noteq> dst" "src < blocks s" "dst < blocks s" "dst \<in> pinned s \<or> card (pinned s) < NBUF"
    and "src \<in> pinned s \<or> card (insert dst (pinned s)) < NBUF"
  shows "\<exists>t. kbind (rd_blk dst) (\<lambda>j. kbind (rd_blk src) (\<lambda>i.
      kdo [kmod (\<lambda>s. set_data j (data s i) s), wr_blk j, rel_blk i, rel_blk j])) s = Ok () t \<and> copied src dst s t"
proof -
  obtain j i u where u: "kbind (rd_blk dst) (\<lambda>j. kbind (rd_blk src) (\<lambda>i.
      kdo [kmod (\<lambda>s. set_data j (data s i) s), wr_blk j, rel_blk i, rel_blk j])) s
      = kdo [kmod (\<lambda>s. set_data j (data s i) s), wr_blk j, rel_blk i, rel_blk j] u"
      "j \<noteq> i" "ok {j, i} u" "blk u j = dst" "blk u i = src" "seen u = seen s" "pinned u = pinned s"
      "ondisk u = ondisk s" "writes u = writes s" "blocks u = blocks s" "rest u = rest s"
    using read_two [OF assms(1) assms(2) [symmetric] assms(4,3,5,6), where f = "\<lambda>j i. kdo [kmod (\<lambda>s. set_data j (data s i) s), wr_blk j, rel_blk i, rel_blk j]"] by blast
  have h: "ok {i, j} u" using u(3) by (simp add: insert_commute)
  have "src \<in> pinned u \<or> seen u src = ondisk u src" using clean [OF assms(1)] u(6-8) by auto
  then show ?thesis using copy_held [OF h u(2) [symmetric]] u assms(2) by (auto simp: copied_def)
qed

end

section \<open>The buffer cache provides the interface\<close>

definition cache :: "nat \<Rightarrow> int \<Rightarrow> nat set \<Rightarrow> 'x buf_state_scheme \<Rightarrow> bool" where
  "cache p pid H s \<longleftrightarrow> env p pid s \<and> bc_ok s \<and> H \<subseteq> {..<NBUF} \<and> (\<forall>i<NBUF. in_use s i \<longleftrightarrow> i \<in> H)
     \<and> (\<forall>i\<in>H. mine pid s i \<and> b_dev (bufs s ! i) = 1 \<and> b_valid (bufs s ! i))"

definition buf_blk :: "'x buf_state_scheme \<Rightarrow> nat \<Rightarrow> uint" where
  "buf_blk s i = b_blockno (bufs s ! i)"

definition buf_dat :: "'x buf_state_scheme \<Rightarrow> nat \<Rightarrow> uchar list" where
  "buf_dat s i = b_data (bufs s ! i)"

definition set_buf_dat :: "nat \<Rightarrow> uchar list \<Rightarrow> 'x buf_state_scheme \<Rightarrow> 'x buf_state_scheme" where
  "set_buf_dat i d s = s\<lparr>bufs := upd_at i (\<lambda>x. x\<lparr>b_data := d\<rparr>) (bufs s)\<rparr>"

definition pinned_blks :: "'x buf_state_scheme \<Rightarrow> uint set" where
  "pinned_blks s = {b. \<exists>i. holds_block s i b \<and> b_dirty (bufs s ! i)}"

definition beyond :: "'x buf_state_scheme \<Rightarrow> (uint \<Rightarrow> uchar list) \<times> uint \<times> 'x" where
  "beyond s = (disk_image s, disksize s, buf_state.more s)"

lemma cacheD:
  assumes "cache p pid H s"
  shows "env p pid s" "bc_ok s" "i \<in> H \<Longrightarrow> holds_block s i (buf_blk s i)" "i \<in> H \<Longrightarrow> mine pid s i"
    "i \<in> H \<Longrightarrow> b_valid (bufs s ! i)" "i < NBUF \<Longrightarrow> in_use s i = (i \<in> H)" "length (bufs s) = NBUF"
  using assms bc_ok_length by (auto simp: cache_def holds_block_def buf_blk_def)

lemma pinned_finite: "bc_ok s \<Longrightarrow> finite (pinned_blks s)"
  by (rule finite_subset [of _ "buf_blk s ` {..<NBUF}"]) (auto simp: pinned_blks_def holds_block_def buf_blk_def)

lemma cache_room:
  assumes "cache p pid H s" "b \<notin> buf_blk s ` H" "b \<in> pinned_blks s \<or> card (pinned_blks s \<union> buf_blk s ` H) < NBUF"
  shows "room s b"
proof (cases "\<exists>i. holds_block s i b")
  case True
  have "\<not> in_use s i" if "holds_block s i b" for i
    using that assms(1,2) cacheD(6) [OF assms(1), of i] by (auto simp: holds_block_def buf_blk_def)
  then show ?thesis using True by (auto simp: room_def)
next
  case False
  then have c: "card (pinned_blks s \<union> buf_blk s ` H) < NBUF" using assms(3) by (auto simp: pinned_blks_def)
  have "\<exists>i<NBUF. \<not> in_use s i \<and> \<not> b_dirty (bufs s ! i)"
  proof (rule ccontr)
    assume "\<not> (\<exists>i<NBUF. \<not> in_use s i \<and> \<not> b_dirty (bufs s ! i))"
    then have a: "in_use s i \<or> b_dirty (bufs s ! i)" if "i < NBUF" for i using that by blast
    have v: "b_dev (bufs s ! i) = 1" if i: "i < NBUF" for i
      using a [OF i] bc_ok_buf [OF cacheD(2) [OF assms(1)] i] cacheD(5,6) [OF assms(1), of i] i by (auto simp: buf_ok_def)
    have "inj_on (buf_blk s) {..<NBUF}"
      using v cacheD(2) [OF assms(1)] by (auto simp: inj_on_def buf_blk_def bc_ok_def)
    then have "card (buf_blk s ` {..<NBUF}) = NBUF" by (simp add: card_image)
    moreover have "buf_blk s ` {..<NBUF} \<subseteq> pinned_blks s \<union> buf_blk s ` H"
    proof (rule image_subsetI)
      fix i assume "i \<in> {..<NBUF}"
      then have i: "i < NBUF" by simp
      show "buf_blk s i \<in> pinned_blks s \<union> buf_blk s ` H"
        using a [OF i] v [OF i] cacheD(6) [OF assms(1) i] i
        by (cases "i \<in> H") (auto simp: pinned_blks_def holds_block_def buf_blk_def intro!: exI [of _ i])
    qed
    moreover have "finite (pinned_blks s \<union> buf_blk s ` H)"
      using pinned_finite [OF cacheD(2) [OF assms(1)]] assms(1) by (auto simp: cache_def intro: finite_subset)
    ultimately show False using card_mono c by (metis not_less)
  qed
  then show ?thesis using False by (auto simp: room_def)
qed

lemma cache_read:
  assumes "cache p pid H s" "b \<notin> buf_blk s ` H" "b < disksize s"
    and "b \<in> pinned_blks s \<or> card (pinned_blks s \<union> buf_blk s ` H) < NBUF"
  shows "\<exists>i t. bread 1 b s = Ok i t \<and> i \<notin> H \<and> cache p pid (insert i H) t \<and> buf_blk t i = b
    \<and> (\<forall>j\<in>H. buf_blk t j = buf_blk s j) \<and> view t = view s \<and> pinned_blks t = pinned_blks s \<and> disk t = disk s
    \<and> disk_writes t = disk_writes s \<and> disksize t = disksize s \<and> beyond t = beyond s"
proof -
  obtain i t where t: "bread 1 b s = Ok i t" "env p pid t" "got pid s t i b" "b_valid (bufs t ! i)"
    using bread_law [OF cacheD(1,2) [OF assms(1)] cache_room [OF assms(1,2,4)] assms(3)] by blast
  have g: "i < NBUF" "\<not> in_use s i" "slocks t = taken (SL_buf i) pid (slocks s)"
      "b_dirty (bufs t ! i) = b_dirty (bufs s ! i)" "disk_part t = disk_part s" "holds_block t i b" "bc_ok t" "view t = view s"
    using t(3) by (simp_all add: got_def)
  note d = disk_part_eq [OF g(5)]
  have o: "bufs t ! j = bufs s ! j" if "j \<noteq> i" for j using t(3) that by (auto simp: got_def)
  have iH: "i \<notin> H" using cacheD(6) [OF assms(1) g(1)] g(2) by simp
  have oH: "bufs t ! j = bufs s ! j" if "j \<in> H" for j by (rule o) (use that iH in auto)
  have m: "mine pid t j" if "mine pid s j" for j using that g(3) by (auto simp: mine_def in_use_def taken_def)
  have "cache p pid (insert i H) t"
    using t(2,4) g(1,3,6,7) oH m iH assms(1) mine_taken [OF g(3)]
    by (auto simp: cache_def holds_block_def)
  moreover have "pinned_blks t = pinned_blks s"
  proof -
    have "holds_block s i b" if "b_dirty (bufs s ! i)" using that t(3) by (simp add: got_def)
    then show ?thesis using o g(4,6) by (auto simp: pinned_blks_def holds_block_def) (metis)+
  qed
  moreover have "buf_blk t i = b" "\<forall>j\<in>H. buf_blk t j = buf_blk s j" "beyond t = beyond s"
    using g(6) oH d by (auto simp: buf_blk_def holds_block_def beyond_def)
  ultimately show ?thesis using t(1) iH g(8) d by auto
qed

lemma cache_set:
  assumes "cache p pid H s" "i \<in> H" "length d = BSIZE"
  defines "t \<equiv> set_buf_dat i d s"
  shows "cache p pid H t" "buf_blk t = buf_blk s" "view t = (view s)(buf_blk s i := d)"
    "pinned_blks t = pinned_blks s" "disk t = disk s" "disk_writes t = disk_writes s" "disksize t = disksize s"
    "beyond t = beyond s"
proof -
  note c = cacheD [OF assms(1)]
  have b: "b_blockno (bufs t ! j) = b_blockno (bufs s ! j)" "b_dev (bufs t ! j) = b_dev (bufs s ! j)"
    "b_valid (bufs t ! j) = b_valid (bufs s ! j)" "b_dirty (bufs t ! j) = b_dirty (bufs s ! j)" for j
    by (auto simp: t_def set_buf_dat_def upd_at_def nth_list_update)
  have u: "in_use t j = in_use s j" "mine pid t j = mine pid s j" for j
    by (simp_all add: t_def set_buf_dat_def in_use_def mine_def)
  have "in_use s i" using c(4) [OF assms(2)] by (rule mine_in_use)
  note law = buf_data_law [OF c(1,2) this c(3,5) [OF assms(2)] assms(3), folded set_buf_dat_def]
  show "cache p pid H t" using law(1,2) assms(1) b u by (simp add: cache_def t_def)
  show "view t = (view s)(buf_blk s i := d)" using law(3) by (simp add: t_def)
  show "buf_blk t = buf_blk s" by (rule ext) (simp add: buf_blk_def b)
  show "pinned_blks t = pinned_blks s" by (simp add: pinned_blks_def holds_block_def b)
  show "disk t = disk s" "disk_writes t = disk_writes s" "disksize t = disksize s" "beyond t = beyond s"
    by (simp_all add: t_def set_buf_dat_def beyond_def)
qed

lemma cache_write:
  assumes "cache p pid H s" "i \<in> H"
  shows "\<exists>t. bwrite i s = Ok () t \<and> cache p pid H t \<and> (\<forall>j\<in>H. buf_blk t j = buf_blk s j) \<and> view t = view s
    \<and> pinned_blks t = pinned_blks s - {buf_blk s i} \<and> disk t = (disk s)(buf_blk s i := view s (buf_blk s i))
    \<and> disk_writes t = (buf_blk s i, view s (buf_blk s i)) # disk_writes s \<and> disksize t = disksize s \<and> beyond t = beyond s"
proof -
  note c = cacheD [OF assms(1)]
  let ?g = "\<lambda>x. x\<lparr>b_dirty := False, b_valid := True\<rparr>"
  obtain t where t: "bwrite i s = Ok () t" "env p pid t" "slocks t = slocks s" "disk_image t = disk_image s"
      "disksize t = disksize s" "buf_state.more t = buf_state.more s"
      "disk_writes t = (buf_blk s i, view s (buf_blk s i)) # disk_writes s" "bufs t = upd_at i ?g (bufs s)"
      "bc_ok t" "view t = view s"
    using bwrite_law [OF c(1,2) c(4) [OF assms(2)] c(3) [OF assms(2)] c(5) [OF assms(2)]] by blast
  have i: "i < NBUF" "i < length (bufs s)" using assms c(7) by (auto simp: cache_def)
  have n: "bufs t ! j = (if j = i then ?g (bufs s ! i) else bufs s ! j)" for j
    using t(8) i(2) by simp
  have u: "in_use t j = in_use s j" "mine pid t j = mine pid s j" for j
    using t(3) by (simp_all add: in_use_def mine_def)
  have "cache p pid H t" using t(2,9) assms(1) u n by (auto simp: cache_def)
  moreover have "pinned_blks t = pinned_blks s - {buf_blk s i}"
  proof -
    have "b_blockno (bufs s ! j) \<noteq> buf_blk s i" if "j \<noteq> i" "j < NBUF" "b_dev (bufs s ! j) = 1" for j
      using that bc_ok_unique [OF c(2) c(3) [OF assms(2)], of j] by (auto simp: holds_block_def)
    then have "pinned_blks t \<subseteq> pinned_blks s - {buf_blk s i}"
      using n by (auto simp: pinned_blks_def holds_block_def buf_blk_def split: if_splits)
    moreover have "b \<in> pinned_blks t" if pb: "b \<in> pinned_blks s - {buf_blk s i}" for b
    proof -
      obtain j where j: "holds_block s j b" "b_dirty (bufs s ! j)" "b \<noteq> buf_blk s i"
        using pb by (auto simp: pinned_blks_def)
      then have "bufs t ! j = bufs s ! j" using n [of j] by (auto simp: holds_block_def buf_blk_def)
      then show ?thesis using j by (auto simp: pinned_blks_def holds_block_def)
    qed
    ultimately show ?thesis by blast
  qed
  moreover have "buf_blk t j = buf_blk s j" for j using n [of j] by (auto simp: buf_blk_def)
  moreover have "disk t = (disk s)(buf_blk s i := view s (buf_blk s i))" using t(4,7) by (simp add: disk_of_Cons)
  ultimately show ?thesis using t by (auto simp: beyond_def)
qed

lemma cache_release:
  assumes "cache p pid H s" "i \<in> H" "buf_blk s i \<in> pinned_blks s \<or> view s (buf_blk s i) = disk s (buf_blk s i)"
  shows "\<exists>t. brelse i s = Ok () t \<and> cache p pid (H - {i}) t \<and> (\<forall>j\<in>H. buf_blk t j = buf_blk s j) \<and> view t = view s
    \<and> pinned_blks t = pinned_blks s \<and> disk t = disk s \<and> disk_writes t = disk_writes s \<and> disksize t = disksize s
    \<and> beyond t = beyond s"
proof -
  note c = cacheD [OF assms(1)]
  let ?g = "\<lambda>x. x\<lparr>b_refcnt := b_refcnt x - 1\<rparr>"
  have "b_dirty (bufs s ! i) \<or> view s (buf_blk s i) = disk s (buf_blk s i)"
    using assms(3) bc_ok_unique [OF c(2) c(3) [OF assms(2)]] by (auto simp: pinned_blks_def)
  then obtain t where t: "brelse i s = Ok () t" "env p pid t" "slocks t = given_up (SL_buf i) (slocks s)"
      "bufs t = upd_at i ?g (bufs s)" "disk_part t = disk_part s" "bc_ok t" "view t = view s"
    using brelse_law [OF c(1,2) c(4) [OF assms(2)] c(3) [OF assms(2)] c(5) [OF assms(2)]] by blast
  note d = disk_part_eq [OF t(5)]
  have b: "b_blockno (bufs t ! j) = b_blockno (bufs s ! j)" "b_dev (bufs t ! j) = b_dev (bufs s ! j)"
    "b_valid (bufs t ! j) = b_valid (bufs s ! j)" "b_dirty (bufs t ! j) = b_dirty (bufs s ! j)" for j
    by (auto simp: t(4) upd_at_def nth_list_update)
  have m: "mine pid t j" if "mine pid s j" "j \<noteq> i" for j
    using that t(3) by (auto simp: mine_def in_use_def given_up_def)
  have "cache p pid (H - {i}) t" using t(2,3,6) assms(1) b m by (auto simp: cache_def)
  moreover have "pinned_blks t = pinned_blks s" by (simp add: pinned_blks_def holds_block_def b)
  ultimately show ?thesis using t(1,7) b d by (auto simp: buf_blk_def beyond_def)
qed

lemma cache_clean:
  assumes "cache p pid {} s" "b \<notin> pinned_blks s"
  shows "view s b = disk s b"
  by (rule view_clean [OF cacheD(2) [OF assms(1)]])
    (use assms cacheD(6) [OF assms(1)] in \<open>auto simp: pinned_blks_def holds_block_def\<close>)

lemma cache_data:
  assumes "cache p pid H s" "i \<in> H"
  shows "buf_dat s i = view s (buf_blk s i)"
  using view_holder [OF cacheD(2,3,5) [OF assms(1)]] assms(2) by (simp add: buf_dat_def)

lemma cache_len:
  assumes "cache p pid H s"
  shows "length (view s b) = BSIZE"
proof (cases "\<exists>i. holds_block s i b \<and> b_valid (bufs s ! i)")
  case True
  then obtain i where i: "holds_block s i b" "b_valid (bufs s ! i)" by blast
  then show ?thesis
    using view_holder [OF cacheD(2) [OF assms] i] bc_ok_buf [OF cacheD(2) [OF assms], of i]
    by (simp add: holds_block_def buf_ok_def)
next
  case False
  then show ?thesis
    using view_disk [OF cacheD(7) [OF assms], of b] cacheD(2) [OF assms] by (auto simp: bc_ok_def)
qed

interpretation bc: block_cache "cache p pid" buf_blk view pinned_blks disk disk_writes disksize beyond
    "bread 1" bwrite brelse buf_dat set_buf_dat
  for p pid
proof (unfold_locales, goal_cases)
  case 1 then show ?case by (rule cache_data)
next
  case 2 then show ?case by (rule cache_len)
next
  case 3 then show ?case by (rule cache_read)
next
  case 4 show ?case using cache_set [OF 4] by (intro conjI)
next
  case 5 then show ?case by (rule cache_write)
next
  case 6 then show ?case by (rule cache_release)
next
  case 7 then show ?case by (rule cache_clean)
qed

section \<open>Replacement and coherence\<close>

text \<open>C20: which buffer \<open>bget\<close> gives out, in terms of the recency list \<open>xs\<close> that the pointers of the cache
  represent. A cached block is in its buffer; otherwise the least recently released buffer that is neither
  referenced nor pinned is recycled for the block; with none left the code panics. The order is kept.\<close>

theorem bget_least_recent:
  fixes s :: "'x buf_state_scheme"
  assumes "env p pid s" "lru s xs" "\<forall>i. b_refcnt (bufs s ! i) = 0 \<longrightarrow> \<not> in_use s i"
    and "\<forall>i\<in>set xs. match dev blk (bufs s ! i) \<longrightarrow> b_refcnt (bufs s ! i) = 0"
  shows "case find (\<lambda>i. match dev blk (bufs s ! i)) xs of
      Some i \<Rightarrow> \<exists>t. bget dev blk s = Ok i t \<and> lru t xs \<and> mine pid t i \<and> bufs t = upd_at i refer (bufs s)
    | None \<Rightarrow> (case find (\<lambda>i. b_refcnt (bufs s ! i) = 0 \<and> \<not> b_dirty (bufs s ! i)) (rev xs) of
        Some i \<Rightarrow> \<exists>t. bget dev blk s = Ok i t \<and> lru t xs \<and> mine pid t i \<and> bufs t = upd_at i (recycled dev blk) (bufs s)
      | None \<Rightarrow> bget dev blk s = Panic ''bget: no buffers'')"
proof (cases "find (\<lambda>i. match dev blk (bufs s ! i)) xs")
  case (Some i)
  then have "\<not> in_use s i" using assms(3,4) by (auto simp: find_Some_iff)
  from bget_cached [OF assms(1,2) Some this] show ?thesis
    using Some lru_same [OF assms(2)] mine_taken by fastforce
next
  case None
  show ?thesis
  proof (cases "find (\<lambda>i. b_refcnt (bufs s ! i) = 0 \<and> \<not> b_dirty (bufs s ! i)) (rev xs)")
    case 2: None
    then show ?thesis using None bget_full [OF assms(1,2) None 2] by simp
  next
    case (Some i)
    then have "\<not> in_use s i" using assms(3) by (auto simp: find_Some_iff)
    from bget_recycles [OF assms(1,2) None Some this] show ?thesis
      using None Some lru_same [OF assms(2)] mine_taken by fastforce
  qed
qed

text \<open>C21: \<open>brelse\<close> of the last reference moves the buffer to the front of the recency list: the pointer surgery on
  the circular doubly linked list is the operation on lists.\<close>

theorem brelse_moves_to_front:
  fixes s :: "'x buf_state_scheme"
  assumes "env p pid s" "mine pid s i" "lru s xs" "i < NBUF" "b_refcnt (bufs s ! i) = 1"
  shows "\<exists>t. brelse i s = Ok () t \<and> lru t (i # remove1 i xs) \<and> \<not> in_use t i \<and> b_refcnt (bufs t ! i) = 0"
proof -
  have "length (bufs s) = NBUF" using assms(3) by (simp add: lru_def)
  then show ?thesis using brelse_run [OF assms] assms(4,5) by (auto simp: nth_upd_at)
qed

text \<open>C22: the cache is coherent. A block written with \<open>bread\<close>, a change of the data, \<open>bwrite\<close> and \<open>brelse\<close> is read
  back changed, is on the disk, and no other block is affected, in the cache or on disk.\<close>

theorem block_roundtrip:
  fixes s :: "'x buf_state_scheme"
  assumes "cache p pid {} s" "b < disksize s" "card (pinned_blks s) < NBUF" "length d = BSIZE" "c < disksize s"
  shows "\<exists>t u. kbind (bread 1 b) (\<lambda>i. kdo [kmod (set_buf_dat i d), bwrite i, brelse i]) s = Ok () t
    \<and> kbind (bread 1 c) (\<lambda>i. kbind (kgets (\<lambda>s. buf_dat s i)) (\<lambda>d. kthen [brelse i] (kret d))) t = Ok (if c = b then d else view s c) u
    \<and> disk u = (disk s)(b := d) \<and> disk_writes u = (b, d) # disk_writes s"
proof -
  obtain t where t: "kbind (bread 1 b) (\<lambda>i. kdo [kmod (set_buf_dat i d), bwrite i, brelse i]) s = Ok () t"
      "cache p pid {} t" "view t = (view s)(b := d)" "pinned_blks t = pinned_blks s - {b}" "disk t = (disk s)(b := d)"
      "disk_writes t = (b, d) # disk_writes s" "disksize t = disksize s"
    using bc.write_block [where f = "\<lambda>_. d", OF assms(1,2)] assms(3,4) by auto
  have "card (pinned_blks t) < NBUF"
    using assms(3) t(4) card_Diff1_le [of "pinned_blks s" b] by simp
  then show ?thesis
    using t bc.read_block [OF t(2), of c] assms(5) by fastforce
qed

end
