(* ===== verification/Xv6_Log.thy ===== *)
theory Xv6_Log
  imports Xv6_Bio
begin

text \<open>
  log.c and \<open>readsb\<close> of fs.c. The log occupies the blocks from \<open>log.start\<close>: a header with the number
  of logged blocks and their home locations, then their contents. An access outside an array of
  the kernel, whose effect C does not define, is the outcome \<open>Panic ''array bounds''\<close>. The functions
  that sleep in a loop are split as in the process code.
\<close>

section \<open>Words in a block\<close>

definition get32 :: "uchar list \<Rightarrow> nat \<Rightarrow> uint" where
  "get32 d off = ucast (d ! off) OR push_bit 8 (ucast (d ! (off + 1)))
     OR push_bit 16 (ucast (d ! (off + 2))) OR push_bit 24 (ucast (d ! (off + 3)))"

definition put32 :: "nat \<Rightarrow> uint \<Rightarrow> uchar list \<Rightarrow> uchar list" where
  "put32 off v d = d[off := ucast v, off + 1 := ucast (drop_bit 8 v),
     off + 2 := ucast (drop_bit 16 v), off + 3 := ucast (drop_bit 24 v)]"

lemma length_put32 [simp]: "length (put32 off v d) = length d"
  by (simp add: put32_def)

lemma get32_put32_same: "off + 3 < length d \<Longrightarrow> get32 (put32 off v d) off = v"
  by (simp add: get32_def put32_def nth_list_update word_bytes_roundtrip)

lemma get32_put32_other: "off' + 4 \<le> off \<or> off + 4 \<le> off' \<Longrightarrow> get32 (put32 off v d) off' = get32 d off'"
  by (auto simp: get32_def put32_def)

section \<open>State\<close>

record superblock =
  sb_size :: uint
  sb_nblocks :: uint
  sb_ninodes :: uint
  sb_nlog :: uint
  sb_logstart :: uint
  sb_inodestart :: uint
  sb_bmapstart :: uint

text \<open>\<open>struct log\<close> with its \<open>struct logheader\<close>: \<open>lg_n\<close> and \<open>lg_block\<close> are \<open>lh.n\<close> and \<open>lh.block\<close>.\<close>

record logrec =
  lg_start :: uint
  lg_size :: int
  lg_outstanding :: int
  lg_committing :: bool
  lg_dev :: uint
  lg_n :: int
  lg_block :: "uint list"

record log_state = buf_state +
  lg :: logrec

definition lg_mod :: "(logrec \<Rightarrow> logrec) \<Rightarrow> ('x log_state_scheme, unit) K" where
  "lg_mod f = kmod (\<lambda>s. s\<lparr>lg := f (lg s)\<rparr>)"

definition lg_get :: "(logrec \<Rightarrow> 'a) \<Rightarrow> ('x log_state_scheme, 'a) K" where
  "lg_get f = kgets (\<lambda>s. f (lg s))"

text \<open>\<open>memmove(dst->data, src->data, BSIZE)\<close>.\<close>

definition copy_data :: "nat \<Rightarrow> nat \<Rightarrow> ('x buf_state_scheme, unit) K" where
  "copy_data dst src = kmod (\<lambda>s. set_buf_dat dst (buf_dat s src) s)"

section \<open>readsb (fs.c)\<close>

definition sb_of :: "uchar list \<Rightarrow> superblock" where
  "sb_of d = \<lparr>sb_size = get32 d 0, sb_nblocks = get32 d 4, sb_ninodes = get32 d 8, sb_nlog = get32 d 12,
     sb_logstart = get32 d 16, sb_inodestart = get32 d 20, sb_bmapstart = get32 d 24\<rparr>"

definition readsb :: "uint \<Rightarrow> ('x buf_state_scheme, superblock) K" where
  "readsb dev = kbind (bread dev 1) (\<lambda>bp. kbind (kgets (\<lambda>s. buf_dat s bp)) (\<lambda>d. kthen [brelse bp] (kret (sb_of d))))"

section \<open>log.c\<close>

definition install_trans :: "('x log_state_scheme, unit) K" where
  "install_trans = kbind (lg_get id) (\<lambda>l. keach (\<lambda>tail.
     if tail \<ge> LOGSIZE then kpanic ''array bounds''
     else kbind (bread (lg_dev l) (lg_start l + of_nat tail + 1)) (\<lambda>lbuf.
       kbind (bread (lg_dev l) (lg_block l ! tail)) (\<lambda>dbuf.
       kdo [copy_data dbuf lbuf, bwrite dbuf, brelse lbuf, brelse dbuf]))) [0..<nat (lg_n l)])"

definition header_blocks :: "nat \<Rightarrow> uchar list \<Rightarrow> uint list" where
  "header_blocks n d = map (\<lambda>i. get32 d (4 + 4 * i)) [0..<n]"

definition read_head :: "('x log_state_scheme, unit) K" where
  "read_head = kbind (lg_get id) (\<lambda>l. kbind (bread (lg_dev l) (lg_start l)) (\<lambda>buf.
     kbind (kgets (\<lambda>s. buf_dat s buf)) (\<lambda>d.
     let n = cint (get32 d 0) in
     kdo [lg_mod (\<lambda>l. l\<lparr>lg_n := n\<rparr>),
          if n > 30 then kpanic ''array bounds''
          else lg_mod (\<lambda>l. l\<lparr>lg_block := header_blocks (nat n) d @ drop (nat n) (lg_block l)\<rparr>),
          brelse buf])))"

definition put_header :: "int \<Rightarrow> uint list \<Rightarrow> uchar list \<Rightarrow> uchar list" where
  "put_header n bs d = fold (\<lambda>i. put32 (4 + 4 * i) (bs ! i)) [0..<nat n] (put32 0 (uint_of n) d)"

definition write_head :: "('x log_state_scheme, unit) K" where
  "write_head = kbind (lg_get id) (\<lambda>l. kbind (bread (lg_dev l) (lg_start l)) (\<lambda>buf.
     kdo [if lg_n l > 30 then kpanic ''array bounds''
          else kmod (\<lambda>s. set_buf_dat buf (put_header (lg_n l) (lg_block l) (buf_dat s buf)) s),
          bwrite buf,
          brelse buf]))"

definition recover_from_log :: "('x log_state_scheme, unit) K" where
  "recover_from_log = kdo [read_head, install_trans, lg_mod (\<lambda>l. l\<lparr>lg_n := 0\<rparr>), write_head]"

text \<open>\<open>sizeof(struct logheader)\<close> is 124, so the test of \<open>initlog\<close> never fails.\<close>

definition initlog :: "uint \<Rightarrow> ('x log_state_scheme, unit) K" where
  "initlog dev =
     (if (124 :: nat) \<ge> BSIZE then kpanic ''initlog: too big logheader''
      else kdo [initlock LogLock ''log'',
        kbind (readsb dev) (\<lambda>sb. kdo [
          lg_mod (\<lambda>l. l\<lparr>lg_start := sb_logstart sb\<rparr>),
          lg_mod (\<lambda>l. l\<lparr>lg_size := cint (sb_nlog sb)\<rparr>),
          lg_mod (\<lambda>l. l\<lparr>lg_dev := dev\<rparr>)]),
        recover_from_log])"

definition begin_op_loop :: "('x log_state_scheme, unit) K" where
  "begin_op_loop = kbind (lg_get id) (\<lambda>l.
     if lg_committing l then sleep (Some Ch_log) LogLock
     else if lg_n l + (lg_outstanding l + 1) * int MAXOPBLOCKS > int LOGSIZE then sleep (Some Ch_log) LogLock
     else kdo [lg_mod (\<lambda>l. l\<lparr>lg_outstanding := lg_outstanding l + 1\<rparr>), release LogLock])"

definition begin_op :: "('x log_state_scheme, unit) K" where
  "begin_op = kthen [acquire LogLock] begin_op_loop"

definition begin_op_resume :: "bool \<Rightarrow> ('x log_state_scheme, unit) K" where
  "begin_op_resume saved = kthen [sleep_return saved LogLock] begin_op_loop"

definition write_log :: "('x log_state_scheme, unit) K" where
  "write_log = kbind (lg_get id) (\<lambda>l. keach (\<lambda>tail.
     if tail \<ge> LOGSIZE then kpanic ''array bounds''
     else kbind (bread (lg_dev l) (lg_start l + of_nat tail + 1)) (\<lambda>dst.
       kbind (bread (lg_dev l) (lg_block l ! tail)) (\<lambda>src.
       kdo [copy_data dst src, bwrite dst, brelse src, brelse dst]))) [0..<nat (lg_n l)])"

definition commit :: "('x log_state_scheme, unit) K" where
  "commit = kbind (lg_get lg_n) (\<lambda>n. kwhen (n > 0)
     (kdo [write_log, write_head, install_trans, lg_mod (\<lambda>l. l\<lparr>lg_n := 0\<rparr>), write_head]))"

definition end_op :: "('x log_state_scheme, unit) K" where
  "end_op = kthen [acquire LogLock,
       lg_mod (\<lambda>l. l\<lparr>lg_outstanding := lg_outstanding l - 1\<rparr>)]
     (kbind (lg_get id) (\<lambda>l.
      if lg_committing l then kpanic ''log.committing''
      else let do_commit = (lg_outstanding l = 0) in
        kdo [if do_commit then lg_mod (\<lambda>l. l\<lparr>lg_committing := True\<rparr>) else wakeup (Some Ch_log),
             release LogLock,
             kwhen do_commit (kdo [commit,
               acquire LogLock,
               lg_mod (\<lambda>l. l\<lparr>lg_committing := False\<rparr>),
               wakeup (Some Ch_log),
               release LogLock])]))"

text \<open>The log entry of a block: its place when the block is there already, a new one otherwise.\<close>

definition log_write :: "nat \<Rightarrow> ('x log_state_scheme, unit) K" where
  "log_write b = kbind (lg_get id) (\<lambda>l.
     if lg_n l \<ge> int LOGSIZE \<or> lg_n l \<ge> lg_size l - 1 then kpanic ''too big a transaction''
     else if lg_outstanding l < 1 then kpanic ''log_write outside of trans''
     else kdo [acquire LogLock,
       kbind (lg_get id) (\<lambda>l. kbind (buf_get b b_blockno) (\<lambda>blockno.
         let i = (case index_of (\<lambda>x. x = blockno) (take (nat (lg_n l)) (lg_block l)) of Some i \<Rightarrow> i | None \<Rightarrow> nat (lg_n l)) in
         kdo [if i \<ge> LOGSIZE then kpanic ''array bounds'' else lg_mod (\<lambda>l. l\<lparr>lg_block := (lg_block l)[i := blockno]\<rparr>),
              kwhen (int i = lg_n l) (lg_mod (\<lambda>l. l\<lparr>lg_n := lg_n l + 1\<rparr>))])),
       buf_mod b (\<lambda>b. b\<lparr>b_dirty := True\<rparr>),
       release LogLock])"

section \<open>Runs of block copies\<close>

lemma keach_append: "keach f (xs @ ys) = kbind (keach f xs) (\<lambda>_. keach f ys)"
  by (induction xs) (simp_all add: kbind_assoc)

lemma disk_of_append: "disk_of img (xs @ ys) = disk_of (disk_of img ys) xs"
  by (rule ext) (simp add: disk_of_def map_add_def split: option.split)

lemma disk_of_other: "b \<notin> fst ` set ws \<Longrightarrow> disk_of img ws b = img b"
  by (auto simp: disk_of_def split: option.split dest: map_of_SomeD intro: rev_image_eqI)

lemma disk_of_Nil [simp]: "disk_of img [] = img"
  by (rule ext) (simp add: disk_of_def)

context block_cache
begin

lemma copies:
  assumes step: "\<And>ys x zs u. xs = ys @ x # zs \<Longrightarrow> ok {} u \<Longrightarrow> blocks u = blocks s \<Longrightarrow> rest u = rest s \<Longrightarrow>
      pinned u = pinned s - dst ` set ys \<Longrightarrow> \<exists>t. f x u = Ok () t \<and> copied (src x) (dst x) u t"
    and "ok {} s" and disj: "\<And>x y. x \<in> set xs \<Longrightarrow> y \<in> set xs \<Longrightarrow> src x \<noteq> dst y"
  defines "W \<equiv> rev (map (\<lambda>x. (dst x, seen s (src x))) xs)"
  shows "\<exists>t. keach f xs s = Ok () t \<and> ok {} t \<and> blocks t = blocks s \<and> rest t = rest s
    \<and> pinned t = pinned s - dst ` set xs \<and> seen t = disk_of (seen s) W \<and> ondisk t = disk_of (ondisk s) W
    \<and> writes t = W @ writes s"
  using step disj unfolding W_def
proof (induction xs rule: rev_induct)
  case Nil
  then show ?case using assms(2) by simp
next
  case (snoc x xs)
  let ?W = "rev (map (\<lambda>x. (dst x, seen s (src x))) xs)"
  have "\<exists>t. keach f xs s = Ok () t \<and> ok {} t \<and> blocks t = blocks s \<and> rest t = rest s
    \<and> pinned t = pinned s - dst ` set xs \<and> seen t = disk_of (seen s) ?W \<and> ondisk t = disk_of (ondisk s) ?W
    \<and> writes t = ?W @ writes s"
    by (rule snoc.IH) (use snoc.prems in auto)
  then obtain u where u: "keach f xs s = Ok () u" "ok {} u" "blocks u = blocks s" "rest u = rest s"
      "pinned u = pinned s - dst ` set xs" "seen u = disk_of (seen s) ?W" "ondisk u = disk_of (ondisk s) ?W"
      "writes u = ?W @ writes s"
    by blast
  obtain t where t: "f x u = Ok () t" "copied (src x) (dst x) u t"
    using snoc.prems(1) [of xs x "[]" u] u by auto
  have "seen u (src x) = seen s (src x)"
    using snoc.prems(2) [of x] u(6) by (auto simp: image_iff intro!: disk_of_other)
  then show ?case
    using u t by (auto simp: copied_def keach_append disk_of_Cons)
qed

end

section \<open>The log header on disk\<close>

lemma length_put_header [simp]: "length (put_header n bs d) = length d"
proof -
  have "length (fold (\<lambda>i. put32 (4 + 4 * i) (bs ! i)) xs e) = length e" for xs e
    by (induction xs arbitrary: e) simp_all
  then show ?thesis by (simp add: put_header_def)
qed

lemma put_header_fold:
  fixes bs :: "uint list"
  assumes "4 * k + 4 \<le> length e"
  defines "r \<equiv> fold (\<lambda>i. put32 (4 + 4 * i) (bs ! i)) [0..<k] e"
  shows "length r = length e \<and> get32 r 0 = get32 e 0 \<and> (\<forall>i<k. get32 r (4 + 4 * i) = bs ! i)"
  using assms(1) unfolding r_def
proof (induction k)
  case 0
  then show ?case by simp
next
  case (Suc k)
  then have ih: "length (fold (\<lambda>i. put32 (4 + 4 * i) (bs ! i)) [0..<k] e) = length e"
    "get32 (fold (\<lambda>i. put32 (4 + 4 * i) (bs ! i)) [0..<k] e) 0 = get32 e 0"
    "\<And>i. i < k \<Longrightarrow> get32 (fold (\<lambda>i. put32 (4 + 4 * i) (bs ! i)) [0..<k] e) (4 + 4 * i) = bs ! i" by auto
  show ?case using ih Suc.prems by (auto simp: less_Suc_eq get32_put32_same get32_put32_other)
qed

lemma put_header_get:
  assumes "length d = BSIZE" "0 \<le> n" "n \<le> 30"
  shows "cint (get32 (put_header n bs d) 0) = n"
    "nat n \<le> length bs \<Longrightarrow> header_blocks (nat n) (put_header n bs d) = take (nat n) bs"
proof -
  let ?e = "put32 0 (uint_of n) d"
  have l: "4 * nat n + 4 \<le> length ?e" using assms by simp
  have e: "get32 ?e 0 = uint_of n" using assms(1) by (simp add: get32_put32_same)
  note h = put_header_fold [OF l, of bs]
  have "get32 (put_header n bs d) 0 = uint_of n" using h e by (simp add: put_header_def)
  then show "cint (get32 (put_header n bs d) 0) = n" using assms(2,3) by (simp add: cint_uint_of)
  show "header_blocks (nat n) (put_header n bs d) = take (nat n) bs" if "nat n \<le> length bs"
    using h that by (intro nth_equalityI) (simp_all add: header_blocks_def put_header_def)
qed

section \<open>Frames of the log state\<close>

lemma lg_run [simp]: "lg_mod f s = Ok () (s\<lparr>lg := f (lg s)\<rparr>)" "lg_get g s = Ok (g (lg s)) s"
  by (simp_all add: lg_mod_def lg_get_def)

lemma lg_frame [simp]:
  fixes s :: "'x log_state_scheme"
  shows "cache p pid H (s\<lparr>lg := x\<rparr>) = cache p pid H s" "view (s\<lparr>lg := x\<rparr>) = view s"
    "pinned_blks (s\<lparr>lg := x\<rparr>) = pinned_blks s"
proof -
  have "env p pid (s\<lparr>lg := x\<rparr>) = env p pid s"
    by (simp add: env_def lk_ok_def held_def mycpu_index_def curproc_def)
  moreover have "in_use (s\<lparr>lg := x\<rparr>) = in_use s" "mine pid (s\<lparr>lg := x\<rparr>) = mine pid s"
    by (simp_all add: in_use_def mine_def fun_eq_iff)
  moreover have "lru (s\<lparr>lg := x\<rparr>) = lru s" by (simp add: lru_def fun_eq_iff)
  ultimately show "cache p pid H (s\<lparr>lg := x\<rparr>) = cache p pid H s" by (simp add: cache_def bc_ok_def)
  show "view (s\<lparr>lg := x\<rparr>) = view s" by (rule ext) (simp add: view_def split: option.split)
  show "pinned_blks (s\<lparr>lg := x\<rparr>) = pinned_blks s" by (simp add: pinned_blks_def holds_block_def)
qed

lemma beyond_lg:
  assumes "beyond t = beyond (s :: 'x log_state_scheme)"
  shows "lg t = lg s" "disk_image t = disk_image s" "disksize t = disksize s" "log_state.more t = log_state.more s"
  using assms by (cases s; cases t; simp add: beyond_def)+

section \<open>The log region\<close>

definition slot :: "uint \<Rightarrow> nat \<Rightarrow> uint" where
  "slot st k = st + of_nat k + 1"

definition region :: "uint \<Rightarrow> uint set" where
  "region st = (\<lambda>k. st + of_nat k) ` {..LOGSIZE}"

lemma unat_region:
  fixes st :: uint
  assumes "unat st + LOGSIZE < 2 ^ 32" "k \<le> LOGSIZE"
  shows "unat (st + of_nat k) = unat st + k"
proof -
  have "unat (of_nat k :: uint) = k" using assms(2) by (simp add: unat_of_nat)
  then show ?thesis using assms by (simp add: unat_word_ariths)
qed

lemma slot_region:
  fixes st sz :: uint
  assumes "unat st + LOGSIZE < unat sz" "k < LOGSIZE"
  shows "unat (slot st k) = unat st + k + 1" "slot st k \<in> region st" "slot st k < sz" "st < sz" "slot st k \<noteq> st"
proof -
  have b: "unat st + LOGSIZE < 2 ^ 32" using assms(1) unat32_lt [of sz] by simp
  have e: "slot st k = st + of_nat (Suc k)" by (simp add: slot_def)
  show u: "unat (slot st k) = unat st + k + 1" using unat_region [OF b, of "Suc k"] assms(2) e by simp
  show "slot st k \<in> region st" unfolding e region_def by (rule imageI) (use assms(2) in simp)
  show "slot st k < sz" "st < sz" using u assms by (simp_all add: word_less_nat_alt)
  show "slot st k \<noteq> st"
  proof
    assume "slot st k = st"
    with u show False by simp
  qed
qed

lemma slot_inj:
  fixes st sz :: uint
  assumes "unat st + LOGSIZE < unat sz" "j < LOGSIZE" "k < LOGSIZE" "slot st j = slot st k"
  shows "j = k"
proof -
  have "unat st + j + 1 = unat st + k + 1"
    by (rule trans [OF slot_region(1) [OF assms(1,2), symmetric]]) (simp only: assms(4) slot_region(1) [OF assms(1,3)])
  then show ?thesis by simp
qed

lemma start_region: "st \<in> region st"
  by (force simp: region_def)

text \<open>The log holds the blocks \<open>bs\<close>, none of them in the log region.\<close>

definition logged :: "nat \<Rightarrow> int \<Rightarrow> uint list \<Rightarrow> 'x log_state_scheme \<Rightarrow> bool" where
  "logged p pid bs s \<longleftrightarrow> cache p pid {} s \<and> lg_dev (lg s) = 1 \<and> lg_n (lg s) = int (length bs)
     \<and> length (lg_block (lg s)) = LOGSIZE \<and> take (length bs) (lg_block (lg s)) = bs \<and> length bs < LOGSIZE
     \<and> distinct bs \<and> set bs \<inter> region (lg_start (lg s)) = {} \<and> (\<forall>b\<in>set bs. b < disksize s)
     \<and> unat (lg_start (lg s)) + LOGSIZE < unat (disksize s)"

lemma loggedD:
  assumes "logged p pid bs s" "k < length bs"
  shows "lg_block (lg s) ! k = bs ! k" "bs ! k < disksize s" "bs ! k \<notin> region (lg_start (lg s))" "k < LOGSIZE"
proof -
  have "bs ! k \<in> set bs" using assms(2) by simp
  then show "bs ! k < disksize s" "bs ! k \<notin> region (lg_start (lg s))" using assms(1) by (auto simp: logged_def)
  show "k < LOGSIZE" using assms by (simp add: logged_def)
  have "take (length bs) (lg_block (lg s)) ! k = bs ! k" using assms(1) by (simp add: logged_def)
  then show "lg_block (lg s) ! k = bs ! k" using assms(2) by simp
qed

lemma slot_not_logged:
  assumes "logged p pid bs s" "j < length bs" "k < length bs"
  shows "bs ! j \<noteq> slot (lg_start (lg s)) k"
proof -
  have "unat (lg_start (lg s)) + LOGSIZE < unat (disksize s)" using assms(1) by (simp add: logged_def)
  then show ?thesis using loggedD(3,4) [OF assms(1)] slot_region(2) assms(2,3) by metis
qed

section \<open>Runs of the log operations\<close>

lemma write_log_run:
  fixes s :: "'x log_state_scheme"
  assumes "logged p pid bs s" "pinned_blks s = set bs"
  defines "W \<equiv> rev (map (\<lambda>k. (slot (lg_start (lg s)) k, view s (bs ! k))) [0..<length bs])"
  shows "\<exists>t. write_log s = Ok () t \<and> cache p pid {} t \<and> beyond t = beyond s \<and> pinned_blks t = set bs
    \<and> view t = disk_of (view s) W \<and> disk t = disk_of (disk s) W \<and> disk_writes t = W @ disk_writes s"
proof -
  let ?st = "lg_start (lg s)"
  let ?f = "\<lambda>tail. if tail \<ge> LOGSIZE then kpanic ''array bounds''
     else kbind (bread (lg_dev (lg s)) (?st + of_nat tail + 1)) (\<lambda>dst.
       kbind (bread (lg_dev (lg s)) (lg_block (lg s) ! tail)) (\<lambda>src.
       kdo [copy_data dst src, bwrite dst, brelse src, brelse dst]))"
  have l: "cache p pid {} s" "unat ?st + LOGSIZE < unat (disksize s)" "lg_dev (lg s) = 1" "length bs < LOGSIZE"
    "lg_n (lg s) = int (length bs)" using assms(1) by (simp_all add: logged_def)
  have c: "card (set bs) < NBUF" using card_length [of bs] l(4) by linarith
  have "\<exists>t. keach ?f [0..<length bs] s = Ok () t \<and> cache p pid {} t \<and> disksize t = disksize s \<and> beyond t = beyond s
    \<and> pinned_blks t = pinned_blks s - slot ?st ` set [0..<length bs]
    \<and> view t = disk_of (view s) W \<and> disk t = disk_of (disk s) W \<and> disk_writes t = W @ disk_writes s"
    unfolding W_def
  proof (rule bc.copies [OF _ l(1)])
    fix ys k zs and u :: "'x log_state_scheme"
    assume u: "[0..<length bs] = ys @ k # zs" "cache p pid {} u" "disksize u = disksize s" "beyond u = beyond s"
      "pinned_blks u = pinned_blks s - slot ?st ` set ys"
    have ks: "set ys \<subseteq> {..<length bs}" "k < length bs"
      using arg_cong [OF u(1), of set] by auto
    have pu: "pinned_blks u = set bs"
    proof -
      have "b \<notin> slot ?st ` set ys" if "b \<in> set bs" for b
        using that ks(1) slot_not_logged [OF assms(1)] by (force simp: in_set_conv_nth)
      then show ?thesis using u(5) assms(2) by auto
    qed
    note d = loggedD [OF assms(1) ks(2)] and r = slot_region [OF l(2) loggedD(4) [OF assms(1) ks(2)]]
    have "\<exists>t. kbind (bread 1 (slot ?st k)) (\<lambda>j. kbind (bread 1 (bs ! k)) (\<lambda>i.
        kdo [kmod (\<lambda>s. set_buf_dat j (buf_dat s i) s), bwrite j, brelse i, brelse j])) u = Ok () t
        \<and> bc.copied p pid (bs ! k) (slot ?st k) u t"
      by (rule bc.copy_dst_first [OF u(2)])
        (use slot_not_logged [OF assms(1) ks(2) ks(2)] d(2) r(3) pu ks(2) c u(3) in auto)
    then show "\<exists>t. ?f k u = Ok () t \<and> bc.copied p pid (bs ! k) (slot ?st k) u t"
      using d l(3) by (simp add: copy_data_def slot_def)
  next
    show "bs ! x \<noteq> slot ?st y" if "x \<in> set [0..<length bs]" "y \<in> set [0..<length bs]" for x y
      using that slot_not_logged [OF assms(1)] by simp
  qed
  moreover have "pinned_blks s - slot ?st ` set [0..<length bs] = set bs"
    using assms(2) slot_not_logged [OF assms(1)] by (force simp: in_set_conv_nth)
  ultimately show ?thesis using l(5) by (auto simp: write_log_def)
qed

text \<open>Installation works with the logged blocks pinned, as in \<open>commit\<close>, or with nothing pinned, as at boot.\<close>

lemma install_trans_run:
  fixes s :: "'x log_state_scheme"
  assumes "logged p pid bs s" "pinned_blks s = set bs \<or> pinned_blks s = {}"
  defines "W \<equiv> rev (map (\<lambda>k. (bs ! k, view s (slot (lg_start (lg s)) k))) [0..<length bs])"
  shows "\<exists>t. install_trans s = Ok () t \<and> cache p pid {} t \<and> beyond t = beyond s \<and> pinned_blks t = {}
    \<and> view t = disk_of (view s) W \<and> disk t = disk_of (disk s) W \<and> disk_writes t = W @ disk_writes s"
proof -
  let ?st = "lg_start (lg s)"
  let ?f = "\<lambda>tail. if tail \<ge> LOGSIZE then kpanic ''array bounds''
     else kbind (bread (lg_dev (lg s)) (?st + of_nat tail + 1)) (\<lambda>lbuf.
       kbind (bread (lg_dev (lg s)) (lg_block (lg s) ! tail)) (\<lambda>dbuf.
       kdo [copy_data dbuf lbuf, bwrite dbuf, brelse lbuf, brelse dbuf]))"
  have l: "cache p pid {} s" "unat ?st + LOGSIZE < unat (disksize s)" "lg_dev (lg s) = 1" "length bs < LOGSIZE"
    "lg_n (lg s) = int (length bs)" "distinct bs" using assms(1) by (simp_all add: logged_def)
  have c: "card (set bs) < NBUF" using card_length [of bs] l(4) by linarith
  have "\<exists>t. keach ?f [0..<length bs] s = Ok () t \<and> cache p pid {} t \<and> disksize t = disksize s \<and> beyond t = beyond s
    \<and> pinned_blks t = pinned_blks s - (!) bs ` set [0..<length bs]
    \<and> view t = disk_of (view s) W \<and> disk t = disk_of (disk s) W \<and> disk_writes t = W @ disk_writes s"
    unfolding W_def
  proof (rule bc.copies [OF _ l(1)])
    fix ys k zs and u :: "'x log_state_scheme"
    assume u: "[0..<length bs] = ys @ k # zs" "cache p pid {} u" "disksize u = disksize s" "beyond u = beyond s"
      "pinned_blks u = pinned_blks s - (!) bs ` set ys"
    have ks: "set ys \<subseteq> {..<length bs}" "k < length bs" "k \<notin> set ys"
      using arg_cong [OF u(1), of set] arg_cong [OF u(1), of distinct] by auto
    note d = loggedD [OF assms(1) ks(2)] and r = slot_region [OF l(2) loggedD(4) [OF assms(1) ks(2)]]
    have pu: "pinned_blks u \<subseteq> set bs" "bs ! k \<in> pinned_blks u \<or> pinned_blks u = {}"
    proof -
      show "pinned_blks u \<subseteq> set bs" using u(5) assms(2) by auto
      have "bs ! k \<notin> (!) bs ` set ys"
        using ks l(6) by (auto simp: nth_eq_iff_index_eq)
      then show "bs ! k \<in> pinned_blks u \<or> pinned_blks u = {}" using u(5) assms(2) ks(2) by auto
    qed
    have cu: "card (pinned_blks u) < NBUF" using card_mono [OF _ pu(1)] c by simp
    have "\<exists>t. kbind (bread 1 (slot ?st k)) (\<lambda>i. kbind (bread 1 (bs ! k)) (\<lambda>j.
        kdo [kmod (\<lambda>s. set_buf_dat j (buf_dat s i) s), bwrite j, brelse i, brelse j])) u = Ok () t
        \<and> bc.copied p pid (slot ?st k) (bs ! k) u t"
      by (rule bc.copy_src_first [OF u(2)])
        (use slot_not_logged [OF assms(1) ks(2) ks(2)] d(2) r(3) pu(2) cu u(3) in auto)
    then show "\<exists>t. ?f k u = Ok () t \<and> bc.copied p pid (slot ?st k) (bs ! k) u t"
      using d l(3) by (simp add: copy_data_def slot_def)
  next
    show "slot ?st x \<noteq> bs ! y" if "x \<in> set [0..<length bs]" "y \<in> set [0..<length bs]" for x y
      using that slot_not_logged [OF assms(1), of y x] by simp
  qed
  moreover have "(!) bs ` set [0..<length bs] = set bs" by (metis map_nth set_map)
  ultimately show ?thesis using l(5) assms(2) by (auto simp: install_trans_def)
qed

lemma write_head_run:
  fixes s :: "'x log_state_scheme"
  assumes "cache p pid {} s" "lg_dev (lg s) = 1" "lg_n (lg s) \<le> 30" "lg_start (lg s) < disksize s"
    and "card (pinned_blks s) < NBUF" "lg_start (lg s) \<notin> pinned_blks s"
  defines "h \<equiv> put_header (lg_n (lg s)) (lg_block (lg s)) (view s (lg_start (lg s)))"
  shows "\<exists>t. write_head s = Ok () t \<and> cache p pid {} t \<and> beyond t = beyond s \<and> pinned_blks t = pinned_blks s
    \<and> view t = (view s)(lg_start (lg s) := h) \<and> disk t = (disk s)(lg_start (lg s) := h)
    \<and> disk_writes t = (lg_start (lg s), h) # disk_writes s"
proof -
  let ?st = "lg_start (lg s)" and ?f = "put_header (lg_n (lg s)) (lg_block (lg s))"
  have "\<exists>t. kbind (bread 1 ?st) (\<lambda>i. kdo [kmod (\<lambda>s. set_buf_dat i (?f (buf_dat s i)) s), bwrite i, brelse i]) s = Ok () t
    \<and> cache p pid {} t \<and> view t = (view s)(?st := ?f (view s ?st)) \<and> pinned_blks t = pinned_blks s - {?st}
    \<and> disk t = (disk s)(?st := ?f (view s ?st)) \<and> disk_writes t = (?st, ?f (view s ?st)) # disk_writes s
    \<and> disksize t = disksize s \<and> beyond t = beyond s"
    by (rule bc.write_block [OF assms(1,4)]) (use assms(5) in auto)
  then show ?thesis using assms(2,3,6) by (auto simp: write_head_def h_def)
qed

lemma logged_frame:
  assumes "logged p pid bs s" "cache p pid {} t" "beyond t = beyond s"
  shows "logged p pid bs t"
  using assms beyond_lg [OF assms(3)] by (simp add: logged_def)

section \<open>Commit and recovery on the disk\<close>

text \<open>What \<open>recover_from_log\<close> makes of a disk: the blocks named by the header get the contents the log
  has for them.\<close>

definition recovered :: "uint \<Rightarrow> (uint \<Rightarrow> uchar list) \<Rightarrow> uint \<Rightarrow> uchar list" where
  "recovered st d = (let n = nat (cint (get32 (d st) 0)); bs = header_blocks n (d st) in
     disk_of d (rev (map (\<lambda>k. (bs ! k, d (slot st k))) [0..<n])))"

lemma recovered_empty: "cint (get32 (d st) 0) = 0 \<Longrightarrow> recovered st d = d"
  by (simp add: recovered_def)

lemma disk_of_const:
  assumes "\<And>c e. (c, e) \<in> set ws \<Longrightarrow> e = v c" "b \<in> fst ` set ws"
  shows "disk_of d ws b = v b"
proof -
  obtain e where e: "map_of ws b = Some e" using assms(2) by (metis map_of_eq_None_iff not_None_eq)
  then show ?thesis using assms(1) [OF map_of_SomeD [OF e]] by (simp add: disk_of_def)
qed

text \<open>The writes of a commit, newest first, and the states a crash can leave.\<close>

definition log_writes :: "uint \<Rightarrow> uint list \<Rightarrow> (uint \<Rightarrow> uchar list) \<Rightarrow> (uint \<times> uchar list) list" where
  "log_writes st bs v = rev (map (\<lambda>k. (slot st k, v (bs ! k))) [0..<length bs])"

definition home_writes :: "uint list \<Rightarrow> (uint \<Rightarrow> uchar list) \<Rightarrow> (uint \<times> uchar list) list" where
  "home_writes bs v = rev (map (\<lambda>k. (bs ! k, v (bs ! k))) [0..<length bs])"

lemma home_writes_simps:
  "fst ` set (home_writes bs v) = set bs" "(c, e) \<in> set (home_writes bs v) \<Longrightarrow> e = v c"
proof -
  have "fst ` set (home_writes bs v) = (!) bs ` set [0..<length bs]" by (force simp: home_writes_def)
  then show "fst ` set (home_writes bs v) = set bs" by (metis map_nth set_map)
qed (auto simp: home_writes_def)

lemma home_writes_disk: "disk_of d (home_writes bs v) b = (if b \<in> set bs then v b else d b)"
proof (cases "b \<in> set bs")
  case True
  then show ?thesis
    using disk_of_const [of "home_writes bs v" v b d] home_writes_simps(1) [of bs v]
      home_writes_simps(2) [where bs = bs and v = v] by auto
next
  case False
  then show ?thesis using home_writes_simps(1) [of bs v] by (simp add: disk_of_other)
qed

lemma log_writes_region:
  fixes st sz :: uint
  assumes "unat st + LOGSIZE < unat sz" "length bs \<le> LOGSIZE"
  shows "fst ` set (log_writes st bs v) \<subseteq> region st - {st}"
  using assms slot_region(2,5) [OF assms(1)] by (auto simp: log_writes_def)

lemma log_writes_slot:
  fixes st sz :: uint
  assumes "unat st + LOGSIZE < unat sz" "length bs \<le> LOGSIZE" "k < length bs"
  shows "disk_of d (log_writes st bs v) (slot st k) = v (bs ! k)"
proof -
  have i: "inj_on (slot st) {0..<length bs}" using slot_inj [OF assms(1)] assms(2) by (auto simp: inj_on_def)
  have "map fst (log_writes st bs v) = rev (map (slot st) [0..<length bs])"
    by (simp add: log_writes_def rev_map comp_def)
  then have "distinct (map fst (log_writes st bs v))" using i by (simp add: distinct_map)
  moreover have "(slot st k, v (bs ! k)) \<in> set (log_writes st bs v)" using assms(3) by (auto simp: log_writes_def)
  ultimately have "map_of (log_writes st bs v) (slot st k) = Some (v (bs ! k))" by (rule map_of_is_SomeI)
  then show ?thesis by (simp add: disk_of_def)
qed

text \<open>With the header written, whatever part of the home blocks has been installed, recovery completes
  the transaction.\<close>

lemma recovered_committed:
  fixes st sz :: uint
  assumes r: "unat st + LOGSIZE < unat sz" "length bs < LOGSIZE" "set bs \<inter> region st = {}"
    and h: "cint (get32 h 0) = int (length bs)" "header_blocks (length bs) h = bs"
    and c: "fst ` set c \<subseteq> set bs" "\<And>x e. (x, e) \<in> set c \<Longrightarrow> e = v x"
    and b: "b \<notin> region st"
  shows "recovered st (disk_of d (c @ (st, h) # log_writes st bs v)) b = (if b \<in> set bs then v b else d b)"
proof -
  let ?e = "disk_of d (c @ (st, h) # log_writes st bs v)"
  have st: "st \<notin> fst ` set c" using c(1) r(3) start_region by blast
  have h': "?e st = h" using st by (simp add: disk_of_append disk_of_Cons disk_of_other)
  have s: "?e (slot st k) = v (bs ! k)" if k: "k < length bs" for k
  proof -
    have sl: "slot st k \<in> region st" "slot st k \<noteq> st" using slot_region(2,5) [OF r(1)] r(2) k by simp_all
    then have "slot st k \<notin> fst ` set c" using c(1) r(3) by blast
    then show ?thesis
      using sl log_writes_slot [OF r(1) _ k] r(2) by (simp add: disk_of_append disk_of_Cons disk_of_other)
  qed
  have m: "map (\<lambda>k. (bs ! k, ?e (slot st k))) [0..<length bs] = map (\<lambda>k. (bs ! k, v (bs ! k))) [0..<length bs]"
    by (rule map_cong) (simp_all add: s)
  have e: "recovered st ?e = disk_of ?e (home_writes bs v)"
    by (simp only: recovered_def h' h Let_def nat_int home_writes_def m)
  show ?thesis
  proof (cases "b \<in> set bs")
    case True
    then show ?thesis using e by (simp add: home_writes_disk)
  next
    case False
    have "b \<notin> fst ` set (log_writes st bs v)" using log_writes_region [OF r(1), of bs v] r(2) b by auto
    moreover have "b \<noteq> st" "b \<notin> fst ` set c" using b start_region False c(1) by auto
    ultimately have "?e b = d b" by (simp add: disk_of_append disk_of_Cons disk_of_other)
    then show ?thesis using False e by (simp add: home_writes_disk)
  qed
qed

text \<open>Every crash during a commit recovers to the disk before it or to the disk after it.\<close>

lemma commit_writes_safe:
  fixes st sz :: uint
  assumes r: "unat st + LOGSIZE < unat sz" "length bs < LOGSIZE" "set bs \<inter> region st = {}"
    and h1: "cint (get32 h1 0) = int (length bs)" "header_blocks (length bs) h1 = bs"
    and h0: "cint (get32 h0 0) = 0" and d0: "cint (get32 (d st) 0) = 0"
    and w: "(st, h0) # home_writes bs v @ (st, h1) # log_writes st bs v = newer @ ws"
  shows "(\<forall>b. b \<notin> region st \<longrightarrow> recovered st (disk_of d ws) b = d b)
    \<or> (\<forall>b. b \<notin> region st \<longrightarrow> recovered st (disk_of d ws) b = (if b \<in> set bs then v b else d b))"
proof -
  let ?new = "\<lambda>b. if b \<in> set bs then v b else d b"
  have all: "disk_of d ((st, h0) # home_writes bs v @ (st, h1) # log_writes st bs v) b = ?new b" if b: "b \<notin> region st" for b
  proof -
    have "b \<noteq> st" "b \<notin> fst ` set (log_writes st bs v)"
      using b start_region log_writes_region [OF r(1), of bs v] r(2) by fastforce+
    then show ?thesis by (simp add: disk_of_append disk_of_Cons disk_of_other home_writes_disk)
  qed
  show ?thesis
  proof (cases newer)
    case Nil
    then have ws: "ws = (st, h0) # home_writes bs v @ (st, h1) # log_writes st bs v" using w by simp
    then have "recovered st (disk_of d ws) = disk_of d ws"
      using h0 by (intro recovered_empty) (simp add: disk_of_Cons)
    then show ?thesis using all ws by simp
  next
    case (Cons x newer')
    then have "home_writes bs v @ (st, h1) # log_writes st bs v = newer' @ ws" using w by simp
    then consider c where "home_writes bs v = newer' @ c" "ws = c @ (st, h1) # log_writes st bs v"
      | c where "(st, h1) # log_writes st bs v = c @ ws"
      by (auto simp: append_eq_append_conv2)
    then show ?thesis
    proof cases
      case 1
      have "fst ` set c \<subseteq> set bs" "\<And>y e. (y, e) \<in> set c \<Longrightarrow> e = v y"
        using home_writes_simps(1) [of bs v] home_writes_simps(2) [where bs = bs and v = v] 1(1) by auto
      then show ?thesis using recovered_committed [OF r h1, of c v _ d] 1(2) by blast
    next
      case 2
      show ?thesis
      proof (cases c)
        case Nil
        then show ?thesis using recovered_committed [OF r h1, of "[]" v _ d] 2 by auto
      next
        case (Cons y c')
        then have c': "log_writes st bs v = c' @ ws" using 2 by simp
        then have k: "fst ` set ws \<subseteq> region st - {st}" using log_writes_region [OF r(1), of bs v] r(2) by auto
        then have "disk_of d ws st = d st" by (intro disk_of_other) blast
        then have "recovered st (disk_of d ws) = disk_of d ws" using d0 by (intro recovered_empty) simp
        moreover have "disk_of d ws b = d b" if "b \<notin> region st" for b
          using that k by (intro disk_of_other) blast
        ultimately show ?thesis by simp
      qed
    qed
  qed
qed

section \<open>Properties\<close>

lemma commit_run:
  fixes s :: "'x log_state_scheme"
  assumes "logged p pid bs s" "pinned_blks s = set bs" "bs \<noteq> []"
  defines "st \<equiv> lg_start (lg s)"
  shows "\<exists>t h0 h1. commit s = Ok () t \<and> cache p pid {} t \<and> pinned_blks t = {} \<and> lg_n (lg t) = 0
    \<and> disk_image t = disk_image s \<and> log_state.more t = log_state.more s
    \<and> disk_writes t = ((st, h0) # home_writes bs (view s) @ (st, h1) # log_writes st bs (view s)) @ disk_writes s
    \<and> cint (get32 h1 0) = int (length bs) \<and> header_blocks (length bs) h1 = bs \<and> cint (get32 h0 0) = 0"
proof -
  have l: "cache p pid {} s" "unat st + LOGSIZE < unat (disksize s)" "lg_dev (lg s) = 1" "length bs < LOGSIZE"
    "lg_n (lg s) = int (length bs)" "length (lg_block (lg s)) = LOGSIZE" "take (length bs) (lg_block (lg s)) = bs"
    "set bs \<inter> region st = {}"
    using assms(1) by (simp_all add: logged_def st_def)
  have c: "card (set bs) < NBUF" "st < disksize s" "st \<notin> set bs"
    using card_length [of bs] l(4,8) slot_region(4) [OF l(2), of 0] start_region by (auto simp: le_less_trans)
  let ?L = "log_writes st bs (view s)" and ?H = "home_writes bs (view s)"
  obtain u where u: "write_log s = Ok () u" "cache p pid {} u" "beyond u = beyond s" "pinned_blks u = set bs"
      "view u = disk_of (view s) ?L" "disk_writes u = ?L @ disk_writes s"
    using write_log_run [OF assms(1,2)] by (auto simp: log_writes_def st_def)
  note bu = beyond_lg [OF u(3)]
  define h1 where "h1 = put_header (lg_n (lg u)) (lg_block (lg u)) (view u st)"
  obtain v where v: "write_head u = Ok () v" "cache p pid {} v" "beyond v = beyond u" "pinned_blks v = set bs"
      "view v = (view u)(st := h1)" "disk_writes v = (st, h1) # disk_writes u"
    using write_head_run [OF u(2)] bu l(3,4,5) c u(4) by (auto simp: h1_def st_def)
  note bv = beyond_lg [OF v(3)]
  have lv: "logged p pid bs v" using logged_frame [OF logged_frame [OF assms(1) u(2,3)] v(2,3)] .
  have "view v (slot st k) = view s (bs ! k)" if "k < length bs" for k
    using that log_writes_slot [OF l(2), of bs k] l(4) slot_region(5) [OF l(2), of k] v(5) u(5) by simp
  then have W: "rev (map (\<lambda>k. (bs ! k, view v (slot (lg_start (lg v)) k))) [0..<length bs]) = ?H"
    using bu bv by (simp add: home_writes_def st_def cong: map_cong)
  obtain w where w: "install_trans v = Ok () w" "cache p pid {} w" "beyond w = beyond v" "pinned_blks w = {}"
      "disk_writes w = ?H @ disk_writes v"
    using install_trans_run [OF lv] v(4) unfolding W by auto
  note bw = beyond_lg [OF w(3)]
  let ?w = "w\<lparr>lg := (lg w)\<lparr>lg_n := 0\<rparr>\<rparr>"
  define h0 where "h0 = put_header 0 (lg_block (lg w)) (view w st)"
  have ww: "cache p pid {} ?w" using w(2) by simp
  obtain t where t: "write_head ?w = Ok () t" "cache p pid {} t" "beyond t = beyond ?w" "pinned_blks t = {}"
      "disk_writes t = (st, h0) # disk_writes w"
    using write_head_run [OF ww] bu bv bw l(3) c(2) w(4) by (auto simp: h0_def st_def)
  note bt = beyond_lg [OF t(3)]
  have "commit s = Ok () t" using u(1) v(1) w(1) t(1) l(5) assms(3) by (simp add: commit_def)
  moreover have "cint (get32 h0 0) = 0"
    using put_header_get(1) [of "view w st" 0] cache_len [OF w(2)] by (simp add: h0_def)
  moreover have "cint (get32 h1 0) = int (length bs)" "header_blocks (length bs) h1 = bs"
    using put_header_get [of "view u st" "int (length bs)" "lg_block (lg s)"] cache_len [OF u(2)] bu l
    by (simp_all add: h1_def)
  ultimately show ?thesis using t w v u bt bw bv bu by (auto intro!: exI [of _ t] exI [of _ h0] exI [of _ h1])
qed

text \<open>C1: a commit is atomic. The transaction is the blocks \<open>bs\<close> named by the in-memory log, changed in the
  cache (\<open>view\<close>) and not yet on disk. \<open>commit\<close> returns with every block outside the log region on disk
  as the cache has it and with an empty log; and if the machine stops after any number of its
  disk writes, recovery of what is on disk then gives either every block as it was before the commit
  or every block as it is after it. A write of a block is taken to be atomic and writes reach the
  disk in order.\<close>

theorem commit_crash_safe:
  fixes s :: "'x log_state_scheme"
  assumes "logged p pid bs s" "pinned_blks s = set bs" "bs \<noteq> []" "cint (get32 (disk s (lg_start (lg s))) 0) = 0"
  shows "\<exists>t. commit s = Ok () t \<and> lg_n (lg t) = 0 \<and> pinned_blks t = {}
    \<and> (\<forall>b. b \<notin> region (lg_start (lg s)) \<longrightarrow> disk t b = view s b)
    \<and> cint (get32 (disk t (lg_start (lg s))) 0) = 0
    \<and> (\<forall>newer ws. disk_writes t = newer @ ws @ disk_writes s \<longrightarrow>
        (let d = recovered (lg_start (lg s)) (disk_of (disk_image s) (ws @ disk_writes s)) in
          (\<forall>b. b \<notin> region (lg_start (lg s)) \<longrightarrow> d b = disk s b)
          \<or> (\<forall>b. b \<notin> region (lg_start (lg s)) \<longrightarrow> d b = view s b)))"
proof -
  let ?st = "lg_start (lg s)"
  have l: "cache p pid {} s" "unat ?st + LOGSIZE < unat (disksize s)" "length bs < LOGSIZE" "set bs \<inter> region ?st = {}"
    using assms(1) by (simp_all add: logged_def)
  obtain t h0 h1 where t: "commit s = Ok () t" "cache p pid {} t" "pinned_blks t = {}" "lg_n (lg t) = 0"
      "disk_image t = disk_image s"
      "disk_writes t = ((?st, h0) # home_writes bs (view s) @ (?st, h1) # log_writes ?st bs (view s)) @ disk_writes s"
      "cint (get32 h1 0) = int (length bs)" "header_blocks (length bs) h1 = bs" "cint (get32 h0 0) = 0"
    using commit_run [OF assms(1-3)] by blast
  have v: "(if b \<in> set bs then view s b else disk s b) = view s b" for b
    using cache_clean [OF l(1), of b] assms(2) by simp
  have safe: "(\<forall>b. b \<notin> region ?st \<longrightarrow> recovered ?st (disk_of (disk s) ws) b = disk s b)
      \<or> (\<forall>b. b \<notin> region ?st \<longrightarrow> recovered ?st (disk_of (disk s) ws) b = view s b)"
    if w: "disk_writes t = newer @ ws @ disk_writes s" for newer ws
  proof -
    have "(?st, h0) # home_writes bs (view s) @ (?st, h1) # log_writes ?st bs (view s) = newer @ ws" using w t(6) by simp
    from commit_writes_safe [where d = "disk s", OF l(2-4) t(7-9) assms(4) this] show ?thesis by (simp only: v)
  qed
  have d: "disk t = disk_of (disk s) ((?st, h0) # home_writes bs (view s) @ (?st, h1) # log_writes ?st bs (view s))"
    using t(5,6) by (simp only: disk_of_append)
  have "disk t b = view s b" if b: "b \<notin> region ?st" for b
  proof -
    have "b \<noteq> ?st" "b \<notin> fst ` set (log_writes ?st bs (view s))"
      using b start_region log_writes_region [OF l(2), of bs "view s"] l(3) by auto
    then show ?thesis
      using cache_clean [OF l(1), of b] assms(2) by (auto simp: d disk_of_append disk_of_Cons disk_of_other home_writes_disk)
  qed
  moreover have "cint (get32 (disk t ?st) 0) = 0" using t(9) by (simp add: d disk_of_Cons)
  ultimately show ?thesis using t(1,3,4) safe by (auto simp: disk_of_append Let_def)
qed

subsection \<open>A concrete disk\<close>

definition plain_buf :: buf where
  "plain_buf = \<lparr>b_valid = False, b_dirty = False, b_dev = 0, b_blockno = 0, b_refcnt = 0, b_data = replicate BSIZE 0\<rparr>"

lemma plain_buf_simps [simp]:
  "b_valid plain_buf = False" "b_dirty plain_buf = False" "b_dev plain_buf = 0" "b_blockno plain_buf = 0"
  "b_refcnt plain_buf = 0" "b_data plain_buf = replicate BSIZE 0"
  by (simp_all add: plain_buf_def)

lemma demo_bufs: "i < 30 \<Longrightarrow> (b0 # replicate 29 plain_buf) ! i = (if i = 0 then b0 else plain_buf)"
  by (cases i) simp_all

text \<open>A disk of 1000 zero blocks with the log at block 2; \<open>b0\<close> is in the first buffer and \<open>bs\<close> is logged.\<close>

definition log_demo :: "buf \<Rightarrow> uint list \<Rightarrow> log_state" where
  "log_demo b0 bs = sl_state.extend sl_demo
     \<lparr>bufs = b0 # replicate 29 plain_buf,
      bprev = (\<lambda>r. case r of BHead \<Rightarrow> BBuf 0 | BBuf i \<Rightarrow> if i = 29 then BHead else BBuf (i + 1)),
      bnext = (\<lambda>r. case r of BHead \<Rightarrow> BBuf 29 | BBuf i \<Rightarrow> if i = 0 then BHead else BBuf (i - 1)),
      disk_image = (\<lambda>_. replicate BSIZE 0), disk_writes = [], disksize = 1000,
      lg = \<lparr>lg_start = 2, lg_size = 30, lg_outstanding = 0, lg_committing = True, lg_dev = 1,
            lg_n = int (length bs), lg_block = bs @ replicate (30 - length bs) 0\<rparr>\<rparr>"

lemma log_demo_simps [simp]:
  "bufs (log_demo b0 bs) = b0 # replicate 29 plain_buf" "disk_writes (log_demo b0 bs) = []"
  "disk_image (log_demo b0 bs) = (\<lambda>_. replicate BSIZE 0)" "disksize (log_demo b0 bs) = 1000"
  "lg_start (lg (log_demo b0 bs)) = 2" "lg_dev (lg (log_demo b0 bs)) = 1" "lg_n (lg (log_demo b0 bs)) = int (length bs)"
  "lg_block (lg (log_demo b0 bs)) = bs @ replicate (30 - length bs) 0" "slocks (log_demo b0 bs) = slocks sl_demo"
  by (simp_all add: log_demo_def sl_state.defs)

lemma log_demo_env: "env 0 3 (log_demo b0 bs)"
proof -
  have "env 0 3 sl_demo"
    by (simp add: env_def sl_demo_ok smp_demo_ok) (simp add: smp_demo_def vm_state.defs)
  moreover have "lk_ok (log_demo b0 bs) = lk_ok sl_demo" "held (log_demo b0 bs) = held sl_demo"
    "curproc (log_demo b0 bs) = curproc sl_demo" "procs (log_demo b0 bs) = procs sl_demo"
    by (simp_all add: log_demo_def sl_state.defs lk_ok_def held_def curproc_def mycpu_index_def)
  ultimately show ?thesis by (simp add: env_def)
qed

lemma log_demo_lru: "lru (log_demo b0 bs) (rev [0..<30])"
proof -
  have u: "[0..<30] = [0, 1, 2, 3, 4, 5, 6, 7, 8, 9, 10, 11, 12, 13, 14, 15, 16, 17, 18, 19, 20, 21, 22, 23, 24, 25, 26, 27, 28, 29 :: nat]"
    by (simp add: upt_rec)
  have "links (bnext (log_demo b0 bs)) BHead (rev [0..<30]) BHead"
    "links (bprev (log_demo b0 bs)) BHead (rev (rev [0..<30])) BHead"
    unfolding u by (simp_all add: log_demo_def sl_state.defs)
  moreover have "set (rev [0..<30]) = {..<30 :: nat}" by auto
  ultimately show ?thesis by (simp add: lru_def dll_def)
qed

lemma log_demo_cache:
  assumes "b_refcnt b0 = 0" "b_dirty b0" "b_valid b0" "b_dev b0 = 1" "b_blockno b0 < 1000" "length (b_data b0) = BSIZE"
  shows "cache 0 3 {} (log_demo b0 bs)"
proof -
  have u: "\<not> in_use (log_demo b0 bs) i" for i by (simp add: in_use_def sl_demo_def proc_state.defs)
  have "bc_ok (log_demo b0 bs)"
    using log_demo_lru [of b0 bs] assms u by (auto simp: bc_ok_def buf_ok_def demo_bufs disk_of_def split: if_splits)
  then show ?thesis using log_demo_env u by (simp add: cache_def)
qed

lemma region_2: "40 \<notin> region 2"
proof
  assume "40 \<in> region 2"
  then obtain k where k: "k \<le> 30" "(40 :: uint) = 2 + of_nat k" by (auto simp: region_def)
  have "unat (2 + of_nat k :: uint) = 2 + k" using unat_region [of 2 k] k(1) by simp
  then have "unat (40 :: uint) = 2 + k" using k(2) by simp
  then show False using k(1) by simp
qed

theorem commit_crash_safe_witness:
  "\<exists>t. commit (log_demo (plain_buf\<lparr>b_valid := True, b_dirty := True, b_dev := 1, b_blockno := 40,
       b_data := replicate BSIZE 7\<rparr>) [40]) = Ok () t \<and> disk t 40 = replicate BSIZE 7"
proof -
  let ?b = "plain_buf\<lparr>b_valid := True, b_dirty := True, b_dev := 1, b_blockno := 40, b_data := replicate BSIZE 7\<rparr>"
  let ?s = "log_demo ?b [40]"
  have c: "cache 0 3 {} ?s" by (rule log_demo_cache) simp_all
  have p: "pinned_blks ?s = set [40]"
    by (auto simp: pinned_blks_def holds_block_def demo_bufs split: if_splits intro!: exI [of _ 0])
  have l: "logged 0 3 [40] ?s" using c region_2 by (simp add: logged_def)
  have e: "cint (get32 (disk ?s (lg_start (lg ?s))) 0) = 0" by (simp add: disk_of_def get32_def cint_def)
  have v: "view ?s 40 = replicate BSIZE 7" by (simp add: view_def)
  from commit_crash_safe [OF l p _ e] v region_2 show ?thesis by auto
qed

text \<open>C8: booting after a crash. With a log header that names distinct blocks outside the log region,
  \<open>recover_from_log\<close> returns, the disk outside the log region is the recovered one, and the log is empty,
  in memory and on disk.\<close>

theorem recover_from_log_correct:
  fixes s :: "'x log_state_scheme"
  assumes "cache p pid {} s" "pinned_blks s = {}" "lg_dev (lg s) = 1" "length (lg_block (lg s)) = LOGSIZE"
    and "unat (lg_start (lg s)) + LOGSIZE < unat (disksize s)"
    and "cint (get32 (disk s (lg_start (lg s))) 0) = int n" "n < LOGSIZE"
    and "distinct (header_blocks n (disk s (lg_start (lg s))))"
    and "set (header_blocks n (disk s (lg_start (lg s)))) \<inter> region (lg_start (lg s)) = {}"
    and "\<forall>b\<in>set (header_blocks n (disk s (lg_start (lg s)))). b < disksize s"
  shows "\<exists>t. recover_from_log s = Ok () t \<and> cache p pid {} t \<and> lg_n (lg t) = 0
    \<and> cint (get32 (disk t (lg_start (lg s))) 0) = 0
    \<and> (\<forall>b. b \<notin> region (lg_start (lg s)) \<longrightarrow> disk t b = recovered (lg_start (lg s)) (disk s) b)"
proof -
  let ?st = "lg_start (lg s)" and ?bs = "header_blocks n (disk s (lg_start (lg s)))"
  have vd: "view s = disk s" using cache_clean [OF assms(1)] assms(2) by auto
  have st: "?st < disksize s" using slot_region(4) [OF assms(5), of 0] by simp
  obtain i u where u: "bread 1 ?st s = Ok i u" "cache p pid {i} u" "buf_blk u i = ?st" "view u = view s"
      "pinned_blks u = {}" "disk u = disk s" "beyond u = beyond s"
    using cache_read [OF assms(1), of ?st] st assms(2) by auto
  let ?l = "(lg s)\<lparr>lg_n := int n, lg_block := ?bs @ drop n (lg_block (lg s))\<rparr>"
  have d: "buf_dat u i = disk s ?st" using cache_data [OF u(2), of i] u(3,4) vd by simp
  have cu: "cache p pid {i} (u\<lparr>lg := ?l\<rparr>)" using u(2) by simp
  have bu: "buf_blk (u\<lparr>lg := ?l\<rparr>) i = ?st" using u(3) by (simp add: buf_blk_def)
  obtain v where v: "brelse i (u\<lparr>lg := ?l\<rparr>) = Ok () v" "cache p pid {} v" "view v = view s" "pinned_blks v = {}"
      "disk v = disk s" "beyond v = beyond (u\<lparr>lg := ?l\<rparr>)"
    using cache_release [OF cu, of i] bu u(4-6) vd by auto
  have r: "read_head s = Ok () v"
    using u(1) v(1) d assms(3,6,7) beyond_lg(1) [OF u(7)] by (simp add: read_head_def Let_def)
  have lv: "lg v = ?l" "disksize v = disksize s" using beyond_lg [OF v(6)] beyond_lg [OF u(7)] by simp_all
  have len: "length ?bs = n" by (simp add: header_blocks_def)
  have logv: "logged p pid ?bs v" using assms v(2) lv len by (simp add: logged_def)
  obtain w where w: "install_trans v = Ok () w" "cache p pid {} w" "beyond w = beyond v" "pinned_blks w = {}"
      "disk w = disk_of (disk v) (rev (map (\<lambda>k. (?bs ! k, view v (slot ?st k))) [0..<n]))"
    using install_trans_run [OF logv] v(4) lv(1) len by auto
  have dw: "disk w = recovered ?st (disk s)" using w(5) v(3,5) vd assms(6) by (simp add: recovered_def)
  note bw = beyond_lg [OF w(3)]
  let ?w = "w\<lparr>lg := (lg w)\<lparr>lg_n := 0\<rparr>\<rparr>"
  have ww: "cache p pid {} ?w" using w(2) by simp
  obtain t where t: "write_head ?w = Ok () t" "cache p pid {} t" "beyond t = beyond ?w"
      "disk t = (disk w)(?st := put_header 0 (lg_block (lg w)) (view w ?st))"
    using write_head_run [OF ww] bw lv assms(3) st w(4) by auto
  have "recover_from_log s = Ok () t" using r w(1) t(1) by (simp add: recover_from_log_def)
  moreover have "lg_n (lg t) = 0" using beyond_lg(1) [OF t(3)] by simp
  moreover have "cint (get32 (disk t ?st) 0) = 0"
    using put_header_get(1) [of "view w ?st" 0] cache_len [OF w(2)] t(4) by simp
  moreover have "disk t b = recovered ?st (disk s) b" if "b \<notin> region ?st" for b
    using that start_region [of ?st] t(4) dw by auto
  ultimately show ?thesis using t(2) by blast
qed

text \<open>The same state on another disk, with nothing cached.\<close>

lemma boot_demo:
  assumes "\<And>b. length (d b) = BSIZE"
  shows "cache 0 3 {} ((log_demo plain_buf [])\<lparr>disk_image := d\<rparr>)" "pinned_blks ((log_demo plain_buf [])\<lparr>disk_image := d\<rparr>) = {}"
proof -
  let ?s = "(log_demo plain_buf [])\<lparr>disk_image := d\<rparr>"
  have u: "\<not> in_use ?s i" for i by (simp add: in_use_def sl_demo_def proc_state.defs)
  have r: "lru ?s (rev [0..<30])" using log_demo_lru [of plain_buf "[]"] by (simp add: lru_def)
  have "lk_ok ?s = lk_ok (log_demo plain_buf [])" "held ?s = held (log_demo plain_buf [])"
    "curproc ?s = curproc (log_demo plain_buf [])"
    by (simp_all add: lk_ok_def held_def curproc_def mycpu_index_def)
  then have "env 0 3 ?s" using log_demo_env [of plain_buf "[]"] by (simp add: env_def)
  moreover have "bc_ok ?s" using r u assms by (auto simp: bc_ok_def buf_ok_def demo_bufs disk_of_def)
  ultimately show "cache 0 3 {} ?s" using u by (simp add: cache_def)
  show "pinned_blks ?s = {}" by (auto simp: pinned_blks_def holds_block_def demo_bufs)
qed

subsection \<open>Instances of the buffer cache properties\<close>

theorem bget_least_recent_witness:
  "\<exists>t. bget 1 40 (log_demo plain_buf []) = Ok 0 t \<and> lru t (rev [0..<30])"
proof -
  let ?s = "log_demo plain_buf []"
  have f: "find (\<lambda>i. match 1 40 (bufs ?s ! i)) (rev [0..<30]) = None"
    by (auto simp: find_None_iff match_def demo_bufs)
  have g: "find (\<lambda>i. b_refcnt (bufs ?s ! i) = 0 \<and> \<not> b_dirty (bufs ?s ! i)) (rev (rev [0..<30])) = Some 0"
    by (simp add: upt_rec)
  have u: "\<not> in_use ?s i" for i by (simp add: in_use_def sl_demo_def proc_state.defs)
  show ?thesis
    using bget_least_recent [OF log_demo_env log_demo_lru, of plain_buf "[]" 1 40] u f g
    by (auto simp: match_def demo_bufs)
qed

theorem brelse_moves_to_front_witness:
  "\<exists>(s :: log_state) t. brelse 3 s = Ok () t \<and> lru s (rev [0..<30]) \<and> lru t (3 # remove1 3 (rev [0..<30]))"
proof -
  let ?s = "(log_demo plain_buf [])\<lparr>bufs := (replicate 30 plain_buf)[3 := plain_buf\<lparr>b_refcnt := 1\<rparr>],
     slocks := taken (SL_buf 3) 3 (slocks sl_demo)\<rparr>"
  have l: "lru ?s (rev [0..<30])" using log_demo_lru [of plain_buf "[]"] by (simp add: lru_def)
  have "lk_ok ?s = lk_ok (log_demo plain_buf [])" "held ?s = held (log_demo plain_buf [])"
    "curproc ?s = curproc (log_demo plain_buf [])"
    by (simp_all add: lk_ok_def held_def curproc_def mycpu_index_def)
  then have e: "env 0 3 ?s" using log_demo_env [of plain_buf "[]"] by (simp add: env_def)
  have "mine 3 ?s 3" by (simp add: mine_def in_use_def taken_def)
  then show ?thesis using brelse_moves_to_front [OF e _ l, of 3] l by auto
qed

theorem block_roundtrip_witness:
  "\<exists>(s :: log_state) t u. kbind (bread 1 40) (\<lambda>i. kdo [kmod (set_buf_dat i (replicate BSIZE 7)), bwrite i, brelse i]) s = Ok () t
    \<and> kbind (bread 1 40) (\<lambda>i. kbind (kgets (\<lambda>s. buf_dat s i)) (\<lambda>d. kthen [brelse i] (kret d))) t = Ok (replicate BSIZE 7) u"
proof -
  note c = boot_demo [of "\<lambda>_. replicate BSIZE 0"]
  have "disksize ((log_demo plain_buf [])\<lparr>disk_image := \<lambda>_. replicate BSIZE 0\<rparr>) = 1000" by simp
  with block_roundtrip [OF c(1), of 40 "replicate BSIZE 7" 40] c(2) show ?thesis by fastforce
qed

subsection \<open>Recovery on a concrete disk\<close>

text \<open>A crash just after the header of a one-block transaction reached the disk.\<close>

theorem recover_from_log_correct_witness:
  "\<exists>s t. cint (get32 (disk s 2) 0) = 1 \<and> recover_from_log (s :: log_state) = Ok () t \<and> disk t 40 = replicate BSIZE 7"
proof -
  let ?h = "put_header 1 [40] (replicate BSIZE 0)"
  let ?d = "(\<lambda>_. replicate BSIZE 0)(2 := ?h, 3 := replicate BSIZE 7)"
  let ?s = "(log_demo plain_buf [])\<lparr>disk_image := ?d\<rparr>"
  have h: "cint (get32 ?h 0) = 1" "header_blocks 1 ?h = [40]"
    using put_header_get [of "replicate BSIZE 0" 1 "[40]"] by simp_all
  have "length (?d b) = BSIZE" for b by simp
  note cp = boot_demo [of ?d, OF this]
  have d: "disk ?s 2 = ?h" "disk ?s 3 = replicate BSIZE 7" by (simp_all add: disk_of_def)
  obtain t where t: "recover_from_log ?s = Ok () t" "\<forall>b. b \<notin> region 2 \<longrightarrow> disk t b = recovered 2 (disk ?s) b"
    using recover_from_log_correct [OF cp, of 1] d h region_2 by auto
  have "recovered 2 (disk ?s) 40 = replicate BSIZE 7"
    using d h by (simp add: recovered_def slot_def disk_of_Cons)
  then show ?thesis using t d h region_2 by (intro exI [of _ ?s] exI [of _ t]) simp
qed

end
