(* ===== verification/Xv6_Txn.thy ===== *)
theory Xv6_Txn
  imports Xv6_Log
begin

text \<open>
  Changing blocks inside a transaction: \<open>log_write\<close> in terms of the block interface, and the idiom of
  the file system code, read a block, change it, \<open>log_write\<close> it, release it. The blocks in the log are
  kept equal to the pinned ones, which is what \<open>commit\<close> needs at the end of the operation.
\<close>

text \<open>Changes to the data of a buffer.\<close>

definition dat_mod :: "nat \<Rightarrow> (uchar list \<Rightarrow> uchar list) \<Rightarrow> ('x buf_state_scheme, unit) K" where
  "dat_mod b f = kmod (\<lambda>s. set_buf_dat b (f (buf_dat s b)) s)"

definition dat_get :: "nat \<Rightarrow> ('x buf_state_scheme, uchar list) K" where
  "dat_get b = kgets (\<lambda>s. buf_dat s b)"

section \<open>The log entry of a block\<close>

definition log_ins :: "uint \<Rightarrow> logrec \<Rightarrow> logrec" where
  "log_ins b l = (if b \<in> set (take (nat (lg_n l)) (lg_block l)) then l
     else l\<lparr>lg_block := (lg_block l)[nat (lg_n l) := b], lg_n := lg_n l + 1\<rparr>)"

text \<open>An operation may log \<open>k\<close> more blocks.\<close>

definition in_op :: "nat \<Rightarrow> 'x log_state_scheme \<Rightarrow> bool" where
  "in_op k s \<longleftrightarrow> lg_outstanding (lg s) \<ge> 1 \<and> 0 \<le> lg_n (lg s) \<and> lg_n (lg s) + int k \<le> 29
     \<and> lg_n (lg s) + int k \<le> lg_size (lg s) - 1 \<and> length (lg_block (lg s)) = LOGSIZE"

definition log_inv :: "'x log_state_scheme \<Rightarrow> bool" where
  "log_inv s \<longleftrightarrow> pinned_blks s = set (take (nat (lg_n (lg s))) (lg_block (lg s)))
     \<and> distinct (take (nat (lg_n (lg s))) (lg_block (lg s)))"

lemma log_ins_blocks:
  assumes "0 \<le> lg_n l" "lg_n l < int (length (lg_block l))"
  shows "set (take (nat (lg_n (log_ins b l))) (lg_block (log_ins b l))) = insert b (set (take (nat (lg_n l)) (lg_block l)))"
    "distinct (take (nat (lg_n l)) (lg_block l)) \<Longrightarrow>
      distinct (take (nat (lg_n (log_ins b l))) (lg_block (log_ins b l)))"
proof -
  let ?n = "nat (lg_n l)"
  have "take (Suc ?n) ((lg_block l)[?n := b]) = take ?n (lg_block l) @ [b]"
    using assms by (simp add: take_Suc_conv_app_nth)
  then have e: "take (nat (lg_n l + 1)) ((lg_block l)[?n := b]) = take ?n (lg_block l) @ [b]"
    using assms(1) by (simp add: nat_add_distrib)
  show "set (take (nat (lg_n (log_ins b l))) (lg_block (log_ins b l))) = insert b (set (take ?n (lg_block l)))"
    by (auto simp: log_ins_def e)
  show "distinct (take (nat (lg_n (log_ins b l))) (lg_block (log_ins b l)))" if "distinct (take ?n (lg_block l))"
    using that by (auto simp: log_ins_def e)
qed

lemma log_ins_in_op:
  assumes "in_op (Suc k) s" "lg t = log_ins b (lg s)"
  shows "in_op k t"
  using assms by (auto simp: in_op_def log_ins_def)

lemma in_op_mono: "in_op k s \<Longrightarrow> j \<le> k \<Longrightarrow> in_op j s"
  by (auto simp: in_op_def)

lemma in_op_card:
  assumes "in_op k s" "log_inv s"
  shows "card (pinned_blks s) + k \<le> 29"
proof -
  have "card (pinned_blks s) \<le> nat (lg_n (lg s))"
    using assms(2) card_length [of "take (nat (lg_n (lg s))) (lg_block (lg s))"] by (simp add: log_inv_def)
  then have "int (card (pinned_blks s)) \<le> lg_n (lg s)" using assms(1) by (simp add: in_op_def le_nat_iff)
  then show ?thesis using assms(1) by (simp add: in_op_def)
qed

section \<open>log_write\<close>

definition pin :: "nat \<Rightarrow> buf list \<Rightarrow> buf list" where
  "pin i = upd_at i (\<lambda>b. b\<lparr>b_dirty := True\<rparr>)"

lemma lg_locks [simp]:
  fixes s :: "'x log_state_scheme"
  shows "lg (acquired k s) = lg s" "lg (released k s) = lg s" "lk_ok (s\<lparr>lg := x\<rparr>) = lk_ok s"
    "held (s\<lparr>lg := x\<rparr>) = held s" "curproc (s\<lparr>lg := x\<rparr>) = curproc s"
    "log_state.more (acquired k s) = log_state.more s" "log_state.more (released k s) = log_state.more s"
    "lg (s\<lparr>bufs := b\<rparr>) = lg s"
  by (simp_all add: acquired_def released_def Let_def lk_ok_def held_def mycpu_index_def curproc_def)

lemma log_write_run:
  fixes s :: "'x log_state_scheme"
  assumes "env p pid s" "in_op (Suc k) s"
  shows "log_write i s = Ok () (released LogLock ((acquired LogLock s)\<lparr>lg := log_ins (buf_blk s i) (lg s), bufs := pin i (bufs s)\<rparr>))"
proof -
  let ?n = "nat (lg_n (lg s))" and ?b = "buf_blk s i"
  have e: "lk_ok s" "held s = {}" using assms(1) by (simp_all add: env_def)
  have o: "\<not> (lg_n (lg s) \<ge> int LOGSIZE \<or> lg_n (lg s) \<ge> lg_size (lg s) - 1)" "\<not> lg_outstanding (lg s) < 1"
    "0 \<le> lg_n (lg s)" "?n < LOGSIZE" "length (lg_block (lg s)) = LOGSIZE"
    using assms(2) by (auto simp: in_op_def)
  show ?thesis
  proof (cases "index_of (\<lambda>x. x = ?b) (take ?n (lg_block (lg s)))")
    case None
    then have "?b \<notin> set (take ?n (lg_block (lg s)))" by (auto simp: index_of_None)
    then show ?thesis
      using None e o by (simp add: log_write_def Let_def log_ins_def pin_def buf_blk_def)
  next
    case (Some j)
    then have j: "j < ?n" "lg_block (lg s) ! j = ?b" "?b \<in> set (take ?n (lg_block (lg s)))"
      using index_of_SomeD [OF Some] o(4,5) by (auto simp: in_set_conv_nth intro!: exI [of _ j])
    have "(lg s)\<lparr>lg_block := (lg_block (lg s))[j := ?b]\<rparr> = lg s" unfolding j(2) [symmetric] by simp
    moreover have "j < 30" "int j \<noteq> lg_n (lg s)" using j(1) o(3,4) by simp_all
    moreover have "log_ins ?b (lg s) = lg s" using j(3) by (simp add: log_ins_def)
    ultimately show ?thesis
      using Some e o(1,2) by (simp add: log_write_def Let_def pin_def buf_blk_def)
  qed
qed

lemma log_write_law:
  fixes s :: "'x log_state_scheme"
  assumes "cache p pid H s" "i \<in> H" "in_op (Suc k) s"
  shows "\<exists>t. log_write i s = Ok () t \<and> cache p pid H t \<and> (\<forall>j\<in>H. buf_blk t j = buf_blk s j) \<and> view t = view s
    \<and> pinned_blks t = insert (buf_blk s i) (pinned_blks s) \<and> disk t = disk s \<and> disk_writes t = disk_writes s
    \<and> disk_image t = disk_image s \<and> disksize t = disksize s \<and> lg t = log_ins (buf_blk s i) (lg s)
    \<and> log_state.more t = log_state.more s"
proof -
  note c = cacheD [OF assms(1)]
  let ?t = "released LogLock ((acquired LogLock s)\<lparr>lg := log_ins (buf_blk s i) (lg s), bufs := pin i (bufs s)\<rparr>)"
  have i: "i < NBUF" "i < length (bufs s)" using assms(1,2) c(7) by (auto simp: cache_def)
  have b: "b_blockno (bufs ?t ! j) = b_blockno (bufs s ! j)" "b_dev (bufs ?t ! j) = b_dev (bufs s ! j)"
    "b_valid (bufs ?t ! j) = b_valid (bufs s ! j)" "b_data (bufs ?t ! j) = b_data (bufs s ! j)"
    "b_refcnt (bufs ?t ! j) = b_refcnt (bufs s ! j)"
    "b_dirty (bufs ?t ! j) = (j = i \<or> b_dirty (bufs s ! j))" for j
    using i(2) by (auto simp: pin_def upd_at_def nth_list_update)
  have dp: "disk_image ?t = disk_image s" "disk_writes ?t = disk_writes s" "disksize ?t = disksize s"
    "bnext ?t = bnext s" "bprev ?t = bprev s" "slocks ?t = slocks s" "length (bufs ?t) = length (bufs s)"
    by (simp_all add: acquired_def released_def Let_def pin_def)
  have u: "in_use ?t j = in_use s j" "mine pid ?t j = mine pid s j" for j using dp(6) by (simp_all add: in_use_def mine_def)
  have env: "env p pid ?t" using c(1) by (simp add: env_def)
  have bo: "buf_ok (disk ?t) (disksize ?t) (in_use ?t j) (bufs ?t ! j)" if "j < NBUF" for j
    using bc_ok_buf [OF c(2) that] b u dp c(5) [OF assms(2)] by (auto simp: buf_ok_def)
  have ok: "bc_ok ?t"
    using c(2) bo b(1,2) dp unfolding bc_ok_def lru_def by simp
  have "view ?t x = view s x" for x
  proof -
    have "index_of (\<lambda>y. b_dev y = 1 \<and> b_blockno y = x \<and> b_valid y) (bufs ?t)
        = index_of (\<lambda>y. b_dev y = 1 \<and> b_blockno y = x \<and> b_valid y) (bufs s)"
      by (simp add: pin_def index_of_upd_at)
    then show ?thesis using b(4) dp(1,2) unfolding view_def by (simp split: option.split)
  qed
  then have "view ?t = view s" by blast
  moreover have "pinned_blks ?t = insert (buf_blk s i) (pinned_blks s)"
    using b c(3) [OF assms(2)] by (auto simp: pinned_blks_def holds_block_def)
  moreover have "cache p pid H ?t" using env ok assms(1) b u by (simp add: cache_def)
  moreover have "log_state.more ?t = log_state.more s" "lg ?t = log_ins (buf_blk s i) (lg s)" by simp_all
  ultimately show ?thesis using log_write_run [OF c(1) assms(3), of i] b(1) dp by (simp add: buf_blk_def)
qed

section \<open>Changing a block in a transaction\<close>

text \<open>\<open>changed b f s t\<close>: block \<open>b\<close> has been changed by \<open>f\<close> in the cache and entered in the log; the disk is as
  before.\<close>

definition changed :: "uint \<Rightarrow> (uchar list \<Rightarrow> uchar list) \<Rightarrow> 'x log_state_scheme \<Rightarrow> 'x log_state_scheme \<Rightarrow> bool" where
  "changed b f s t \<longleftrightarrow> view t = (view s)(b := f (view s b)) \<and> pinned_blks t = insert b (pinned_blks s)
     \<and> disk_writes t = disk_writes s \<and> disk_image t = disk_image s \<and> disksize t = disksize s
     \<and> lg t = log_ins b (lg s) \<and> log_state.more t = log_state.more s"

lemma changed_inv:
  assumes "changed b f s t" "log_inv s" "in_op (Suc k) s"
  shows "log_inv t" "in_op k t"
  using assms log_ins_blocks [of "lg s" b] log_ins_in_op [OF assms(3), of t b]
  by (simp_all add: changed_def log_inv_def in_op_def)

lemma update_held:
  fixes s :: "'x log_state_scheme"
  assumes "cache p pid H s" "i \<in> H" "in_op (Suc k) s" "\<And>d. length d = BSIZE \<Longrightarrow> length (f d) = BSIZE"
  shows "\<exists>t. kdo [dat_mod i f, log_write i, brelse i] s = Ok () t \<and> cache p pid (H - {i}) t
    \<and> (\<forall>j\<in>H. buf_blk t j = buf_blk s j) \<and> changed (buf_blk s i) f s t"
proof -
  have d: "buf_dat s i = view s (buf_blk s i)" "length (f (buf_dat s i)) = BSIZE"
    using cache_data [OF assms(1,2)] cache_len [OF assms(1)] assms(4) by auto
  let ?u = "set_buf_dat i (f (buf_dat s i)) s"
  note u = cache_set [OF assms(1,2) d(2)]
  have l: "lg ?u = lg s" "log_state.more ?u = log_state.more s" "disk_image ?u = disk_image s"
    by (simp_all add: set_buf_dat_def)
  have io: "in_op (Suc k) ?u" using assms(3) l by (simp add: in_op_def)
  obtain v where v: "log_write i ?u = Ok () v" "cache p pid H v" "\<forall>j\<in>H. buf_blk v j = buf_blk s j"
      "view v = view ?u" "pinned_blks v = insert (buf_blk s i) (pinned_blks s)" "disk_writes v = disk_writes s"
      "disk_image v = disk_image s" "disksize v = disksize s" "lg v = log_ins (buf_blk s i) (lg s)"
      "log_state.more v = log_state.more s"
    using log_write_law [OF u(1) assms(2) io] u l by auto
  have "buf_blk v i \<in> pinned_blks v" using v(3,5) assms(2) by simp
  then obtain t where t: "brelse i v = Ok () t" "cache p pid (H - {i}) t" "\<forall>j\<in>H. buf_blk t j = buf_blk v j"
      "view t = view v" "pinned_blks t = pinned_blks v" "disk_writes t = disk_writes v" "beyond t = beyond v"
    using cache_release [OF v(2) assms(2)] by blast
  show ?thesis
    using t v u(3) d(1) beyond_lg [OF t(7)] by (auto simp: dat_mod_def changed_def)
qed

end
