(* ===== verification/Xv6_Inode.thy ===== *)
theory Xv6_Inode
  imports Xv6_Txn
begin

text \<open>
  fs.c up to the contents of files: the block allocator, the inode cache, \<open>bmap\<close> and \<open>itrunc\<close>. An
  inode pointer is an index into \<open>icache.inode\<close>; null is \<open>None\<close>, and using it where the code does not
  test for it is the outcome \<open>Panic ''null inode''\<close>. A \<open>short\<close> is a 16-bit word, read as signed
  where the code compares it. The messages \<open>iinit\<close> prints are not modelled.
\<close>

abbreviation (input) NDIRECT :: nat where "NDIRECT \<equiv> 12"
abbreviation (input) NINDIRECT :: nat where "NINDIRECT \<equiv> 128"
abbreviation (input) MAXFILE :: nat where "MAXFILE \<equiv> 140"
abbreviation (input) BPB :: nat where "BPB \<equiv> 4096"
abbreviation (input) IPB :: uint where "IPB \<equiv> 8"
abbreviation (input) T_DIR :: ushort where "T_DIR \<equiv> 1"
abbreviation (input) T_FILE :: ushort where "T_FILE \<equiv> 2"
abbreviation (input) T_DEV :: ushort where "T_DEV \<equiv> 3"
abbreviation (input) ROOTINO :: uint where "ROOTINO \<equiv> 1"

record inode =
  i_dev :: uint
  i_inum :: uint
  i_ref :: int
  i_valid :: bool
  i_type :: ushort
  i_major :: ushort
  i_minor :: ushort
  i_nlink :: ushort
  i_size :: uint
  i_addrs :: "uint list"

record fs_state = log_state +
  sb :: superblock
  inodes :: "inode list"

definition ino_mod :: "nat \<Rightarrow> (inode \<Rightarrow> inode) \<Rightarrow> ('x fs_state_scheme, unit) K" where
  "ino_mod i f = kmod (\<lambda>s. s\<lparr>inodes := upd_at i f (inodes s)\<rparr>)"

definition ino_get :: "nat \<Rightarrow> (inode \<Rightarrow> 'a) \<Rightarrow> ('x fs_state_scheme, 'a) K" where
  "ino_get i f = kgets (\<lambda>s. f (inodes s ! i))"

definition need :: "string \<Rightarrow> 'a option \<Rightarrow> ('a \<Rightarrow> ('s, 'b) K) \<Rightarrow> ('s, 'b) K" where
  "need e x f = (case x of None \<Rightarrow> kpanic e | Some i \<Rightarrow> f i)"

section \<open>Blocks\<close>

definition bzero :: "uint \<Rightarrow> uint \<Rightarrow> ('x log_state_scheme, unit) K" where
  "bzero dev bno = kbind (bread dev bno) (\<lambda>bp. kdo [dat_mod bp (\<lambda>_. replicate BSIZE 0), log_write bp, brelse bp])"

definition BBLOCK :: "uint \<Rightarrow> superblock \<Rightarrow> uint" where
  "BBLOCK b x = b div 4096 + sb_bmapstart x"

definition bit_mask :: "nat \<Rightarrow> uchar" where
  "bit_mask bi = push_bit (bi mod 8) 1"

definition bit_free :: "uchar list \<Rightarrow> nat \<Rightarrow> bool" where
  "bit_free d bi \<longleftrightarrow> d ! (bi div 8) AND bit_mask bi = 0"

definition bit_set :: "nat \<Rightarrow> uchar list \<Rightarrow> uchar list" where
  "bit_set bi d = d[bi div 8 := d ! (bi div 8) OR bit_mask bi]"

definition bit_clear :: "nat \<Rightarrow> uchar list \<Rightarrow> uchar list" where
  "bit_clear bi d = d[bi div 8 := d ! (bi div 8) AND NOT (bit_mask bi)]"

text \<open>One round of the outer loop of \<open>balloc\<close>, for the bitmap block of the blocks from \<open>b\<close> on.\<close>

definition balloc_round :: "uint \<Rightarrow> nat \<Rightarrow> ('x fs_state_scheme, uint option) K" where
  "balloc_round dev b = kbind (kgets sb) (\<lambda>sb.
     kbind (bread dev (BBLOCK (of_nat b) sb)) (\<lambda>bp.
     kbind (dat_get bp) (\<lambda>d.
     case index_of (bit_free d) [0..<min BPB (unat (sb_size sb) - b)] of
       Some bi \<Rightarrow> kthen [dat_mod bp (bit_set bi), log_write bp, brelse bp, bzero dev (of_nat (b + bi))]
                    (kret (Some (of_nat (b + bi))))
     | None \<Rightarrow> kthen [brelse bp] (kret None))))"

definition balloc :: "uint \<Rightarrow> ('x fs_state_scheme, uint) K" where
  "balloc dev = kbind (kgets sb) (\<lambda>sb.
     kbind (kfor (balloc_round dev) (map (\<lambda>k. k * BPB) [0..<(unat (sb_size sb) + 4095) div BPB])) (\<lambda>r.
     case r of Some b \<Rightarrow> kret b | None \<Rightarrow> kpanic ''balloc: out of blocks''))"

definition bfree :: "uint \<Rightarrow> uint \<Rightarrow> ('x fs_state_scheme, unit) K" where
  "bfree dev b = kbind (kgets sb) (\<lambda>sb.
     kbind (bread dev (BBLOCK b sb)) (\<lambda>bp.
     let bi = unat b mod BPB in
     kbind (dat_get bp) (\<lambda>d.
     if bit_free d bi then kpanic ''freeing free block''
     else kdo [dat_mod bp (bit_clear bi), log_write bp, brelse bp])))"

section \<open>Inodes on disk\<close>

definition get16 :: "uchar list \<Rightarrow> nat \<Rightarrow> ushort" where
  "get16 d off = ucast (d ! off) OR push_bit 8 (ucast (d ! (off + 1)))"

definition put16 :: "nat \<Rightarrow> ushort \<Rightarrow> uchar list \<Rightarrow> uchar list" where
  "put16 off v d = d[off := ucast v, off + 1 := ucast (drop_bit 8 v)]"

definition IBLOCK :: "uint \<Rightarrow> superblock \<Rightarrow> uint" where
  "IBLOCK i x = i div IPB + sb_inodestart x"

text \<open>\<open>sizeof(struct dinode)\<close> is 64.\<close>

definition dinode_off :: "uint \<Rightarrow> nat" where
  "dinode_off inum = 64 * (unat inum mod 8)"

definition put_dinode :: "nat \<Rightarrow> inode \<Rightarrow> uchar list \<Rightarrow> uchar list" where
  "put_dinode off ip d = fold (\<lambda>k. put32 (off + 12 + 4 * k) (i_addrs ip ! k)) [0..<NDIRECT + 1]
     (put32 (off + 8) (i_size ip) (put16 (off + 6) (i_nlink ip) (put16 (off + 4) (i_minor ip)
       (put16 (off + 2) (i_major ip) (put16 off (i_type ip) d)))))"

definition get_dinode :: "nat \<Rightarrow> uchar list \<Rightarrow> inode \<Rightarrow> inode" where
  "get_dinode off d ip = ip\<lparr>i_type := get16 d off, i_major := get16 d (off + 2), i_minor := get16 d (off + 4),
     i_nlink := get16 d (off + 6), i_size := get32 d (off + 8),
     i_addrs := map (\<lambda>k. get32 d (off + 12 + 4 * k)) [0..<NDIRECT + 1]\<rparr>"

definition clear_dinode :: "nat \<Rightarrow> ushort \<Rightarrow> uchar list \<Rightarrow> uchar list" where
  "clear_dinode off type d = put16 off type (take off d @ replicate 64 0 @ drop (off + 64) d)"

section \<open>The inode cache\<close>

definition iinit :: "uint \<Rightarrow> ('x fs_state_scheme, unit) K" where
  "iinit dev = kdo [initlock IcacheLock ''icache'',
     keach (\<lambda>i. initsleeplock (SL_inode i) ''inode'') [0..<NINODE],
     kbind (readsb dev) (\<lambda>x. kmod (\<lambda>s. s\<lparr>sb := x\<rparr>))]"

definition iget :: "uint \<Rightarrow> uint \<Rightarrow> ('x fs_state_scheme, nat) K" where
  "iget dev inum = kthen [acquire IcacheLock]
     (kbind (kgets inodes) (\<lambda>inos.
      case index_of (\<lambda>ip. i_ref ip > 0 \<and> i_dev ip = dev \<and> i_inum ip = inum) inos of
        Some i \<Rightarrow> kthen [ino_mod i (\<lambda>ip. ip\<lparr>i_ref := i_ref ip + 1\<rparr>), release IcacheLock] (kret i)
      | None \<Rightarrow>
        (case index_of (\<lambda>ip. i_ref ip = 0) inos of
           None \<Rightarrow> kpanic ''iget: no inodes''
         | Some i \<Rightarrow> kthen [ino_mod i (\<lambda>ip. ip\<lparr>i_dev := dev, i_inum := inum, i_ref := 1, i_valid := False\<rparr>),
                            release IcacheLock] (kret i))))"

definition ialloc :: "uint \<Rightarrow> ushort \<Rightarrow> ('x fs_state_scheme, nat) K" where
  "ialloc dev type = kbind (kgets sb) (\<lambda>sb.
     kbind (kfor (\<lambda>n. let inum = of_nat n in
       kbind (bread dev (IBLOCK inum sb)) (\<lambda>bp.
       kbind (dat_get bp) (\<lambda>d.
       if get16 d (dinode_off inum) = 0 then
         kthen [dat_mod bp (clear_dinode (dinode_off inum) type), log_write bp, brelse bp]
           (kbind (iget dev inum) (\<lambda>i. kret (Some i)))
       else kthen [brelse bp] (kret None)))) [1..<unat (sb_ninodes sb)]) (\<lambda>r.
     case r of Some i \<Rightarrow> kret i | None \<Rightarrow> kpanic ''ialloc: no inodes''))"

definition iupdate :: "nat \<Rightarrow> ('x fs_state_scheme, unit) K" where
  "iupdate i = kbind (ino_get i id) (\<lambda>ip. kbind (kgets sb) (\<lambda>sb.
     kbind (bread (i_dev ip) (IBLOCK (i_inum ip) sb)) (\<lambda>bp.
     kdo [dat_mod bp (put_dinode (dinode_off (i_inum ip)) ip), log_write bp, brelse bp])))"

definition idup :: "nat option \<Rightarrow> ('x fs_state_scheme, nat) K" where
  "idup p = need ''null inode'' p (\<lambda>i.
     kthen [acquire IcacheLock, ino_mod i (\<lambda>ip. ip\<lparr>i_ref := i_ref ip + 1\<rparr>), release IcacheLock] (kret i))"

text \<open>The part of \<open>ilock\<close> after the lock is taken.\<close>

definition ilock_read :: "nat \<Rightarrow> ('x fs_state_scheme, unit) K" where
  "ilock_read i = kbind (ino_get i i_valid) (\<lambda>v. kwhen (\<not> v)
     (kbind (ino_get i id) (\<lambda>ip. kbind (kgets sb) (\<lambda>sb.
      kbind (bread (i_dev ip) (IBLOCK (i_inum ip) sb)) (\<lambda>bp.
      kbind (dat_get bp) (\<lambda>d.
      kdo [ino_mod i (get_dinode (dinode_off (i_inum ip)) d),
           brelse bp,
           ino_mod i (\<lambda>ip. ip\<lparr>i_valid := True\<rparr>),
           kbind (ino_get i i_type) (\<lambda>t. if t = 0 then kpanic ''ilock: no type'' else kret ())]))))))"

definition ilock :: "nat option \<Rightarrow> ('x fs_state_scheme, unit) K" where
  "ilock p = need ''ilock'' p (\<lambda>i.
     kbind (ino_get i i_ref) (\<lambda>r.
     if r < 1 then kpanic ''ilock'' else kdo [acquiresleep (SL_inode i), ilock_read i]))"

definition iunlock :: "nat option \<Rightarrow> ('x fs_state_scheme, unit) K" where
  "iunlock p = need ''iunlock'' p (\<lambda>i.
     kbind (holdingsleep (SL_inode i)) (\<lambda>h.
     kbind (ino_get i i_ref) (\<lambda>r.
     if \<not> h \<or> r < 1 then kpanic ''iunlock'' else releasesleep (SL_inode i))))"

section \<open>Blocks of a file\<close>

text \<open>The block of an entry that is 0 is allocated and recorded.\<close>

definition addr_or_alloc :: "nat \<Rightarrow> nat \<Rightarrow> ('x fs_state_scheme, uint) K" where
  "addr_or_alloc i k = kbind (ino_get i id) (\<lambda>ip.
     let addr = i_addrs ip ! k in
     if addr \<noteq> 0 then kret addr
     else kbind (balloc (i_dev ip)) (\<lambda>b.
       kthen [ino_mod i (\<lambda>ip. ip\<lparr>i_addrs := (i_addrs ip)[k := b]\<rparr>)] (kret b)))"

definition bmap :: "nat \<Rightarrow> uint \<Rightarrow> ('x fs_state_scheme, uint) K" where
  "bmap i bn =
     (if unat bn < NDIRECT then addr_or_alloc i (unat bn)
      else let k = unat bn - NDIRECT in
        if k < NINDIRECT then
          kbind (addr_or_alloc i NDIRECT) (\<lambda>addr.
          kbind (ino_get i i_dev) (\<lambda>dev.
          kbind (bread dev addr) (\<lambda>bp.
          kbind (dat_get bp) (\<lambda>d.
          if get32 d (4 * k) \<noteq> 0 then kthen [brelse bp] (kret (get32 d (4 * k)))
          else kbind (balloc dev) (\<lambda>b.
            kthen [dat_mod bp (put32 (4 * k) b), log_write bp, brelse bp] (kret b))))))
        else kpanic ''bmap: out of range'')"

definition itrunc :: "nat \<Rightarrow> ('x fs_state_scheme, unit) K" where
  "itrunc i = kdo [
     keach (\<lambda>k. kbind (ino_get i id) (\<lambda>ip. kwhen (i_addrs ip ! k \<noteq> 0)
       (kdo [bfree (i_dev ip) (i_addrs ip ! k),
             ino_mod i (\<lambda>ip. ip\<lparr>i_addrs := (i_addrs ip)[k := 0]\<rparr>)]))) [0..<NDIRECT],
     kbind (ino_get i id) (\<lambda>ip. kwhen (i_addrs ip ! NDIRECT \<noteq> 0)
       (kbind (bread (i_dev ip) (i_addrs ip ! NDIRECT)) (\<lambda>bp.
        kbind (dat_get bp) (\<lambda>d.
        kdo [keach (\<lambda>j. kwhen (get32 d (4 * j) \<noteq> 0) (bfree (i_dev ip) (get32 d (4 * j)))) [0..<NINDIRECT],
             brelse bp,
             bfree (i_dev ip) (i_addrs ip ! NDIRECT),
             ino_mod i (\<lambda>ip. ip\<lparr>i_addrs := (i_addrs ip)[NDIRECT := 0]\<rparr>)])))),
     ino_mod i (\<lambda>ip. ip\<lparr>i_size := 0\<rparr>),
     iupdate i]"

definition iput :: "nat option \<Rightarrow> ('x fs_state_scheme, unit) K" where
  "iput p = need ''null inode'' p (\<lambda>i. kdo [
     acquiresleep (SL_inode i),
     kbind (ino_get i id) (\<lambda>ip. kwhen (i_valid ip \<and> i_nlink ip = 0)
       (kthen [acquire IcacheLock]
         (kbind (ino_get i i_ref) (\<lambda>r.
          kdo [release IcacheLock,
               kwhen (r = 1) (kdo [itrunc i,
                 ino_mod i (\<lambda>ip. ip\<lparr>i_type := 0\<rparr>),
                 iupdate i,
                 ino_mod i (\<lambda>ip. ip\<lparr>i_valid := False\<rparr>)])])))),
     releasesleep (SL_inode i),
     acquire IcacheLock,
     ino_mod i (\<lambda>ip. ip\<lparr>i_ref := i_ref ip - 1\<rparr>),
     release IcacheLock])"

definition iunlockput :: "nat option \<Rightarrow> ('x fs_state_scheme, unit) K" where
  "iunlockput p = kdo [iunlock p, iput p]"

record stat =
  st_type :: ushort
  st_dev :: uint
  st_ino :: uint
  st_nlink :: ushort
  st_size :: uint

definition stati :: "inode \<Rightarrow> stat" where
  "stati ip = \<lparr>st_type = i_type ip, st_dev = i_dev ip, st_ino = i_inum ip, st_nlink = i_nlink ip, st_size = i_size ip\<rparr>"

section \<open>The bitmap\<close>

lemma bit_mask_neq_0: "bit_mask bi \<noteq> 0"
proof -
  have "bit (bit_mask bi) (bi mod 8)" by (simp add: bit_mask_def bit_exp_iff)
  then show ?thesis by auto
qed

lemma bit_mask_disjoint: "i mod 8 \<noteq> j mod 8 \<Longrightarrow> bit_mask i AND bit_mask j = 0"
  by (rule bit_word_eqI) (auto simp: bit_mask_def bit_and_iff bit_exp_iff)

lemma bit_index_eq: "i div 8 = j div 8 \<Longrightarrow> i mod 8 = j mod 8 \<Longrightarrow> i = (j :: nat)"
  by (metis div_mult_mod_eq)

lemma bit_set_free:
  assumes "bi div 8 < length d"
  shows "bit_free (bit_set bi d) j \<longleftrightarrow> bit_free d j \<and> j \<noteq> bi"
proof (cases "j div 8 = bi div 8")
  case True
  have "(x OR bit_mask bi) AND bit_mask j = (x AND bit_mask j) OR (bit_mask bi AND bit_mask j)" for x
    by (rule bit_word_eqI) (auto simp: bit_simps)
  moreover have "bit_mask bi AND bit_mask j = 0 \<longleftrightarrow> j \<noteq> bi"
    using bit_mask_neq_0 [of bi] bit_mask_disjoint [of bi j] bit_index_eq [OF True] by (cases "bi mod 8 = j mod 8") auto
  moreover have "x OR y = 0 \<longleftrightarrow> x = 0 \<and> y = 0" for x y :: uchar
    by (metis or.right_neutral or_eq_0_iff)
  ultimately show ?thesis using assms True by (simp add: bit_free_def bit_set_def)
next
  case False
  then show ?thesis by (auto simp: bit_free_def bit_set_def)
qed

lemma bit_clear_set:
  assumes "bit_free d bi" "bi div 8 < length d"
  shows "bit_clear bi (bit_set bi d) = d"
proof -
  have "(x OR m) AND NOT m = x" if "x AND m = 0" for x m :: uchar
  proof (rule bit_word_eqI)
    fix n assume "n < LENGTH(8)"
    have "\<not> (bit x n \<and> bit m n)" using that by (metis bit_and_iff bit_0_eq bot_apply bot_bool_def)
    then show "bit ((x OR m) AND NOT m) n = bit x n" using \<open>n < LENGTH(8)\<close> by (auto simp: bit_simps)
  qed
  then show ?thesis using assms by (simp add: bit_clear_def bit_set_def bit_free_def)
qed

lemma length_bits [simp]: "length (bit_set bi d) = length d" "length (bit_clear bi d) = length d"
  by (simp_all add: bit_set_def bit_clear_def)

section \<open>Inodes in blocks\<close>

lemma length_put16 [simp]: "length (put16 off v d) = length d"
  by (simp add: put16_def)

lemma half_bytes: "(ucast (ucast v :: uchar) :: ushort) OR push_bit 8 (ucast (ucast (drop_bit 8 v) :: uchar)) = v"
proof (rule bit_word_eqI)
  fix n assume "n < LENGTH(16)"
  then have n: "n < 16" by simp
  then show "bit ((ucast (ucast v :: uchar) :: ushort) OR push_bit 8 (ucast (ucast (drop_bit 8 v) :: uchar))) n = bit v n"
    by (cases "n < 8") (auto simp: bit_or_iff bit_push_bit_iff bit_ucast_iff bit_drop_bit_eq)
qed

lemma get16_put16_same: "off + 1 < length d \<Longrightarrow> get16 (put16 off v d) off = v"
  by (simp add: get16_def put16_def nth_list_update half_bytes)

lemma get16_put16_other: "x + 2 \<le> off \<or> off + 2 \<le> x \<Longrightarrow> get16 (put16 off v d) x = get16 d x"
  by (auto simp: get16_def put16_def)

lemma get16_put32_other: "x + 2 \<le> off \<or> off + 4 \<le> x \<Longrightarrow> get16 (put32 off v d) x = get16 d x"
  by (auto simp: get16_def put32_def)

lemma put_addrs:
  fixes e :: "uchar list" and a :: "uint list"
  assumes "off + 4 * k \<le> length e"
  defines "r \<equiv> fold (\<lambda>k. put32 (off + 4 * k) (a ! k)) [0..<k] e"
  shows "length r = length e \<and> (\<forall>j<k. get32 r (off + 4 * j) = a ! j)
    \<and> (\<forall>x. x + 4 \<le> off \<longrightarrow> get32 r x = get32 e x) \<and> (\<forall>x. x + 2 \<le> off \<longrightarrow> get16 r x = get16 e x)"
  using assms(1) unfolding r_def
proof (induction k)
  case 0
  then show ?case by simp
next
  case (Suc k)
  let ?r = "fold (\<lambda>k. put32 (off + 4 * k) (a ! k)) [0..<k] e"
  have ih: "length ?r = length e" "\<And>j. j < k \<Longrightarrow> get32 ?r (off + 4 * j) = a ! j"
    "\<And>x. x + 4 \<le> off \<Longrightarrow> get32 ?r x = get32 e x" "\<And>x. x + 2 \<le> off \<Longrightarrow> get16 ?r x = get16 e x"
    using Suc by auto
  show ?case
    using ih Suc.prems by (auto simp: less_Suc_eq get32_put32_same get32_put32_other get16_put32_other)
qed

lemma dinode_roundtrip:
  assumes "off + 64 \<le> length d" "length (i_addrs ip) = 13"
  shows "get_dinode off (put_dinode off ip d) iq = iq\<lparr>i_type := i_type ip, i_major := i_major ip,
    i_minor := i_minor ip, i_nlink := i_nlink ip, i_size := i_size ip, i_addrs := i_addrs ip\<rparr>"
    and "length (put_dinode off ip d) = length d"
proof -
  let ?e = "put32 (off + 8) (i_size ip) (put16 (off + 6) (i_nlink ip) (put16 (off + 4) (i_minor ip)
       (put16 (off + 2) (i_major ip) (put16 off (i_type ip) d))))"
  have e: "put_dinode off ip d = fold (\<lambda>k. put32 (off + 12 + 4 * k) (i_addrs ip ! k)) [0..<13] ?e"
    by (simp add: put_dinode_def)
  have l: "off + 12 + 4 * 13 \<le> length ?e" using assms(1) by simp
  note p = put_addrs [OF l, of "i_addrs ip", folded e]
  show "length (put_dinode off ip d) = length d" using p by simp
  have "get16 ?e off = i_type ip" "get16 ?e (off + 2) = i_major ip" "get16 ?e (off + 4) = i_minor ip"
    "get16 ?e (off + 6) = i_nlink ip" "get32 ?e (off + 8) = i_size ip"
    using assms(1) by (simp_all add: get16_put32_other get16_put16_other get16_put16_same get32_put32_same)
  moreover have "map (\<lambda>k. get32 (put_dinode off ip d) (off + 12 + 4 * k)) [0..<13] = i_addrs ip"
    using p assms(2) by (intro nth_equalityI) simp_all
  ultimately show "get_dinode off (put_dinode off ip d) iq = iq\<lparr>i_type := i_type ip, i_major := i_major ip,
    i_minor := i_minor ip, i_nlink := i_nlink ip, i_size := i_size ip, i_addrs := i_addrs ip\<rparr>"
    using p by (simp add: get_dinode_def)
qed

section \<open>The file system code inside a transaction\<close>

text \<open>The process is in an operation that may log \<open>k\<close> more blocks and holds the buffers \<open>H\<close>.\<close>

definition fs_ok :: "nat \<Rightarrow> int \<Rightarrow> nat set \<Rightarrow> nat \<Rightarrow> 'x log_state_scheme \<Rightarrow> bool" where
  "fs_ok p pid H k s \<longleftrightarrow> cache p pid H s \<and> log_inv s \<and> in_op k s"

text \<open>Nothing a reader can see has changed.\<close>

definition unchanged :: "'x log_state_scheme \<Rightarrow> 'x log_state_scheme \<Rightarrow> bool" where
  "unchanged s t \<longleftrightarrow> view t = view s \<and> pinned_blks t = pinned_blks s \<and> disk_writes t = disk_writes s
     \<and> disk_image t = disk_image s \<and> disksize t = disksize s \<and> lg t = lg s \<and> log_state.more t = log_state.more s"

lemma unchanged_trans: "unchanged s t \<Longrightarrow> unchanged t u \<Longrightarrow> unchanged s u"
  by (simp add: unchanged_def)

lemma more_fs:
  assumes "log_state.more t = log_state.more (s :: 'x fs_state_scheme)"
  shows "sb t = sb s" "inodes t = inodes s" "fs_state.more t = fs_state.more s"
  using assms by (cases s; cases t; simp)+

lemma changed_unchanged:
  "unchanged s u \<Longrightarrow> changed b f u t \<Longrightarrow> changed b f s t" "changed b f s u \<Longrightarrow> unchanged u t \<Longrightarrow> changed b f s t"
  by (simp_all add: unchanged_def changed_def)

lemma cache_clean_held:
  assumes "cache p pid H s" "b \<notin> buf_blk s ` H" "b \<notin> pinned_blks s"
  shows "view s b = disk s b"
proof (rule view_clean [OF cacheD(2) [OF assms(1)]])
  fix i assume i: "holds_block s i b"
  then have "i \<notin> H" using assms(2) by (auto simp: holds_block_def buf_blk_def)
  then show "\<not> in_use s i \<and> \<not> b_dirty (bufs s ! i)"
    using i assms(3) cacheD(6) [OF assms(1), of i] by (auto simp: holds_block_def pinned_blks_def)
qed

lemma held_room:
  assumes "fs_ok p pid H k s" "card H \<le> k" "finite H"
  shows "card (pinned_blks s \<union> buf_blk s ` H) < NBUF"
proof -
  have "card (pinned_blks s \<union> buf_blk s ` H) \<le> card (pinned_blks s) + card H"
    using card_Un_le card_image_le [OF assms(3), of "buf_blk s"] by (meson add_left_mono le_trans)
  moreover have "card (pinned_blks s) + k \<le> 29" using in_op_card [of k s] assms(1) by (simp add: fs_ok_def)
  ultimately show ?thesis using assms(2) by linarith
qed

lemma bread_fs:
  fixes s :: "'x log_state_scheme"
  assumes "fs_ok p pid H k s" "card H \<le> k" "finite H" "b \<notin> buf_blk s ` H" "b < disksize s"
  shows "\<exists>i u. bread 1 b s = Ok i u \<and> i \<notin> H \<and> fs_ok p pid (insert i H) k u \<and> buf_blk u i = b \<and> buf_dat u i = view s b
    \<and> (\<forall>j\<in>H. buf_blk u j = buf_blk s j) \<and> unchanged s u \<and> (b \<in> pinned_blks u \<or> view u b = disk u b)"
proof -
  have c: "cache p pid H s" using assms(1) by (simp add: fs_ok_def)
  obtain i u where u: "bread 1 b s = Ok i u" "i \<notin> H" "cache p pid (insert i H) u" "buf_blk u i = b"
      "\<forall>j\<in>H. buf_blk u j = buf_blk s j" "view u = view s" "pinned_blks u = pinned_blks s" "disk u = disk s"
      "disk_writes u = disk_writes s" "beyond u = beyond s"
    using cache_read [OF c assms(4,5)] held_room [OF assms(1-3)] by blast
  note bu = beyond_lg [OF u(10)]
  have "fs_ok p pid (insert i H) k u" using u bu assms(1) by (simp add: fs_ok_def log_inv_def in_op_def)
  moreover have "buf_dat u i = view s b" using cache_data [OF u(3), of i] u(4,6) by simp
  moreover have "b \<in> pinned_blks u \<or> view u b = disk u b" using cache_clean_held [OF c assms(4)] u(6-8) by auto
  ultimately show ?thesis using u bu by (auto simp: unchanged_def)
qed

lemma brelse_fs:
  fixes s :: "'x log_state_scheme"
  assumes "fs_ok p pid H k s" "i \<in> H" "buf_blk s i \<in> pinned_blks s \<or> view s (buf_blk s i) = disk s (buf_blk s i)"
  shows "\<exists>t. brelse i s = Ok () t \<and> fs_ok p pid (H - {i}) k t \<and> (\<forall>j\<in>H. buf_blk t j = buf_blk s j) \<and> unchanged s t"
proof -
  have c: "cache p pid H s" using assms(1) by (simp add: fs_ok_def)
  obtain t where t: "brelse i s = Ok () t" "cache p pid (H - {i}) t" "\<forall>j\<in>H. buf_blk t j = buf_blk s j"
      "view t = view s" "pinned_blks t = pinned_blks s" "disk_writes t = disk_writes s" "beyond t = beyond s"
    using cache_release [OF c assms(2,3)] by blast
  note bt = beyond_lg [OF t(7)]
  show ?thesis using t bt assms(1) by (auto simp: fs_ok_def log_inv_def in_op_def unchanged_def)
qed

lemma update_fs:
  fixes s :: "'x log_state_scheme"
  assumes "fs_ok p pid H (Suc k) s" "i \<in> H" "\<And>d. length d = BSIZE \<Longrightarrow> length (f d) = BSIZE"
  shows "\<exists>t. kdo [dat_mod i f, log_write i, brelse i] s = Ok () t \<and> fs_ok p pid (H - {i}) k t
    \<and> (\<forall>j\<in>H. buf_blk t j = buf_blk s j) \<and> changed (buf_blk s i) f s t"
proof -
  have c: "cache p pid H s" "log_inv s" "in_op (Suc k) s" using assms(1) by (simp_all add: fs_ok_def)
  obtain t where t: "kdo [dat_mod i f, log_write i, brelse i] s = Ok () t" "cache p pid (H - {i}) t"
      "\<forall>j\<in>H. buf_blk t j = buf_blk s j" "changed (buf_blk s i) f s t"
    using update_held [where i = i and f = f, OF c(1) assms(2) c(3)] assms(3) by blast
  then show ?thesis using changed_inv [OF t(4) c(2,3)] by (auto simp: fs_ok_def)
qed

text \<open>Read a block, change it, log it, release it.\<close>

lemma modify_fs:
  fixes s :: "'x log_state_scheme"
  assumes "fs_ok p pid H (Suc k) s" "card H \<le> Suc k" "finite H" "b \<notin> buf_blk s ` H" "b < disksize s"
    and "\<And>d. length d = BSIZE \<Longrightarrow> length (f d) = BSIZE"
  shows "\<exists>t. kbind (bread 1 b) (\<lambda>bp. kdo [dat_mod bp f, log_write bp, brelse bp]) s = Ok () t
    \<and> fs_ok p pid H k t \<and> (\<forall>j\<in>H. buf_blk t j = buf_blk s j) \<and> changed b f s t"
proof -
  obtain i u where u: "bread 1 b s = Ok i u" "i \<notin> H" "fs_ok p pid (insert i H) (Suc k) u" "buf_blk u i = b"
      "\<forall>j\<in>H. buf_blk u j = buf_blk s j" "unchanged s u"
    using bread_fs [OF assms(1-5)] by blast
  obtain t where t: "kdo [dat_mod i f, log_write i, brelse i] u = Ok () t" "fs_ok p pid (insert i H - {i}) k t"
      "\<forall>j\<in>insert i H. buf_blk t j = buf_blk u j" "changed (buf_blk u i) f u t"
    using update_fs [where i = i and f = f, OF u(3) insertI1] assms(6) by blast
  have "insert i H - {i} = H" using u(2) by blast
  then show ?thesis using u t changed_unchanged(1) [OF u(6)] by auto
qed

section \<open>Runs of the block allocator\<close>

lemma bzero_run:
  fixes s :: "'x log_state_scheme"
  assumes "fs_ok p pid H (Suc k) s" "card H \<le> Suc k" "finite H" "b \<notin> buf_blk s ` H" "b < disksize s"
  shows "\<exists>t. bzero 1 b s = Ok () t \<and> fs_ok p pid H k t \<and> (\<forall>j\<in>H. buf_blk t j = buf_blk s j)
    \<and> changed b (\<lambda>_. replicate BSIZE 0) s t"
  unfolding bzero_def by (rule modify_fs [OF assms]) simp

lemma bfree_run:
  fixes s :: "'x fs_state_scheme"
  assumes "fs_ok p pid {} (Suc k) s" "BBLOCK b (sb s) < disksize s"
    and "\<not> bit_free (view s (BBLOCK b (sb s))) (unat b mod BPB)"
  shows "\<exists>t. bfree 1 b s = Ok () t \<and> fs_ok p pid {} k t \<and> changed (BBLOCK b (sb s)) (bit_clear (unat b mod BPB)) s t"
proof -
  let ?bm = "BBLOCK b (sb s)" and ?bi = "unat b mod BPB"
  obtain i u where u: "bread 1 ?bm s = Ok i u" "fs_ok p pid {i} (Suc k) u" "buf_blk u i = ?bm"
      "buf_dat u i = view s ?bm" "unchanged s u"
    using bread_fs [OF assms(1), of ?bm] assms(2) by auto
  obtain t where t: "kdo [dat_mod i (bit_clear ?bi), log_write i, brelse i] u = Ok () t" "fs_ok p pid ({i} - {i}) k t"
      "changed (buf_blk u i) (bit_clear ?bi) u t"
    using update_fs [where i = i and f = "bit_clear ?bi", OF u(2) singletonI] by (metis length_bits(2))
  show ?thesis
    using u t assms(3) changed_unchanged(1) [OF u(5)] by (auto simp: bfree_def Let_def dat_get_def)
qed

text \<open>The bitmap occupies \<open>bmap_blocks\<close> blocks from \<open>sb.bmapstart\<close>; a set bit marks a block in use.\<close>

definition bmap_blocks :: "superblock \<Rightarrow> nat" where
  "bmap_blocks x = (unat (sb_size x) + 4095) div BPB"

definition free_blocks :: "'x fs_state_scheme \<Rightarrow> nat set" where
  "free_blocks s = {b. b < unat (sb_size (sb s)) \<and> bit_free (view s (BBLOCK (of_nat b) (sb s))) (b mod BPB)}"

definition fs_layout :: "'x fs_state_scheme \<Rightarrow> bool" where
  "fs_layout s \<longleftrightarrow> unat (sb_bmapstart (sb s)) + bmap_blocks (sb s) \<le> unat (sb_size (sb s)) \<and> sb_size (sb s) \<le> disksize s
     \<and> (\<forall>b\<in>free_blocks s. unat (sb_bmapstart (sb s)) + bmap_blocks (sb s) \<le> b)"

lemma fs_unchanged:
  fixes s :: "'x fs_state_scheme"
  assumes "unchanged s t"
  shows "sb t = sb s" "inodes t = inodes s" "fs_state.more t = fs_state.more s" "free_blocks t = free_blocks s"
    "fs_layout t = fs_layout s" "view t = view s" "disksize t = disksize s"
  using assms more_fs [of t s] by (auto simp: unchanged_def free_blocks_def fs_layout_def)

lemma fs_changed:
  fixes s :: "'x fs_state_scheme"
  assumes "changed b f s t"
  shows "sb t = sb s" "inodes t = inodes s" "fs_state.more t = fs_state.more s" "view t = (view s)(b := f (view s b))"
    "disksize t = disksize s"
  using assms more_fs [of t s] by (auto simp: changed_def)

lemma BBLOCK_unat:
  assumes "unat (sb_bmapstart x) + bmap_blocks x \<le> unat (sb_size x)" "b < unat (sb_size x)"
  shows "unat (BBLOCK (of_nat b) x) = unat (sb_bmapstart x) + b div 4096"
    "unat (BBLOCK (of_nat b) x) < unat (sb_bmapstart x) + bmap_blocks x"
proof -
  have l: "unat (sb_size x) < 4294967296" by (rule unat32_lt)
  have "b div 4096 < bmap_blocks x" using assms(2) by (simp add: bmap_blocks_def)
  moreover have "unat (of_nat b div 4096 :: uint) = b div 4096" using assms(2) l by (simp add: unat_div unat_of_nat)
  ultimately show "unat (BBLOCK (of_nat b) x) = unat (sb_bmapstart x) + b div 4096"
      "unat (BBLOCK (of_nat b) x) < unat (sb_bmapstart x) + bmap_blocks x"
    using assms(1) l by (simp_all add: BBLOCK_def unat_word_ariths)
qed

lemma layout_blocks:
  assumes "fs_layout s" "b < unat (sb_size (sb s))"
  shows "BBLOCK (of_nat b) (sb s) < disksize s" "(of_nat b :: uint) < disksize s"
proof -
  have "unat (sb_size (sb s)) \<le> unat (disksize s)" using assms(1) by (simp add: fs_layout_def word_le_nat_alt)
  then show "BBLOCK (of_nat b) (sb s) < disksize s" "(of_nat b :: uint) < disksize s"
    using BBLOCK_unat(2) [of "sb s" b] assms unat32_lt [of "disksize s"]
    by (auto simp: word_less_nat_alt unat_of_nat fs_layout_def)
qed

text \<open>Marking and clearing a bit changes the free blocks by one.\<close>

lemma free_blocks_bit:
  fixes s :: "'x fs_state_scheme"
  assumes "changed (BBLOCK (of_nat b) (sb s)) f s t" "fs_layout s" "b < unat (sb_size (sb s))"
    and "\<And>j. j < BPB \<Longrightarrow> bit_free (f (view s (BBLOCK (of_nat b) (sb s)))) j
      \<longleftrightarrow> (if j = b mod BPB then v else bit_free (view s (BBLOCK (of_nat b) (sb s))) j)"
  shows "free_blocks t = (if v then insert b (free_blocks s) else free_blocks s - {b})"
proof -
  have "c \<in> free_blocks t \<longleftrightarrow> (if c = b then v else c \<in> free_blocks s)" if c: "c < unat (sb_size (sb s))" for c
  proof (cases "BBLOCK (of_nat c) (sb s) = BBLOCK (of_nat b) (sb s)")
    case True
    then have "c div 4096 = b div 4096"
      using BBLOCK_unat(1) [of "sb s" c] BBLOCK_unat(1) [of "sb s" b] assms(2,3) c by (simp add: fs_layout_def)
    then have "c mod BPB = b mod BPB \<longleftrightarrow> c = b" by (metis div_mult_mod_eq)
    then show ?thesis using True c assms(4) [of "c mod BPB"] fs_changed [OF assms(1)] by (simp add: free_blocks_def)
  next
    case False
    then show ?thesis using c fs_changed [OF assms(1)] by (auto simp: free_blocks_def)
  qed
  moreover have "c \<notin> free_blocks t \<and> c \<notin> free_blocks s" if "\<not> c < unat (sb_size (sb s))" for c
    using that fs_changed(1) [OF assms(1)] by (simp add: free_blocks_def)
  ultimately have "c \<in> free_blocks t \<longleftrightarrow> (if c = b then v else c \<in> free_blocks s)" for c
    using assms(3) by (cases "c < unat (sb_size (sb s))") auto
  then show ?thesis by (intro set_eqI) (cases v; simp)
qed

lemma free_blocks_zero:
  fixes s :: "'x fs_state_scheme"
  assumes "changed (of_nat b) f s t" "fs_layout s" "b < unat (sb_size (sb s))"
    and "unat (sb_bmapstart (sb s)) + bmap_blocks (sb s) \<le> b"
  shows "free_blocks t = free_blocks s"
proof -
  have "BBLOCK (of_nat c) (sb s) \<noteq> of_nat b" if "c < unat (sb_size (sb s))" for c
    using BBLOCK_unat(2) [of "sb s" c] assms(2-4) that unat32_lt [of "sb_size (sb s)"]
    by (auto simp: fs_layout_def unat_of_nat)
  then show ?thesis using fs_changed [OF assms(1)] by (auto simp: free_blocks_def)
qed

lemma bit_clear_free:
  assumes "bi div 8 < length d"
  shows "bit_free (bit_clear bi d) j \<longleftrightarrow> bit_free d j \<or> j = bi"
proof (cases "j div 8 = bi div 8")
  case True
  show ?thesis
  proof (cases "j = bi")
    case True
    have "(x AND NOT m) AND m = 0" for x m :: uchar by (rule bit_word_eqI) (auto simp: bit_simps)
    then show ?thesis using True assms by (simp add: bit_free_def bit_clear_def)
  next
    case False
    then have "bit_mask bi AND bit_mask j = 0" using bit_mask_disjoint [of bi j] bit_index_eq [OF True] by metis
    then have "\<not> (bit (bit_mask bi) n \<and> bit (bit_mask j) n)" for n by (metis bit_and_iff bit_0_eq bot_apply bot_bool_def)
    then have "(x AND NOT (bit_mask bi)) AND bit_mask j = x AND bit_mask j" for x
      by (intro bit_word_eqI) (auto simp: bit_simps)
    then show ?thesis using False True assms by (simp add: bit_free_def bit_clear_def)
  qed
next
  case False
  then show ?thesis by (auto simp: bit_free_def bit_clear_def)
qed

lemma bit_free_mod: "bit_free d bi \<Longrightarrow> bi div 8 < length d \<Longrightarrow> bit_free (bit_set bi d) j \<longleftrightarrow> j \<noteq> bi \<and> bit_free d j"
  by (auto simp: bit_set_free)

lemma balloc_round_run:
  fixes s :: "'x fs_state_scheme"
  assumes "fs_ok p pid H (Suc (Suc k)) s" "card H \<le> Suc k" "finite H" "fs_layout s" "b < unat (sb_size (sb s))"
    and "\<forall>c\<in>buf_blk s ` H. unat (sb_bmapstart (sb s)) + bmap_blocks (sb s) \<le> unat c \<and> unat c \<notin> free_blocks s"
    and "b mod 4096 = 0"
  shows "case index_of (\<lambda>bi. b + bi \<in> free_blocks s) [0..<BPB] of
      None \<Rightarrow> \<exists>t. balloc_round 1 b s = Ok None t \<and> fs_ok p pid H (Suc (Suc k)) t \<and> (\<forall>j\<in>H. buf_blk t j = buf_blk s j) \<and> unchanged s t
    | Some bi \<Rightarrow> \<exists>u t. balloc_round 1 b s = Ok (Some (of_nat (b + bi))) t \<and> fs_ok p pid H k t
        \<and> (\<forall>j\<in>H. buf_blk t j = buf_blk s j) \<and> changed (BBLOCK (of_nat (b + bi)) (sb s)) (bit_set bi) s u
        \<and> changed (of_nat (b + bi)) (\<lambda>_. replicate BSIZE 0) u t"
proof -
  let ?bm = "BBLOCK (of_nat b) (sb s)" and ?n = "min BPB (unat (sb_size (sb s)) - b)"
  have same: "BBLOCK (of_nat (b + bi)) (sb s) = ?bm" if "b + bi < unat (sb_size (sb s))" "bi < BPB" for bi
  proof -
    have "(b + bi) div 4096 = b div 4096" using that(2) assms(7) by auto
    then show ?thesis
      using BBLOCK_unat(1) [of "sb s" "b + bi"] BBLOCK_unat(1) [of "sb s" b] that(1) assms(4,5)
      by (simp add: fs_layout_def word_unat_eq_iff)
  qed
  have free: "b + bi \<in> free_blocks s \<longleftrightarrow> b + bi < unat (sb_size (sb s)) \<and> bit_free (view s ?bm) bi" if "bi < BPB" for bi
    using same [of bi] that assms(7) by (auto simp: free_blocks_def mod_add_eq)
  have idx: "index_of (bit_free (view s ?bm)) [0..<?n] = index_of (\<lambda>bi. b + bi \<in> free_blocks s) [0..<BPB]"
  proof (cases "index_of (\<lambda>bi. b + bi \<in> free_blocks s) [0..<BPB]")
    case None
    then have "index_of (bit_free (view s ?bm)) [0..<?n] = None" using free by (auto simp: index_of_None)
    then show ?thesis using None by simp
  next
    case (Some bi)
    then have "index_of (bit_free (view s ?bm)) [0..<?n] = Some bi" using free by (auto simp: index_of_Some)
    then show ?thesis using Some by simp
  qed
  have nH: "?bm \<notin> buf_blk s ` H"
    using BBLOCK_unat(2) [of "sb s" b] assms(4-6) by (fastforce simp: fs_layout_def)
  obtain i u where u: "bread 1 ?bm s = Ok i u" "i \<notin> H" "fs_ok p pid (insert i H) (Suc (Suc k)) u" "buf_blk u i = ?bm"
      "buf_dat u i = view s ?bm" "\<forall>j\<in>H. buf_blk u j = buf_blk s j" "unchanged s u" "?bm \<in> pinned_blks u \<or> view u ?bm = disk u ?bm"
    using bread_fs [OF assms(1) _ assms(3) nH] assms(2) layout_blocks(1) [OF assms(4,5)] by auto
  have H: "insert i H - {i} = H" using u(2) by blast
  have len: "length (view s ?bm) = BSIZE" using cache_len assms(1) by (auto simp: fs_ok_def)
  show ?thesis
  proof (cases "index_of (\<lambda>bi. b + bi \<in> free_blocks s) [0..<BPB]")
    case None
    obtain t where t: "brelse i u = Ok () t" "fs_ok p pid H (Suc (Suc k)) t" "\<forall>j\<in>insert i H. buf_blk t j = buf_blk u j" "unchanged u t"
      using brelse_fs [OF u(3) insertI1] u(4,8) H by auto
    then show ?thesis
      using None u(1,5,6) unchanged_trans [OF u(7) t(4)] idx by (auto simp: balloc_round_def dat_get_def kthen_def)
  next
    case (Some bi)
    then have bi: "bi < BPB" "b + bi \<in> free_blocks s" by (auto simp: index_of_Some)
    then have lt: "b + bi < unat (sb_size (sb s))" by (simp add: free_blocks_def)
    obtain v where v: "kdo [dat_mod i (bit_set bi), log_write i, brelse i] u = Ok () v" "fs_ok p pid H (Suc k) v"
        "\<forall>j\<in>insert i H. buf_blk v j = buf_blk u j" "changed ?bm (bit_set bi) u v"
      using update_fs [where i = i and f = "bit_set bi", OF u(3) insertI1] u(4) H by auto
    have cv: "changed ?bm (bit_set bi) s v" using changed_unchanged(1) [OF u(7) v(4)] .
    have "unat (of_nat (b + bi) :: uint) = b + bi" using lt unat32_lt [of "sb_size (sb s)"]
      by (simp add: unat_of_nat del: of_nat_add)
    then have "(of_nat (b + bi) :: uint) \<notin> buf_blk s ` H" using assms(6) bi(2) by metis
    moreover have "buf_blk v ` H = buf_blk s ` H" using v(3) u(6) by (intro image_cong) simp_all
    ultimately obtain t where t: "bzero 1 (of_nat (b + bi)) v = Ok () t" "fs_ok p pid H k t"
        "\<forall>j\<in>H. buf_blk t j = buf_blk v j" "changed (of_nat (b + bi)) (\<lambda>_. replicate BSIZE 0) v t"
      using bzero_run [OF v(2) assms(2,3), of "of_nat (b + bi)"] layout_blocks(2) [OF assms(4) lt] fs_changed(5) [OF cv] by auto
    have "balloc_round 1 b s = Ok (Some (of_nat (b + bi))) t"
      using u(1,5) v(1) t(1) Some idx by (auto simp: balloc_round_def dat_get_def kthen_def kbind_eq_Ok)
    then show ?thesis using Some cv t u(6) v(3) same [OF lt bi(1)] by auto
  qed
qed

text \<open>The outer loop finds the least free block.\<close>

definition took_block :: "'x fs_state_scheme \<Rightarrow> nat \<Rightarrow> 'x fs_state_scheme \<Rightarrow> bool" where
  "took_block s b t \<longleftrightarrow> (\<exists>u. changed (BBLOCK (of_nat b) (sb s)) (bit_set (b mod BPB)) s u
     \<and> changed (of_nat b) (\<lambda>_. replicate BSIZE 0) u t)"

lemma least_in_round:
  assumes "index_of (\<lambda>bi. b + bi \<in> F) [0..<BPB] = Some bi" "\<forall>c\<in>F. b \<le> c"
  shows "b + bi = (LEAST c. c \<in> F)" "bi < BPB" "b + bi \<in> F"
proof -
  show bi: "bi < BPB" "b + bi \<in> F" using assms(1) by (auto simp: index_of_Some)
  have "b + bi \<le> c" if "c \<in> F" for c
  proof (rule ccontr)
    assume "\<not> b + bi \<le> c"
    then have "c - b < bi" "b + (c - b) = c" using assms(2) that by auto
    then show False using assms(1) that bi(1) by (auto simp: index_of_Some)
  qed
  then show "b + bi = (LEAST c. c \<in> F)" using bi(2) by (intro Least_equality [symmetric])
qed

lemma balloc_scan:
  fixes s :: "'x fs_state_scheme"
  assumes "fs_ok p pid H (Suc (Suc k)) s" "card H \<le> Suc k" "finite H" "fs_layout s"
    and "\<forall>c\<in>buf_blk s ` H. unat (sb_bmapstart (sb s)) + bmap_blocks (sb s) \<le> unat c \<and> unat c \<notin> free_blocks s"
    and "n = bmap_blocks (sb s)" "j \<le> n" "\<forall>c\<in>free_blocks s. j * 4096 \<le> c"
  shows "if free_blocks s = {}
     then \<exists>t. kfor (balloc_round 1) (map (\<lambda>k. k * BPB) [j..<n]) s = Ok None t
     else \<exists>t. kfor (balloc_round 1) (map (\<lambda>k. k * BPB) [j..<n]) s = Ok (Some (of_nat (LEAST b. b \<in> free_blocks s))) t
        \<and> fs_ok p pid H k t \<and> (\<forall>j\<in>H. buf_blk t j = buf_blk s j) \<and> took_block s (LEAST b. b \<in> free_blocks s) t"
  using assms
proof (induction "n - j" arbitrary: j s)
  case 0
  then have "j = n" by simp
  have "c \<notin> free_blocks s" for c
  proof
    assume c: "c \<in> free_blocks s"
    then have "c < unat (sb_size (sb s))" "n * 4096 \<le> c" using 0 \<open>j = n\<close> by (auto simp: free_blocks_def)
    then show False using 0(7) by (simp add: bmap_blocks_def)
  qed
  then show ?case using \<open>j = n\<close> by auto
next
  case (Suc d)
  let ?b = "j * 4096"
  have j: "j < n" using Suc.hyps(2) by simp
  then have lt: "?b < unat (sb_size (sb s))" using Suc.prems(6) by (simp add: bmap_blocks_def)
  have up: "[j..<n] = j # [Suc j..<n]" using j by (simp add: upt_conv_Cons)
  note r = balloc_round_run [OF Suc.prems(1-4) lt Suc.prems(5)]
  show ?case
  proof (cases "index_of (\<lambda>bi. ?b + bi \<in> free_blocks s) [0..<BPB]")
    case None
    then obtain t where t: "balloc_round 1 ?b s = Ok None t" "fs_ok p pid H (Suc (Suc k)) t"
        "\<forall>j\<in>H. buf_blk t j = buf_blk s j" "unchanged s t"
      using r by auto
    note f = fs_unchanged [OF t(4)]
    have im: "buf_blk t ` H = buf_blk s ` H" using t(3) by (intro image_cong) simp_all
    have "Suc j * 4096 \<le> c" if "c \<in> free_blocks s" for c
    proof (rule ccontr)
      assume "\<not> Suc j * 4096 \<le> c"
      moreover have "?b \<le> c" using Suc.prems(8) that by simp
      ultimately have c: "c - ?b \<in> {0..<BPB}" "?b + (c - ?b) = c" by auto
      have "?b + (c - ?b) \<notin> free_blocks s" using None c(1) unfolding index_of_None set_upt by blast
      then show False using that c(2) by simp
    qed
    then have nx: "\<forall>c\<in>free_blocks t. Suc j * 4096 \<le> c" using f(4) by simp
    have hyp: "d = n - Suc j" "Suc j \<le> n" using Suc.hyps(2) by simp_all
    have fl: "fs_layout t" "n = bmap_blocks (sb t)" using f Suc.prems(4,6) by simp_all
    have ho: "\<forall>c\<in>buf_blk t ` H. unat (sb_bmapstart (sb t)) + bmap_blocks (sb t) \<le> unat c \<and> unat c \<notin> free_blocks t"
      using Suc.prems(5) im f by simp
    note ih = Suc.hyps(1) [OF hyp(1) t(2) Suc.prems(2,3) fl(1) ho fl(2) hyp(2) nx]
    have k: "kfor (balloc_round 1) (map (\<lambda>k. k * BPB) [j..<n]) s = kfor (balloc_round 1) (map (\<lambda>k. k * BPB) [Suc j..<n]) t"
      using t(1) up by simp
    have "took_block s b w" if "took_block t b w" for b w
      using that changed_unchanged(1) [OF t(4)] f(1) by (auto simp: took_block_def)
    then show ?thesis using ih f(4) t(3) unfolding k by (auto split: if_splits)
  next
    case (Some bi)
    note l = least_in_round [OF Some Suc.prems(8)]
    have m: "(?b + bi) mod BPB = bi" using l(2) by simp
    obtain u t where t: "balloc_round 1 ?b s = Ok (Some (of_nat (?b + bi))) t" "fs_ok p pid H k t"
        "\<forall>j\<in>H. buf_blk t j = buf_blk s j" "changed (BBLOCK (of_nat (?b + bi)) (sb s)) (bit_set bi) s u"
        "changed (of_nat (?b + bi)) (\<lambda>_. replicate BSIZE 0) u t"
      using r Some by auto
    then have "took_block s (?b + bi) t" unfolding took_block_def m by blast
    moreover have "kfor (balloc_round 1) (map (\<lambda>k. k * BPB) [j..<n]) s = Ok (Some (of_nat (?b + bi))) t" using t(1) up by simp
    ultimately show ?thesis using t(2,3) l unfolding l(1) by auto
  qed
qed

lemma took_block_effect:
  fixes s :: "'x fs_state_scheme"
  assumes "took_block s b t" "fs_layout s" "b \<in> free_blocks s" "length (view s (BBLOCK (of_nat b) (sb s))) = BSIZE"
  shows "free_blocks t = free_blocks s - {b}" "fs_layout t" "view t (of_nat b) = replicate BSIZE 0"
    "inodes t = inodes s" "sb t = sb s" "disksize t = disksize s"
    "\<And>c. c \<noteq> BBLOCK (of_nat b) (sb s) \<Longrightarrow> c \<noteq> of_nat b \<Longrightarrow> view t c = view s c"
proof -
  obtain u where u: "changed (BBLOCK (of_nat b) (sb s)) (bit_set (b mod BPB)) s u"
      "changed (of_nat b) (\<lambda>_. replicate BSIZE 0) u t"
    using assms(1) by (auto simp: took_block_def)
  note fu = fs_changed [OF u(1)] and ft = fs_changed [OF u(2)]
  have b: "b < unat (sb_size (sb s))" "unat (sb_bmapstart (sb s)) + bmap_blocks (sb s) \<le> b"
    using assms(2,3) by (auto simp: free_blocks_def fs_layout_def)
  have "(b mod BPB) div 8 < length (view s (BBLOCK (of_nat b) (sb s)))" using assms(4) by simp
  then have "free_blocks u = free_blocks s - {b}"
    using free_blocks_bit [where v = False, OF u(1) assms(2) b(1)] by (auto simp: bit_set_free)
  moreover from this have lu: "fs_layout u" using assms(2) fu by (simp add: fs_layout_def)
  moreover have "free_blocks t = free_blocks u" using free_blocks_zero [OF u(2) lu] b fu(1) by simp
  ultimately show "free_blocks t = free_blocks s - {b}" "fs_layout t" using assms(2) fu ft by (auto simp: fs_layout_def)
  show "view t (of_nat b) = replicate BSIZE 0" "inodes t = inodes s" "sb t = sb s" "disksize t = disksize s"
    "\<And>c. c \<noteq> BBLOCK (of_nat b) (sb s) \<Longrightarrow> c \<noteq> of_nat b \<Longrightarrow> view t c = view s c"
    using fu ft by simp_all
qed

lemma view_len: "fs_ok p pid H k s \<Longrightarrow> length (view s b) = BSIZE"
  using cache_len by (auto simp: fs_ok_def)

text \<open>C23: \<open>balloc\<close> refines taking the least element of the set of free blocks. Inside an operation with two log
  entries left, on a well-formed layout, it returns the least free block, which is then zero, in the log and no longer
  free; every block but it and its bitmap block reads as before. With no free block it panics.\<close>

theorem balloc_correct:
  fixes s :: "'x fs_state_scheme"
  assumes "fs_ok p pid {} (Suc (Suc k)) s" "fs_layout s"
  shows "if free_blocks s = {} then balloc 1 s = Panic ''balloc: out of blocks''
    else let b = LEAST b. b \<in> free_blocks s in \<exists>t. balloc 1 s = Ok (of_nat b) t \<and> fs_ok p pid {} k t \<and> fs_layout t
      \<and> free_blocks t = free_blocks s - {b} \<and> view t (of_nat b) = replicate BSIZE 0 \<and> inodes t = inodes s
      \<and> (\<forall>c. c \<noteq> BBLOCK (of_nat b) (sb s) \<longrightarrow> c \<noteq> of_nat b \<longrightarrow> view t c = view s c)"
proof -
  have r: "balloc 1 s = (case kfor (balloc_round 1) (map (\<lambda>k. k * BPB) [0..<bmap_blocks (sb s)]) s of
      Ok (Some b) t \<Rightarrow> Ok b t | Ok None t \<Rightarrow> Panic ''balloc: out of blocks'' | Panic e \<Rightarrow> Panic e | Blocked t \<Rightarrow> Blocked t | Spins \<Rightarrow> Spins)"
    by (simp add: balloc_def bmap_blocks_def kbind_def kpanic_def split: outcome.split option.split)
  note sc = balloc_scan [OF assms(1) _ _ assms(2) _ refl le0]
  show ?thesis
  proof (cases "free_blocks s = {}")
    case True
    then show ?thesis using sc r by auto
  next
    case False
    let ?b = "LEAST b. b \<in> free_blocks s"
    have m: "?b \<in> free_blocks s" using False by (metis LeastI all_not_in_conv)
    obtain t where t: "kfor (balloc_round 1) (map (\<lambda>k. k * BPB) [0..<bmap_blocks (sb s)]) s = Ok (Some (of_nat ?b)) t"
        "fs_ok p pid {} k t" "took_block s ?b t"
      using sc False by auto
    note e = took_block_effect [OF t(3) assms(2) m view_len [OF assms(1)]]
    have "balloc 1 s = Ok (of_nat ?b) t" using r t(1) by simp
    then show ?thesis using t(2) e(1-4) e(7) False by (auto simp: Let_def)
  qed
qed

text \<open>C24: \<open>bfree\<close> is the inverse: it puts exactly its block back into the set of free blocks, and panics when the
  block is free already.\<close>

theorem bfree_correct:
  fixes s :: "'x fs_state_scheme"
  assumes "fs_ok p pid {} (Suc k) s" "fs_layout s" "b < unat (sb_size (sb s))"
    and "unat (sb_bmapstart (sb s)) + bmap_blocks (sb s) \<le> b"
  shows "if b \<in> free_blocks s then bfree 1 (of_nat b) s = Panic ''freeing free block''
    else \<exists>t. bfree 1 (of_nat b) s = Ok () t \<and> fs_ok p pid {} k t \<and> fs_layout t
      \<and> free_blocks t = insert b (free_blocks s) \<and> inodes t = inodes s
      \<and> (\<forall>c. c \<noteq> BBLOCK (of_nat b) (sb s) \<longrightarrow> view t c = view s c)"
proof -
  let ?bm = "BBLOCK (of_nat b) (sb s)"
  have bi: "unat (of_nat b :: uint) mod BPB = b mod BPB" using assms(3) unat32_lt [of "sb_size (sb s)"] by (simp add: unat_of_nat)
  have lt: "?bm < disksize s" using layout_blocks(1) [OF assms(2,3)] .
  show ?thesis
  proof (cases "b \<in> free_blocks s")
    case True
    obtain i u where "bread 1 ?bm s = Ok i u" "buf_dat u i = view s ?bm"
      using bread_fs [OF assms(1), of ?bm] lt by auto
    then show ?thesis using True bi by (simp add: bfree_def Let_def dat_get_def free_blocks_def)
  next
    case False
    then have nf: "\<not> bit_free (view s ?bm) (unat (of_nat b :: uint) mod BPB)" using assms(3) bi by (simp add: free_blocks_def)
    obtain t where t: "bfree 1 (of_nat b) s = Ok () t" "fs_ok p pid {} k t" "changed ?bm (bit_clear (b mod BPB)) s t"
      using bfree_run [OF assms(1) lt nf] bi by auto
    have "(b mod BPB) div 8 < length (view s ?bm)" using view_len [OF assms(1)] by simp
    then have "free_blocks t = insert b (free_blocks s)"
      using free_blocks_bit [where v = True, OF t(3) assms(2,3)] by (auto simp: bit_clear_free)
    moreover from this have "fs_layout t" using assms(2,4) fs_changed [OF t(3)] by (simp add: fs_layout_def)
    ultimately show ?thesis using t False fs_changed [OF t(3)] by auto
  qed
qed

section \<open>Inodes through the cache\<close>

text \<open>The inode cache is not seen by the layers below.\<close>

lemma inodes_frame [simp]:
  fixes s :: "'x fs_state_scheme"
  shows "view (s\<lparr>inodes := x\<rparr>) = view s" "buf_blk (s\<lparr>inodes := x\<rparr>) = buf_blk s" "pinned_blks (s\<lparr>inodes := x\<rparr>) = pinned_blks s"
    "fs_ok p pid H k (s\<lparr>inodes := x\<rparr>) = fs_ok p pid H k s"
proof -
  show v: "view (s\<lparr>inodes := x\<rparr>) = view s" "buf_blk (s\<lparr>inodes := x\<rparr>) = buf_blk s" "pinned_blks (s\<lparr>inodes := x\<rparr>) = pinned_blks s"
    by (auto simp: view_def buf_blk_def pinned_blks_def holds_block_def fun_eq_iff split: option.split)
  have "env p pid (s\<lparr>inodes := x\<rparr>) = env p pid s"
    by (simp add: env_def lk_ok_def held_def curproc_def mycpu_index_def)
  moreover have "in_use (s\<lparr>inodes := x\<rparr>) j = in_use s j" "mine pid (s\<lparr>inodes := x\<rparr>) j = mine pid s j" for j
    by (simp_all add: in_use_def mine_def)
  moreover have "lru (s\<lparr>inodes := x\<rparr>) ys = lru s ys" for ys by (simp add: lru_def)
  ultimately have "cache p pid H (s\<lparr>inodes := x\<rparr>) = cache p pid H s" by (simp add: cache_def bc_ok_def)
  then show "fs_ok p pid H k (s\<lparr>inodes := x\<rparr>) = fs_ok p pid H k s"
    using v(3) by (simp add: fs_ok_def log_inv_def in_op_def)
qed

lemma iupdate_run:
  fixes s :: "'x fs_state_scheme"
  assumes "fs_ok p pid {} (Suc k) s" "i_dev (inodes s ! i) = 1" "IBLOCK (i_inum (inodes s ! i)) (sb s) < disksize s"
    and "length (i_addrs (inodes s ! i)) = 13"
  shows "\<exists>t. iupdate i s = Ok () t \<and> fs_ok p pid {} k t
    \<and> changed (IBLOCK (i_inum (inodes s ! i)) (sb s)) (put_dinode (dinode_off (i_inum (inodes s ! i))) (inodes s ! i)) s t"
proof -
  let ?ip = "inodes s ! i" and ?off = "dinode_off (i_inum (inodes s ! i))"
  have "length (put_dinode ?off ?ip d) = BSIZE" if "length d = BSIZE" for d
    using dinode_roundtrip(2) [of ?off d ?ip] that assms(4) by (simp add: dinode_off_def)
  then have "\<exists>t. kbind (bread 1 (IBLOCK (i_inum ?ip) (sb s)))
      (\<lambda>bp. kdo [dat_mod bp (put_dinode ?off ?ip), log_write bp, brelse bp]) s = Ok () t \<and> fs_ok p pid {} k t
      \<and> changed (IBLOCK (i_inum ?ip) (sb s)) (put_dinode ?off ?ip) s t"
    using modify_fs [where f = "put_dinode ?off ?ip", OF assms(1) _ _ _ assms(3)] by auto
  then show ?thesis using assms(2) by (simp add: iupdate_def ino_get_def)
qed

lemma ilock_read_run:
  fixes s :: "'x fs_state_scheme"
  assumes "fs_ok p pid {} k s" "i < length (inodes s)" "\<not> i_valid (inodes s ! i)" "i_dev (inodes s ! i) = 1"
    and "IBLOCK (i_inum (inodes s ! i)) (sb s) < disksize s"
  defines "ip \<equiv> get_dinode (dinode_off (i_inum (inodes s ! i))) (view s (IBLOCK (i_inum (inodes s ! i)) (sb s))) (inodes s ! i)"
  shows "if i_type ip = 0 then ilock_read i s = Panic ''ilock: no type''
    else \<exists>t. ilock_read i s = Ok () t \<and> fs_ok p pid {} k t \<and> inodes t = (inodes s)[i := ip\<lparr>i_valid := True\<rparr>] \<and> view t = view s"
proof -
  let ?b = "IBLOCK (i_inum (inodes s ! i)) (sb s)" and ?off = "dinode_off (i_inum (inodes s ! i))"
  obtain bp u where u: "bread 1 ?b s = Ok bp u" "fs_ok p pid {bp} k u" "buf_blk u bp = ?b" "buf_dat u bp = view s ?b"
      "unchanged s u" "?b \<in> pinned_blks u \<or> view u ?b = disk u ?b"
    using bread_fs [OF assms(1), of ?b] assms(5) by auto
  note fu = fs_unchanged [OF u(5)]
  let ?u = "u\<lparr>inodes := (inodes s)[i := ip]\<rparr>"
  have "fs_ok p pid {bp} k ?u" using u(2) by simp
  then obtain w where w: "brelse bp ?u = Ok () w" "fs_ok p pid {} k w" "unchanged ?u w"
    using brelse_fs [of p pid "{bp}" k ?u bp] u(3,6) by auto
  note fw = fs_unchanged [OF w(3)]
  let ?w = "w\<lparr>inodes := (inodes s)[i := ip\<lparr>i_valid := True\<rparr>]\<rparr>"
  have r: "ilock_read i s = (if i_type ip = 0 then Panic ''ilock: no type'' else Ok () ?w)"
    using u(1,4) w(1) fu fw assms(2,3,4) by (simp add: ilock_read_def ino_get_def ino_mod_def dat_get_def upd_at_def ip_def)
  have "fs_ok p pid {} k ?w" "view ?w = view s" using w(2) fw fu by simp_all
  then show ?thesis unfolding r by auto
qed

text \<open>Writing one inode leaves the others of its block alone.\<close>

lemma put16_nth: "x \<noteq> off \<Longrightarrow> x \<noteq> off + 1 \<Longrightarrow> put16 off v d ! x = d ! x"
  by (simp add: put16_def)

lemma put32_nth: "x < off \<or> off + 4 \<le> x \<Longrightarrow> put32 off v d ! x = d ! x"
  by (auto simp: put32_def)

lemma fold_put32_nth:
  "x < off \<or> off + 4 * k \<le> x \<Longrightarrow> fold (\<lambda>k. put32 (off + 4 * k) (a ! k)) [0..<k] e ! x = e ! x"
  by (induction k) (auto simp: put32_nth)

lemma put_dinode_nth: "x < off \<or> off + 64 \<le> x \<Longrightarrow> put_dinode off ip d ! x = d ! x"
  using fold_put32_nth [of x "off + 12" 13] by (auto simp: put_dinode_def put32_nth put16_nth)

lemma mult_add_le: "x \<noteq> y \<Longrightarrow> 64 * y + 64 \<le> 64 * x \<or> 64 * x + 64 \<le> 64 * (y :: nat)"
  by linarith

lemma put_dinode_other:
  assumes "off' + 64 \<le> off \<or> off + 64 \<le> off'"
  shows "get_dinode off' (put_dinode off ip d) iq = get_dinode off' d iq"
proof -
  have n: "put_dinode off ip d ! (off' + x) = d ! (off' + x)" if "x < 64" for x
    using put_dinode_nth [of "off' + x" off ip d] assms that by auto
  have g16: "get16 (put_dinode off ip d) (off' + x) = get16 d (off' + x)" if "x < 63" for x
    using n [of x] n [of "x + 1"] that by (simp add: get16_def add.assoc)
  have g32: "get32 (put_dinode off ip d) (off' + x) = get32 d (off' + x)" if "x < 61" for x
    using n [of x] n [of "x + 1"] n [of "x + 2"] n [of "x + 3"] that by (simp add: get32_def add.assoc)
  have "map (\<lambda>k. get32 (put_dinode off ip d) (off' + 12 + 4 * k)) [0..<NDIRECT + 1] = map (\<lambda>k. get32 d (off' + 12 + 4 * k)) [0..<NDIRECT + 1]"
    by (rule map_cong) (auto simp: g32 add.assoc)
  then show ?thesis using g16 [of 0] g16 [of 2] g16 [of 4] g16 [of 6] g32 [of 8] unfolding get_dinode_def by simp
qed

text \<open>C25: an inode survives the cache. After \<open>iupdate\<close> of one cache entry, \<open>ilock\<close> reading the inode of the same
  number into an entry that is not valid gives the type, device numbers, link count, size and block addresses that were
  written; reading any other inode gives what it would have given before.\<close>

theorem inode_roundtrip:
  fixes s :: "'x fs_state_scheme"
  assumes "fs_ok p pid {} (Suc k) s" "i < length (inodes s)" "j < length (inodes s)" "\<not> i_valid (inodes s ! j)"
    and "i_dev (inodes s ! i) = 1" "i_dev (inodes s ! j) = 1"
    and "IBLOCK (i_inum (inodes s ! i)) (sb s) < disksize s" "IBLOCK (i_inum (inodes s ! j)) (sb s) < disksize s"
    and "length (i_addrs (inodes s ! i)) = 13"
  defines "ip \<equiv> if i_inum (inodes s ! j) = i_inum (inodes s ! i)
       then (inodes s ! i)\<lparr>i_ref := i_ref (inodes s ! j), i_valid := False\<rparr>
       else get_dinode (dinode_off (i_inum (inodes s ! j))) (view s (IBLOCK (i_inum (inodes s ! j)) (sb s))) (inodes s ! j)"
  assumes "i_type ip \<noteq> 0"
  shows "\<exists>t u. iupdate i s = Ok () t \<and> ilock_read j t = Ok () u \<and> fs_ok p pid {} k u
    \<and> inodes u = (inodes s)[j := ip\<lparr>i_valid := True\<rparr>]"
proof -
  let ?i = "inodes s ! i" and ?j = "inodes s ! j"
  have unat_8: "unat (8 :: uint) = 8" by simp
  let ?bi = "IBLOCK (i_inum ?i) (sb s)" and ?bj = "IBLOCK (i_inum ?j) (sb s)"
  let ?oi = "dinode_off (i_inum ?i)" and ?oj = "dinode_off (i_inum ?j)"
  obtain t where t: "iupdate i s = Ok () t" "fs_ok p pid {} k t" "changed ?bi (put_dinode ?oi ?i) s t"
    using iupdate_run [OF assms(1,5,7,9)] by blast
  note ft = fs_changed [OF t(3)]
  have len: "length (view s ?bi) = BSIZE" by (rule view_len [OF assms(1)])
  have off: "?oi + 64 \<le> BSIZE" by (simp add: dinode_off_def)
  have e: "get_dinode ?oj (view t ?bj) ?j = ip"
  proof (cases "i_inum ?j = i_inum ?i")
    case True
    then show ?thesis
      using dinode_roundtrip(1) [of ?oi "view s ?bi" ?i ?j] len off assms(4,5,6,9) ft(4) by (simp add: ip_def)
  next
    case False
    have "unat (i_inum ?i) mod 8 \<noteq> unat (i_inum ?j) mod 8" if "?bi = ?bj"
    proof
      assume "unat (i_inum ?i) mod 8 = unat (i_inum ?j) mod 8"
      moreover have "unat (i_inum ?i) div 8 = unat (i_inum ?j) div 8"
        using that unfolding IBLOCK_def by (metis add_right_cancel unat_div unat_8)
      ultimately show False using False by (metis div_mult_mod_eq word_unat_eq_iff)
    qed
    then have "?bi = ?bj \<Longrightarrow> ?oj + 64 \<le> ?oi \<or> ?oi + 64 \<le> ?oj" unfolding dinode_off_def by (meson mult_add_le)
    then show ?thesis using put_dinode_other [of ?oj ?oi] False ft(4) by (auto simp: ip_def)
  qed
  have ej: "get_dinode (dinode_off (i_inum (inodes t ! j))) (view t (IBLOCK (i_inum (inodes t ! j)) (sb t))) (inodes t ! j) = ip"
    using e ft(1,2) by simp
  have "if i_type ip = 0 then ilock_read j t = Panic ''ilock: no type''
    else \<exists>u. ilock_read j t = Ok () u \<and> fs_ok p pid {} k u \<and> inodes u = (inodes t)[j := ip\<lparr>i_valid := True\<rparr>] \<and> view u = view t"
    using ilock_read_run [OF t(2), of j] assms(3,4,6,8) ft(1,2,5) unfolding ej by simp
  then show ?thesis using t(1) assms(11) ft(2) by auto
qed

section \<open>A concrete file system\<close>

text \<open>The geometry \<open>mkfs\<close> gives: 1000 blocks, the log from block 2, inodes from block 32, the bitmap in block 58; blocks
  up to 58 are in use.\<close>

definition sb_demo :: superblock where
  "sb_demo = \<lparr>sb_size = 1000, sb_nblocks = 941, sb_ninodes = 200, sb_nlog = 30, sb_logstart = 2, sb_inodestart = 32, sb_bmapstart = 58\<rparr>"

definition bitmap_demo :: "uchar list" where
  "bitmap_demo = replicate 7 255 @ 7 # replicate 504 0"

definition fs_demo :: "inode list \<Rightarrow> fs_state" where
  "fs_demo ips = log_state.extend ((log_demo plain_buf [])\<lparr>disk_image := (\<lambda>_. replicate BSIZE 0)(58 := bitmap_demo),
     lg := (lg (log_demo plain_buf []))\<lparr>lg_outstanding := 1, lg_committing := False\<rparr>\<rparr>) \<lparr>sb = sb_demo, inodes = ips\<rparr>"

lemma fs_demo_fields [simp]: "sb (fs_demo ips) = sb_demo" "inodes (fs_demo ips) = ips" "disksize (fs_demo ips) = 1000"
  by (simp_all add: fs_demo_def log_state.defs)

lemma extend_cache:
  "cache p pid H (log_state.extend s x) = cache p pid H s" "view (log_state.extend s x) = view s"
  "pinned_blks (log_state.extend s x) = pinned_blks s" "lg (log_state.extend s x) = lg (s :: log_state)"
proof -
  show v: "view (log_state.extend s x) = view s" "pinned_blks (log_state.extend s x) = pinned_blks s" "lg (log_state.extend s x) = lg s"
    by (auto simp: view_def pinned_blks_def holds_block_def log_state.defs fun_eq_iff split: option.split)
  have "env p pid (log_state.extend s x) = env p pid s"
    by (simp add: env_def lk_ok_def held_def curproc_def mycpu_index_def log_state.defs)
  moreover have "in_use (log_state.extend s x) j = in_use s j" "mine pid (log_state.extend s x) j = mine pid s j" for j
    by (simp_all add: in_use_def mine_def log_state.defs)
  moreover have "lru (log_state.extend s x) ys = lru s ys" for ys by (simp add: lru_def log_state.defs)
  ultimately show "cache p pid H (log_state.extend s x) = cache p pid H s" by (simp add: cache_def bc_ok_def) (simp add: log_state.defs)
qed

lemma fs_demo_ok: "fs_ok 0 3 {} 10 (fs_demo ips)" "view (fs_demo ips) b = (if b = 58 then bitmap_demo else replicate BSIZE 0)"
proof -
  let ?d = "(\<lambda>_. replicate BSIZE 0)(58 := bitmap_demo)"
  have "length (?d b) = BSIZE" for b by (simp add: bitmap_demo_def)
  note c = boot_demo [of ?d, OF this]
  have l: "lg_n (lg (log_demo plain_buf [])) = 0" "lg_size (lg (log_demo plain_buf [])) = 30"
    "length (lg_block (lg (log_demo plain_buf []))) = 30"
    by (simp_all add: log_demo_def sl_state.defs)
  show "fs_ok 0 3 {} 10 (fs_demo ips)"
    using c l by (simp add: fs_ok_def fs_demo_def extend_cache log_inv_def in_op_def)
  show "view (fs_demo ips) b = (if b = 58 then bitmap_demo else replicate BSIZE 0)"
    using cache_clean [OF c(1), of b] c(2) by (simp add: fs_demo_def extend_cache disk_of_def)
qed

lemma fs_demo_free: "free_blocks (fs_demo ips) = {59..<1000}" "fs_layout (fs_demo ips)"
proof -
  have d7: "bitmap_demo ! 7 = 7" unfolding bitmap_demo_def nth_append by simp
  have "bit_free bitmap_demo b \<longleftrightarrow> 59 \<le> b" if "b < 1000" for b
  proof -
    consider "b < 56" | "b \<in> {56, 57, 58}" | "b \<in> {59, 60, 61, 62, 63}" | "64 \<le> b" by fastforce
    then show ?thesis
    proof cases
      case 1
      then have "b div 8 < 7" "b div 8 < length (replicate 7 (255 :: uchar))" by simp_all
      then have d: "bitmap_demo ! (b div 8) = 255" unfolding bitmap_demo_def nth_append by simp
      have "(255 :: uchar) = - 1" by simp
      then have "\<not> (255 :: uchar) AND bit_mask b = 0" using bit_mask_neq_0 [of b] by (metis and.left_neutral)
      then show ?thesis using 1 d by (simp add: bit_free_def)
    next
      case 2
      then show ?thesis using d7 by (auto simp: bit_free_def bit_mask_def)
    next
      case 3
      then show ?thesis using d7 by (auto simp: bit_free_def bit_mask_def)
    next
      case 4
      then have "\<not> b div 8 < 7" "b div 8 - 7 \<noteq> 0" "b div 8 - 8 < 504" using that by auto
      then have "bitmap_demo ! (b div 8) = 0" unfolding bitmap_demo_def nth_append by (simp add: nth_Cons')
      then show ?thesis using 4 by (simp add: bit_free_def)
    qed
  qed
  moreover have "BBLOCK (of_nat b) sb_demo = 58" if "b < 1000" for b
  proof -
    have "unat (of_nat b div 4096 :: uint) = 0" using that by (simp add: unat_div unat_of_nat)
    then show ?thesis by (simp add: BBLOCK_def sb_demo_def unat_eq_zero)
  qed
  ultimately show f: "free_blocks (fs_demo ips) = {59..<1000}"
    by (auto simp: free_blocks_def fs_demo_ok(2) sb_demo_def)
  show "fs_layout (fs_demo ips)" unfolding fs_layout_def f by (simp add: sb_demo_def bmap_blocks_def)
qed

theorem balloc_correct_witness: "\<exists>t. balloc 1 (fs_demo []) = Ok 59 t \<and> free_blocks t = {60..<1000}"
proof -
  have l: "(LEAST b. b \<in> free_blocks (fs_demo [])) = 59"
    by (rule Least_equality) (auto simp: fs_demo_free)
  have "{59..<1000} - {59 :: nat} = {60..<1000}" by auto
  then show ?thesis
    using balloc_correct [of 0 3 8 "fs_demo []"] fs_demo_ok(1) [of "[]"] fs_demo_free [of "[]"] l by (auto simp: Let_def)
qed

theorem bfree_correct_witness:
  "\<exists>s :: fs_state. bfree 1 60 s = Panic ''freeing free block''"
  using bfree_correct [of 0 3 9 "fs_demo []" 60] fs_demo_ok(1) [of "[]"] fs_demo_free [of "[]"]
  by (auto simp: sb_demo_def bmap_blocks_def)

theorem inode_roundtrip_witness:
  "\<exists>(s :: fs_state) t u. i_size (inodes s ! 0) = 77 \<and> i_size (inodes s ! 1) = 0 \<and> iupdate 0 s = Ok () t \<and> ilock_read 1 t = Ok () u
     \<and> i_size (inodes u ! 1) = 77"
proof -
  let ?i = "\<lparr>i_dev = 1, i_inum = 5, i_ref = 1, i_valid = True, i_type = 2, i_major = 0, i_minor = 0, i_nlink = 1, i_size = 77,
    i_addrs = replicate 13 0\<rparr>"
  let ?s = "fs_demo [?i, ?i\<lparr>i_valid := False, i_size := 0\<rparr>]"
  have b: "IBLOCK 5 sb_demo < 1000" by (simp add: IBLOCK_def sb_demo_def)
  have ok: "fs_ok 0 3 {} (Suc 9) ?s" using fs_demo_ok(1) by simp
  obtain t u where "iupdate 0 ?s = Ok () t" "ilock_read 1 t = Ok () u" "inodes u = [?i, ?i]"
    using inode_roundtrip [OF ok, of 0 1] b by auto
  then show ?thesis by (intro exI [of _ ?s] exI [of _ t] exI [of _ u]) simp
qed

end
