(* ===== verification/Xv6_Ring.thy ===== *)
theory Xv6_Ring
  imports Xv6_Prelude
begin

text \<open>
  Ring buffers as the console and the pipes keep them: an array of \<open>N\<close> bytes and free-running 32-bit
  indices that are reduced modulo \<open>N\<close> on access. \<open>N\<close> divides \<open>2 ^ 32\<close>, so the wrap-around of the
  indices does no harm; the contents are a list.
\<close>

definition ring :: "nat \<Rightarrow> uchar list \<Rightarrow> uint \<Rightarrow> nat \<Rightarrow> uchar list" where
  "ring N buf a n = map (\<lambda>k. buf ! ((unat a + k) mod N)) [0..<n]"

lemma length_ring [simp]: "length (ring N buf a n) = n"
  by (simp add: ring_def)

lemma ring_0 [simp]: "ring N buf a 0 = []"
  by (simp add: ring_def)

lemma take_ring: "take m (ring N buf a n) = ring N buf a (min m n)"
  by (auto simp: ring_def take_map min_def)

lemma nth_ring: "k < n \<Longrightarrow> ring N buf a n ! k = buf ! ((unat a + k) mod N)"
  by (simp add: ring_def)

section \<open>Distances between indices\<close>

lemma unat_eq_distance:
  fixes e r :: uint
  shows "unat e = (unat r + unat (e - r)) mod 2 ^ 32"
proof -
  have "unat (r + (e - r)) = (unat r + unat (e - r)) mod 2 ^ 32" by (subst unat_word_ariths(1)) simp
  then show ?thesis by simp
qed

lemma distance_inc:
  fixes e r :: uint
  assumes "unat (e - r) < n" "n < 4294967295"
  shows "unat (e + 1 - r) = Suc (unat (e - r))"
proof -
  have "unat ((e - r) + 1) = (unat (e - r) + 1) mod 2 ^ 32" by (subst unat_word_ariths(1)) simp
  then have "unat ((e - r) + 1) = Suc (unat (e - r))" using assms by simp
  moreover have "(e - r) + 1 = e + 1 - r" by (simp add: algebra_simps)
  ultimately show ?thesis by argo
qed

lemma distance_dec:
  fixes e r :: uint
  assumes "e \<noteq> r"
  shows "unat (e - 1 - r) = unat (e - r) - 1" "unat (e - (r + 1)) = unat (e - r) - 1" "0 < unat (e - r)"
proof -
  have "e - r \<noteq> 0" using assms by simp
  then have "unat (e - r - 1) = unat (e - r) - 1" by (rule unat_minus_one)
  moreover have "e - 1 - r = e - r - 1" "e - (r + 1) = e - r - 1" by (simp_all add: algebra_simps)
  ultimately show "unat (e - 1 - r) = unat (e - r) - 1" "unat (e - (r + 1)) = unat (e - r) - 1" by argo+
  show "0 < unat (e - r)" using assms by (simp add: unat_gt_0)
qed

section \<open>Rings whose size divides the range of the indices\<close>

locale word_ring =
  fixes N :: nat
  assumes N_pos: "0 < N" and N_dvd: "N dvd 2 ^ 32"
begin

lemma index_mod: "unat (e :: uint) mod N = (unat r + unat (e - r)) mod N"
  using arg_cong [OF unat_eq_distance [of e r], of "\<lambda>x. x mod N"] mod_mod_cancel [OF N_dvd] by (rule trans)

lemma index_succ: "unat (r + 1 :: uint) mod N = (unat r + 1) mod N"
  using index_mod [of "r + 1" r] by simp

text \<open>Writing the next free cell appends.\<close>

lemma ring_push:
  assumes "length buf = N" "unat (e - r) < N"
  shows "ring N (buf[unat e mod N := v]) r (Suc (unat (e - r))) = ring N buf r (unat (e - r)) @ [v]"
proof (rule nth_equalityI)
  show "length (ring N (buf[unat e mod N := v]) r (Suc (unat (e - r)))) = length (ring N buf r (unat (e - r)) @ [v])" by simp
  fix k assume "k < length (ring N (buf[unat e mod N := v]) r (Suc (unat (e - r))))"
  then have k: "k \<le> unat (e - r)" by simp
  have i: "unat e mod N = (unat r + unat (e - r)) mod N" by (rule index_mod)
  show "ring N (buf[unat e mod N := v]) r (Suc (unat (e - r))) ! k = (ring N buf r (unat (e - r)) @ [v]) ! k"
  proof (cases "k = unat (e - r)")
    case True
    have "unat e mod N < length buf" using assms(1) N_pos by simp
    then show ?thesis using True i by (simp add: nth_ring nth_append)
  next
    case False
    then have lt: "k < unat (e - r)" using k by simp
    have "(unat r + k) mod N \<noteq> (unat r + unat (e - r)) mod N"
    proof
      assume "(unat r + k) mod N = (unat r + unat (e - r)) mod N"
      then have "(unat r + unat (e - r)) mod N = (unat r + k) mod N" by (rule sym)
      then have "N dvd (unat r + unat (e - r)) - (unat r + k)" by (intro mod_eq_dvd_iff_nat [THEN iffD1]) (use lt in simp_all)
      moreover have "(unat r + unat (e - r)) - (unat r + k) = unat (e - r) - k" by (rule add_diff_cancel_left)
      ultimately have "N dvd unat (e - r) - k" by argo
      then show False using lt assms(2) by (auto dest: dvd_imp_le)
    qed
    then show ?thesis using lt i by (simp add: nth_ring nth_append)
  qed
qed

text \<open>Advancing the read index drops the first element.\<close>

lemma ring_pop:
  assumes "0 < n"
  shows "ring N buf r n = buf ! (unat r mod N) # ring N buf (r + 1) (n - 1)"
proof (rule nth_equalityI)
  show "length (ring N buf r n) = length (buf ! (unat r mod N) # ring N buf (r + 1) (n - 1))" using assms by simp
  fix k assume "k < length (ring N buf r n)"
  then have k: "k < n" by simp
  show "ring N buf r n ! k = (buf ! (unat r mod N) # ring N buf (r + 1) (n - 1)) ! k"
  proof (cases k)
    case 0
    then show ?thesis using k by (simp add: nth_ring)
  next
    case (Suc j)
    have "(unat r + Suc j) mod N = (unat (r + 1) + j) mod N"
      using index_succ [of r] by (metis add.assoc mod_add_left_eq plus_1_eq_Suc)
    then show ?thesis using Suc k by (simp add: nth_ring)
  qed
qed

end

end
