(* ===== verification/Xv6_Console.thy ===== *)
theory Xv6_Console
  imports Xv6_Inode Xv6_Ring
begin

text \<open>
  console.c, kbd.c and the serial output of uart.c. The screen is the array of character cells of
  the CGA adapter with the cursor position its registers hold; the serial line is the list of bytes
  sent. What \<open>getc\<close> reads from the keyboard or serial port is given as the list of its results.
  A \<open>cprintf\<close> argument is a number or a string; an argument of the wrong kind or a missing one, which
  the C code would read as something else, is the outcome \<open>Panic ''cprintf argument''\<close>. \<open>panic\<close> itself is
  the outcome \<open>Panic\<close>; what it prints is not modelled. \<open>devsw\<close>, an array of function pointers, holds
  which driver a device has. Enabling the keyboard interrupt in \<open>consoleinit\<close> is not modelled.
\<close>

datatype driver = ConsoleDriver

record console_state = fs_state +
  con_locking :: bool
  panicked :: bool
  uart_on :: bool
  serial :: "uchar list"
  crt :: "nat \<Rightarrow> ushort"
  crt_pos :: nat
  inp_buf :: "uchar list"
  inp_r :: uint
  inp_w :: uint
  inp_e :: uint
  devsw :: "nat \<Rightarrow> driver option"

section \<open>Characters on the screen and the serial line\<close>

abbreviation (input) BACKSPACE :: nat where "BACKSPACE \<equiv> 256"
abbreviation (input) INPUT_BUF :: nat where "INPUT_BUF \<equiv> 128"

definition uartputc :: "nat \<Rightarrow> ('x console_state_scheme, unit) K" where
  "uartputc c = kmod (\<lambda>s. if uart_on s then s\<lparr>serial := serial s @ [of_nat c]\<rparr> else s)"

definition crt_put :: "nat \<Rightarrow> ushort \<Rightarrow> ('x console_state_scheme, unit) K" where
  "crt_put pos v = kmod (\<lambda>s. s\<lparr>crt := (crt s)(pos := v)\<rparr>)"

definition scroll_up :: "nat \<Rightarrow> (nat \<Rightarrow> ushort) \<Rightarrow> nat \<Rightarrow> ushort" where
  "scroll_up pos f = (\<lambda>i. if pos \<le> i \<and> i < 24 * 80 then 0 else if i < 23 * 80 then f (i + 80) else f i)"

text \<open>\<open>cgaputc\<close> from the bounds check on.\<close>

definition cga_finish :: "nat \<Rightarrow> ('x console_state_scheme, unit) K" where
  "cga_finish pos = (if pos > 25 * 80 then kpanic ''pos under/overflow''
     else kbind (if pos div 80 \<ge> 24
                 then kthen [kmod (\<lambda>s. s\<lparr>crt := scroll_up (pos - 80) (crt s)\<rparr>)] (kret (pos - 80)) else kret pos) (\<lambda>pos.
       kdo [kmod (\<lambda>s. s\<lparr>crt_pos := pos\<rparr>), crt_put pos 0x0720]))"

definition cgaputc :: "nat \<Rightarrow> ('x console_state_scheme, unit) K" where
  "cgaputc c = kbind (kgets crt_pos) (\<lambda>pos.
     kbind (if c = 10 then kret (pos + (80 - pos mod 80))
            else if c = BACKSPACE then kret (if pos > 0 then pos - 1 else pos)
            else kthen [crt_put pos ((of_nat c AND 0xFF) OR 0x0700)] (kret (pos + 1))) cga_finish)"

definition consputc :: "nat \<Rightarrow> ('x console_state_scheme, unit) K" where
  "consputc c = kbind (kgets panicked) (\<lambda>b.
     if b then kspin
     else kdo [if c = BACKSPACE then kdo [uartputc 8, uartputc 32, uartputc 8] else uartputc c, cgaputc c])"

section \<open>Formatted output\<close>

definition digit :: "nat \<Rightarrow> uchar" where
  "digit d = (if d < 10 then of_nat (48 + d) else of_nat (87 + d))"

text \<open>The digits of \<open>x\<close>, lowest first, as they are put into \<open>buf\<close>.\<close>

function digits :: "nat \<Rightarrow> nat \<Rightarrow> uchar list" where
  "digits b x = digit (x mod b) # (if b < 2 \<or> x div b = 0 then [] else digits b (x div b))"
  by auto
termination
proof (relation "measure snd")
  show "wf (measure snd)" by simp
  show "((b, x div b), b, x) \<in> measure snd" if "\<not> (b < 2 \<or> x div b = 0)" for b x
    using that by (cases x) (auto intro: div_less_dividend)
qed

declare digits.simps [simp del]

definition printint_buf :: "uint \<Rightarrow> nat \<Rightarrow> bool \<Rightarrow> uchar list" where
  "printint_buf xx b sign = (let neg = sign \<and> cint xx < 0; x = if neg then - xx else xx in
     rev (digits b (unat x) @ (if neg then [45] else [])))"

definition printint :: "uint \<Rightarrow> nat \<Rightarrow> bool \<Rightarrow> ('x console_state_scheme, unit) K" where
  "printint xx b sign = keach (\<lambda>c. consputc (unat c)) (printint_buf xx b sign)"

datatype cparg = CInt uint | CStr "cstr option"

definition bytes_of :: "string \<Rightarrow> cstr" where
  "bytes_of x = map of_char x"

definition cputs :: "cstr \<Rightarrow> ('x console_state_scheme, unit) K" where
  "cputs x = keach (\<lambda>c. consputc (unat c)) (str_of x)"

definition print_arg :: "uchar \<Rightarrow> cparg \<Rightarrow> ('x console_state_scheme, unit) K" where
  "print_arg c a = (case a of
     CInt v \<Rightarrow> if c = 100 then printint v 10 True
               else if c = 120 \<or> c = 112 then printint v 16 False else kpanic ''cprintf argument''
   | CStr x \<Rightarrow> if c = 115 then cputs (case x of None \<Rightarrow> bytes_of ''(null)'' | Some y \<Rightarrow> y) else kpanic ''cprintf argument'')"

fun cprintf_loop :: "cstr \<Rightarrow> cparg list \<Rightarrow> ('x console_state_scheme, unit) K" where
  "cprintf_loop [] args = kret ()"
| "cprintf_loop [c] args = (if c = 0 \<or> c = 37 then kret () else consputc (unat c))"
| "cprintf_loop (c # d # fmt) args =
     (if c = 0 then kret ()
      else if c \<noteq> 37 then kbind (consputc (unat c)) (\<lambda>_. cprintf_loop (d # fmt) args)
      else if d = 0 then kret ()
      else if d = 100 \<or> d = 120 \<or> d = 112 \<or> d = 115 then
        (case args of [] \<Rightarrow> kpanic ''cprintf argument''
         | a # as \<Rightarrow> kbind (print_arg d a) (\<lambda>_. cprintf_loop fmt as))
      else if d = 37 then kbind (consputc 37) (\<lambda>_. cprintf_loop fmt args)
      else kbind (kdo [consputc 37, consputc (unat d)]) (\<lambda>_. cprintf_loop fmt args))"

definition cprintf :: "cstr option \<Rightarrow> cparg list \<Rightarrow> ('x console_state_scheme, unit) K" where
  "cprintf fmt args = kbind (kgets con_locking) (\<lambda>locking.
     kthen [kwhen locking (acquire ConsLock)]
       (case fmt of None \<Rightarrow> kpanic ''null fmt''
        | Some f \<Rightarrow> kdo [cprintf_loop f args, kwhen locking (release ConsLock)]))"

text \<open>The calls \<open>procdump\<close> makes for its listing.\<close>

definition procdump_print :: "('x console_state_scheme, unit) K" where
  "procdump_print = kbind (kgets procdump) (keach (\<lambda>(pid, tid, state, name, pcs). kdo [
     cprintf (Some (bytes_of ''%d %d %s %s'')) [CInt (uint_of pid), CInt (uint_of tid), CStr (Some (bytes_of state)), CStr (Some name)],
     keach (\<lambda>pc. cprintf (Some (bytes_of '' %p'')) [CInt pc]) pcs,
     cprintf (Some [10]) []]))"

section \<open>Keyboard\<close>

text \<open>An array given by its first elements and by designated initialisers.\<close>

definition table :: "uchar list \<Rightarrow> (nat \<times> uchar) list \<Rightarrow> nat \<Rightarrow> uchar" where
  "table xs ds i = (case map_of ds i of Some v \<Rightarrow> v | None \<Rightarrow> if i < length xs then xs ! i else 0)"

definition shiftcode :: "nat \<Rightarrow> uchar" where
  "shiftcode = table [] [(0x1D, 2), (0x2A, 1), (0x36, 1), (0x38, 4), (0x9D, 2), (0xB8, 4)]"

definition togglecode :: "nat \<Rightarrow> uchar" where
  "togglecode = table [] [(0x3A, 8), (0x45, 16), (0x46, 32)]"

definition keypad :: "(nat \<times> uchar) list" where
  "keypad = [(0xC8, 0xE2), (0xD0, 0xE3), (0xC9, 0xE6), (0xD1, 0xE7), (0xCB, 0xE4), (0xCD, 0xE5),
     (0x97, 0xE0), (0xCF, 0xE1), (0xD2, 0xE8), (0xD3, 0xE9)]"

definition normalmap :: "nat \<Rightarrow> uchar" where
  "normalmap = table
     ([0, 0x1B] @ bytes_of ''1234567890-='' @ [8, 9] @ bytes_of ''qwertyuiop[]'' @ [10, 0] @ bytes_of ''asdfghjkl;''
      @ [39, 96, 0, 92] @ bytes_of ''zxcvbnm,./'' @ [0, 42, 0, 32] @ replicate 13 0 @ bytes_of ''789-456+1230.'' @ replicate 4 0)
     ([(0x9C, 10), (0xB5, 47)] @ keypad)"

definition shiftmap :: "nat \<Rightarrow> uchar" where
  "shiftmap = table
     ([0, 27] @ bytes_of ''!@#$%^&*()_+'' @ [8, 9] @ bytes_of ''QWERTYUIOP{}'' @ [10, 0] @ bytes_of ''ASDFGHJKL:''
      @ [34, 126, 0, 124] @ bytes_of ''ZXCVBNM<>?'' @ [0, 42, 0, 32] @ replicate 13 0 @ bytes_of ''789-456+1230.'' @ replicate 4 0)
     ([(0x9C, 10), (0xB5, 47)] @ keypad)"

text \<open>\<open>C(x)\<close>: the code of Control-x.\<close>

definition ctl :: "string \<Rightarrow> uchar list" where
  "ctl x = map (\<lambda>c. of_char c - 64) x"

definition ctlmap :: "nat \<Rightarrow> uchar" where
  "ctlmap = table
     (replicate 16 0 @ ctl ''QWERTYUIOP'' @ [0, 0, 13, 0] @ ctl ''ASDFGHJKL'' @ [0, 0, 0, 0] @ [28] @ ctl ''ZXCVBNM''
      @ [0, 0] @ ctl ''/'' @ [0, 0])
     ([(0x9C, 13), (0xB5, 47 - 64)] @ keypad)"

text \<open>\<open>st\<close> and \<open>data\<close> are what the two ports read; the result is paired with the new \<open>shift\<close>.\<close>

definition kbdgetc :: "uint \<Rightarrow> uint \<Rightarrow> uint \<Rightarrow> int \<times> uint" where
  "kbdgetc st data shift =
     (if st AND 1 = 0 then (- 1, shift)
      else if data = 0xE0 then (0, shift OR 64)
      else if data AND 0x80 \<noteq> 0 then
        let data = (if shift AND 64 \<noteq> 0 then data else data AND 0x7F)
        in (0, shift AND NOT (ucast (shiftcode (unat data)) OR 64))
      else
        let (data, shift) = (if shift AND 64 \<noteq> 0 then (data OR 0x80, shift AND NOT 64) else (data, shift));
            shift = (shift OR ucast (shiftcode (unat data))) XOR ucast (togglecode (unat data));
            c = unat (([normalmap, shiftmap, ctlmap, ctlmap] ! unat (shift AND 3)) (unat data))
        in (if shift AND 8 \<noteq> 0 then
              if 97 \<le> c \<and> c \<le> 122 then int (c - 32)
              else if 65 \<le> c \<and> c \<le> 90 then int (c + 32) else int c
            else int c, shift))"

section \<open>Input\<close>

text \<open>The loop of Control-U; it runs at most \<open>input.e - input.w\<close> times.\<close>

primrec kill_line :: "nat \<Rightarrow> ('x console_state_scheme, unit) K" where
  "kill_line 0 = kret ()"
| "kill_line (Suc n) = kbind (kgets (\<lambda>s. inp_e s \<noteq> inp_w s \<and> inp_buf s ! (unat (inp_e s - 1) mod INPUT_BUF) \<noteq> 10)) (\<lambda>go.
     if go then kbind (kmod (\<lambda>s. s\<lparr>inp_e := inp_e s - 1\<rparr>)) (\<lambda>_. kbind (consputc BACKSPACE) (\<lambda>_. kill_line n))
     else kret ())"

text \<open>A character that goes into the buffer.\<close>

definition console_put :: "int \<Rightarrow> ('x console_state_scheme, unit) K" where
  "console_put c = kdo [
     kmod (\<lambda>s. s\<lparr>inp_buf := (inp_buf s)[unat (inp_e s) mod INPUT_BUF := word_of_int c], inp_e := inp_e s + 1\<rparr>),
     consputc (nat c),
     kbind (kgets (\<lambda>s. c = 10 \<or> c = 4 \<or> inp_e s = inp_r s + 128)) (\<lambda>line.
       kwhen line (kdo [kmod (\<lambda>s. s\<lparr>inp_w := inp_e s\<rparr>), wakeup (Some Ch_input)]))]"

text \<open>One character; the result says whether it asks for the process listing.\<close>

definition console_char :: "int \<Rightarrow> ('x console_state_scheme, bool) K" where
  "console_char c =
     (if c = 16 then kret True
      else if c = 21 then kthen [kbind (kgets (\<lambda>s. unat (inp_e s - inp_w s))) kill_line] (kret False)
      else if c = 8 \<or> c = 127 then
        kthen [kbind (kgets (\<lambda>s. inp_e s \<noteq> inp_w s)) (\<lambda>go.
          kwhen go (kdo [kmod (\<lambda>s. s\<lparr>inp_e := inp_e s - 1\<rparr>), consputc BACKSPACE]))] (kret False)
      else
        kthen [kbind (kgets (\<lambda>s. c \<noteq> 0 \<and> unat (inp_e s - inp_r s) < INPUT_BUF)) (\<lambda>go.
          kwhen go (console_put (if c = 13 then 10 else c)))] (kret False))"

primrec console_chars :: "int list \<Rightarrow> bool \<Rightarrow> ('x console_state_scheme, bool) K" where
  "console_chars [] dump = kret dump"
| "console_chars (c # cs) dump = (if c < 0 then kret dump
     else kbind (console_char c) (\<lambda>d. console_chars cs (dump \<or> d)))"

definition consoleintr :: "int list \<Rightarrow> ('x console_state_scheme, unit) K" where
  "consoleintr cs = kthen [acquire ConsLock] (kbind (console_chars cs False) (\<lambda>dump.
     kdo [release ConsLock, kwhen dump procdump_print]))"

text \<open>\<open>kbdintr\<close>: the results of \<open>kbdgetc\<close> on a sequence of port readings, and the last \<open>shift\<close>.\<close>

fun kbd_codes :: "(uint \<times> uint) list \<Rightarrow> uint \<Rightarrow> int list \<times> uint" where
  "kbd_codes [] shift = ([], shift)"
| "kbd_codes ((st, data) # ps) shift = (let (c, shift) = kbdgetc st data shift in
     if c < 0 then ([c], shift) else let (cs, shift) = kbd_codes ps shift in (c # cs, shift))"

definition kbdintr :: "(uint \<times> uint) list \<Rightarrow> uint \<Rightarrow> ('x console_state_scheme, uint) K" where
  "kbdintr ps shift = (case kbd_codes ps shift of (cs, shift) \<Rightarrow> kthen [consoleintr cs] (kret shift))"

text \<open>\<open>uartgetc\<close> on the status and data registers, and \<open>uartintr\<close>.\<close>

definition uartgetc :: "bool \<Rightarrow> uint \<times> uint \<Rightarrow> int" where
  "uartgetc on r = (if \<not> on then - 1 else if fst r AND 1 = 0 then - 1 else int (unat (snd r AND 0xFF)))"

definition uartintr :: "(uint \<times> uint) list \<Rightarrow> ('x console_state_scheme, unit) K" where
  "uartintr rs = kbind (kgets uart_on) (\<lambda>on. consoleintr (map (uartgetc on) rs))"

definition consoleread_end :: "nat option \<Rightarrow> int \<Rightarrow> uchar list \<Rightarrow> ('x console_state_scheme, int \<times> uchar list) K" where
  "consoleread_end ip r bs = kthen [release ConsLock, ilock ip] (kret (r, bs))"

text \<open>The loop of \<open>consoleread\<close>, with \<open>n\<close> bytes still to read and \<open>bs\<close> read so far.\<close>

primrec consoleread_loop :: "nat \<Rightarrow> nat option \<Rightarrow> nat \<Rightarrow> uchar list \<Rightarrow> ('x console_state_scheme, int \<times> uchar list) K" where
  "consoleread_loop 0 ip target bs = consoleread_end ip (int target) bs"
| "consoleread_loop (Suc n) ip target bs =
     kbind (kgets (\<lambda>s. inp_r s = inp_w s)) (\<lambda>empty.
     if empty then with_myproc (\<lambda>p. kbind (proc_get p p_killed) (\<lambda>k.
       if k then consoleread_end ip (- 1) bs else sleep (Some Ch_input) ConsLock))
     else kbind (kgets (\<lambda>s. inp_buf s ! (unat (inp_r s) mod INPUT_BUF))) (\<lambda>c.
       kthen [kmod (\<lambda>s. s\<lparr>inp_r := inp_r s + 1\<rparr>)]
         (if c = 4 then kthen [kwhen (Suc n < target) (kmod (\<lambda>s. s\<lparr>inp_r := inp_r s - 1\<rparr>))]
                          (consoleread_end ip (int (target - Suc n)) bs)
          else if c = 10 then consoleread_end ip (int (target - n)) (bs @ [c])
          else consoleread_loop n ip target (bs @ [c]))))"

definition consoleread :: "nat option \<Rightarrow> int \<Rightarrow> ('x console_state_scheme, int \<times> uchar list) K" where
  "consoleread ip n = kthen [iunlock ip, acquire ConsLock] (consoleread_loop (nat n) ip (nat n) [])"

definition consoleread_resume :: "bool \<Rightarrow> nat \<Rightarrow> nat option \<Rightarrow> nat \<Rightarrow> uchar list \<Rightarrow> ('x console_state_scheme, int \<times> uchar list) K" where
  "consoleread_resume saved n ip target bs = kthen [sleep_return saved ConsLock] (consoleread_loop n ip target bs)"

definition consolewrite :: "nat option \<Rightarrow> uchar list \<Rightarrow> ('x console_state_scheme, int) K" where
  "consolewrite ip bs = kthen [iunlock ip, acquire ConsLock, keach (\<lambda>c. consputc (unat c)) bs, release ConsLock, ilock ip]
     (kret (int (length bs)))"

definition consoleinit :: "('x console_state_scheme, unit) K" where
  "consoleinit = kdo [initlock ConsLock ''console'',
     kmod (\<lambda>s. s\<lparr>devsw := (devsw s)(1 := Some ConsoleDriver)\<rparr>),
     kmod (\<lambda>s. s\<lparr>con_locking := True\<rparr>)]"

section \<open>The screen\<close>

text \<open>Where the cursor goes before scrolling, the cells then, and the final cells and cursor.\<close>

definition crt_next :: "nat \<Rightarrow> nat \<Rightarrow> nat" where
  "crt_next c pos = (if c = 10 then pos + (80 - pos mod 80) else if c = BACKSPACE then pos - 1 else pos + 1)"

definition crt_settle :: "nat \<Rightarrow> 'x console_state_scheme \<Rightarrow> 'x console_state_scheme" where
  "crt_settle q s = (let r = (if q = 1920 then 1840 else q)
     in s\<lparr>crt := (if q = 1920 then scroll_up 1840 (crt s) else crt s)(r := 0x0720), crt_pos := r\<rparr>)"

definition crt_after :: "nat \<Rightarrow> 'x console_state_scheme \<Rightarrow> 'x console_state_scheme" where
  "crt_after c s = crt_settle (crt_next c (crt_pos s))
     (if c = 10 \<or> c = BACKSPACE then s else s\<lparr>crt := (crt s)(crt_pos s := (of_nat c AND 0xFF) OR 0x0700)\<rparr>)"

lemma crt_next_le:
  assumes "pos < 1920"
  shows "crt_next c pos \<le> 1920"
proof -
  have "pos div 80 < 24" using assms by simp
  moreover have "pos = 80 * (pos div 80) + pos mod 80" "pos mod 80 < 80" by simp_all
  ultimately have "pos + (80 - pos mod 80) \<le> 1920" by linarith
  then show ?thesis using assms by (auto simp: crt_next_def)
qed

lemma row_24: "q \<le> 1920 \<Longrightarrow> 24 \<le> q div 80 \<longleftrightarrow> q = (1920 :: nat)"
  by (auto simp: less_eq_div_iff_mult_less_eq)

lemma cga_finish_run:
  assumes "q \<le> 1920"
  shows "cga_finish q s = Ok () (crt_settle q s)"
  using assms row_24 [OF assms] by (simp add: cga_finish_def crt_put_def crt_settle_def kthen_def Let_def)

lemma cgaputc_run:
  assumes "crt_pos s < 1920"
  shows "cgaputc c s = Ok () (crt_after c s)"
  using cga_finish_run [OF crt_next_le [OF assms, of c]]
  by (auto simp: cgaputc_def crt_put_def crt_after_def crt_next_def kthen_def)

lemma crt_after_pos: "crt_pos s < 1920 \<Longrightarrow> crt_pos (crt_after c s) < 1920"
  using crt_next_le [of "crt_pos s" c] by (auto simp: crt_after_def crt_settle_def Let_def)


section \<open>The line discipline\<close>

text \<open>The input buffer as two lists: what readers may have, and the line being edited.\<close>

interpretation con: word_ring 128
  by unfold_locales simp_all

definition inp_all :: "'x console_state_scheme \<Rightarrow> uchar list" where
  "inp_all s = ring 128 (inp_buf s) (inp_r s) (unat (inp_e s - inp_r s))"

definition inp_lines :: "'x console_state_scheme \<Rightarrow> uchar list" where
  "inp_lines s = ring 128 (inp_buf s) (inp_r s) (unat (inp_w s - inp_r s))"

definition inp_edit :: "'x console_state_scheme \<Rightarrow> uchar list" where
  "inp_edit s = drop (unat (inp_w s - inp_r s)) (inp_all s)"

definition input_ok :: "'x console_state_scheme \<Rightarrow> bool" where
  "input_ok s \<longleftrightarrow> length (inp_buf s) = 128 \<and> unat (inp_w s - inp_r s) \<le> unat (inp_e s - inp_r s)
     \<and> unat (inp_e s - inp_r s) \<le> 128"

text \<open>What a character does to the two lists.\<close>

definition edit_char :: "int \<Rightarrow> uchar list \<times> uchar list \<Rightarrow> uchar list \<times> uchar list" where
  "edit_char c = (\<lambda>(ls, ed).
     if c = 16 then (ls, ed)
     else if c = 21 then (ls, rev (dropWhile (\<lambda>x. x \<noteq> 10) (rev ed)))
     else if c = 8 \<or> c = 127 then (ls, butlast ed)
     else if c = 0 \<or> length ls + length ed \<ge> 128 then (ls, ed)
     else let c = (if c = 13 then 10 else c); ed = ed @ [word_of_int c] in
       if c = 10 \<or> c = 4 \<or> length ls + length ed = 128 then (ls @ ed, []) else (ls, ed))"

definition con_ready :: "'x console_state_scheme \<Rightarrow> bool" where
  "con_ready s \<longleftrightarrow> \<not> panicked s \<and> crt_pos s < 1920"

text \<open>\<open>shown s t\<close>: only the screen and the serial line have changed.\<close>

definition shown :: "'x console_state_scheme \<Rightarrow> 'x console_state_scheme \<Rightarrow> bool" where
  "shown s t \<longleftrightarrow> (\<exists>x y z. t = s\<lparr>serial := x, crt := y, crt_pos := z\<rparr>)"

lemma shown_fields:
  assumes "shown s t"
  shows "inp_buf t = inp_buf s" "inp_r t = inp_r s" "inp_w t = inp_w s" "inp_e t = inp_e s" "panicked t = panicked s"
    "lk_ok t = lk_ok s" "held t = held s" "curproc t = curproc s" "procs t = procs s" "inodes t = inodes s" "slocks t = slocks s"
  using assms by (auto simp: shown_def lk_ok_def held_def curproc_def mycpu_index_def)

lemma consputc_run:
  fixes s :: "'x console_state_scheme"
  assumes "con_ready s"
  shows "\<exists>t. consputc c s = Ok () t \<and> con_ready t \<and> shown s t"
proof -
  have u: "\<exists>x. uartputc d s = Ok () (s\<lparr>serial := x\<rparr>)" for d and s :: "'x console_state_scheme"
    by (cases "uart_on s") (auto simp: uartputc_def intro: exI [of _ "serial s"])
  obtain x1 where 1: "uartputc 8 s = Ok () (s\<lparr>serial := x1\<rparr>)" using u by blast
  obtain x2 where 2: "uartputc 32 (s\<lparr>serial := x1\<rparr>) = Ok () (s\<lparr>serial := x2\<rparr>)" using u [of 32 "s\<lparr>serial := x1\<rparr>"] by auto
  obtain x3 where 3: "uartputc 8 (s\<lparr>serial := x2\<rparr>) = Ok () (s\<lparr>serial := x3\<rparr>)" using u [of 8 "s\<lparr>serial := x2\<rparr>"] by auto
  define m :: "('x console_state_scheme, unit) K"
    where "m = (if c = BACKSPACE then kdo [uartputc 8, uartputc 32, uartputc 8] else uartputc c)"
  have "\<exists>x. m s = Ok () (s\<lparr>serial := x\<rparr>)" using u 1 2 3 by (auto simp: m_def)
  then obtain x where x: "m s = Ok () (s\<lparr>serial := x\<rparr>)" by blast
  have p: "crt_pos (s\<lparr>serial := x\<rparr>) < 1920" using assms by (simp add: con_ready_def)
  have "consputc c s = kdo [m, cgaputc c] s"
    using assms by (simp add: consputc_def con_ready_def m_def kbind_def kgets_def del: kdo.simps)
  then have "consputc c s = Ok () (crt_after c (s\<lparr>serial := x\<rparr>))" using x cgaputc_run [OF p, of c] by simp
  moreover have "shown s (crt_after c (s\<lparr>serial := x\<rparr>))"
    unfolding shown_def crt_after_def crt_settle_def Let_def by (cases s) auto
  ultimately show ?thesis using crt_after_pos [OF p, of c] assms shown_fields(5) [of s] by (auto simp: con_ready_def)
qed

lemma input_shown:
  assumes "shown s t"
  shows "inp_all t = inp_all s" "inp_lines t = inp_lines s" "inp_edit t = inp_edit s" "input_ok t = input_ok s"
  using shown_fields [OF assms] by (simp_all add: inp_all_def inp_lines_def inp_edit_def input_ok_def)

lemma inp_split:
  assumes "input_ok s"
  shows "inp_all s = inp_lines s @ inp_edit s" "length (inp_lines s) = unat (inp_w s - inp_r s)"
    "length (inp_edit s) = unat (inp_e s - inp_r s) - unat (inp_w s - inp_r s)"
proof -
  have "take (unat (inp_w s - inp_r s)) (inp_all s) = inp_lines s"
    using assms by (simp add: inp_all_def inp_lines_def take_ring input_ok_def min_def)
  then show "inp_all s = inp_lines s @ inp_edit s" unfolding inp_edit_def by (metis append_take_drop_id)
  show "length (inp_lines s) = unat (inp_w s - inp_r s)" by (simp add: inp_lines_def)
  show "length (inp_edit s) = unat (inp_e s - inp_r s) - unat (inp_w s - inp_r s)" by (simp add: inp_edit_def inp_all_def)
qed

text \<open>Taking back the last character of the line.\<close>

lemma edit_empty: "input_ok s \<Longrightarrow> inp_edit s = [] \<longleftrightarrow> inp_e s = inp_w s"
proof
  assume i: "input_ok s"
  assume "inp_edit s = []"
  then have "unat (inp_e s - inp_r s) = unat (inp_w s - inp_r s)" using inp_split(3) [OF i] i by (simp add: input_ok_def)
  then have "inp_e s - inp_r s = inp_w s - inp_r s" by (simp add: word_unat_eq_iff)
  then show "inp_e s = inp_w s" by simp
qed (simp add: inp_edit_def inp_all_def)

lemma edit_back:
  fixes s :: "'x console_state_scheme"
  assumes "input_ok s" "inp_e s \<noteq> inp_w s"
  defines "t \<equiv> s\<lparr>inp_e := inp_e s - 1\<rparr>"
  shows "input_ok t" "inp_lines t = inp_lines s" "inp_edit t = butlast (inp_edit s)"
    "inp_buf s ! (unat (inp_e s - 1) mod 128) = last (inp_edit s)"
proof -
  let ?n = "unat (inp_e s - inp_r s)" and ?m = "unat (inp_w s - inp_r s)"
  have ne: "inp_edit s \<noteq> []" using edit_empty [OF assms(1)] assms(2) by simp
  then have "length (inp_edit s) \<noteq> 0" by simp
  then have mn: "?m < ?n" using inp_split(3) [OF assms(1)] by linarith
  then have er: "inp_e s \<noteq> inp_r s" by auto
  note d = distance_dec [OF er]
  show "input_ok t" using assms(1) mn d(1) by (auto simp: t_def input_ok_def)
  show "inp_lines t = inp_lines s" by (simp add: t_def inp_lines_def)
  have all: "inp_all t = butlast (inp_all s)"
    using d(1) take_ring [of "?n - 1" 128 "inp_buf s" "inp_r s" ?n] by (simp add: t_def inp_all_def butlast_conv_take)
  show "inp_edit t = butlast (inp_edit s)"
    using all by (simp add: inp_edit_def t_def drop_butlast)
  have "last (inp_edit s) = last (inp_all s)" using ne inp_split(1) [OF assms(1)] by simp
  also have "\<dots> = inp_all s ! (?n - 1)" using d(3) by (subst last_conv_nth) (auto simp: inp_all_def ring_def)
  also have "\<dots> = inp_buf s ! ((unat (inp_r s) + (?n - 1)) mod 128)" using d(3) by (simp add: inp_all_def nth_ring)
  also have "(unat (inp_r s) + (?n - 1)) mod 128 = unat (inp_e s - 1) mod 128"
    using con.index_mod [of "inp_e s - 1" "inp_r s"] d(1) by simp
  finally show "inp_buf s ! (unat (inp_e s - 1) mod 128) = last (inp_edit s)" by simp
qed

text \<open>Appending a character, and ending the line.\<close>

lemma edit_push:
  fixes s :: "'x console_state_scheme" and v :: uchar
  assumes "input_ok s" "unat (inp_e s - inp_r s) < 128"
  defines "t \<equiv> s\<lparr>inp_buf := (inp_buf s)[unat (inp_e s) mod 128 := v], inp_e := inp_e s + 1\<rparr>"
  shows "input_ok t" "inp_lines t = inp_lines s" "inp_edit t = inp_edit s @ [v]"
    "unat (inp_e t - inp_r t) = Suc (unat (inp_e s - inp_r s))"
proof -
  let ?n = "unat (inp_e s - inp_r s)" and ?m = "unat (inp_w s - inp_r s)"
  have l: "length (inp_buf s) = 128" "?m \<le> ?n" using assms(1) by (simp_all add: input_ok_def)
  have n: "unat (inp_e s + 1 - inp_r s) = Suc ?n" using distance_inc [OF assms(2)] by simp
  then show d: "unat (inp_e t - inp_r t) = Suc ?n" by (simp add: t_def)
  show "input_ok t" using l n assms(2) by (simp add: t_def input_ok_def)
  have all: "inp_all t = inp_all s @ [v]"
    using con.ring_push [OF l(1) assms(2), of v] n by (simp add: t_def inp_all_def)
  moreover have w: "unat (inp_w t - inp_r t) = ?m" by (simp add: t_def)
  ultimately show "inp_edit t = inp_edit s @ [v]"
    using l(2) by (simp add: inp_edit_def) (simp add: inp_all_def)
  have "inp_lines t = take ?m (inp_all t)"
    using w d l(2) by (simp add: inp_all_def inp_lines_def take_ring min_def)
  also have "\<dots> = take ?m (inp_all s)" using all l(2) by (simp add: inp_all_def)
  also have "\<dots> = inp_lines s" using l(2) by (simp add: inp_all_def inp_lines_def take_ring min_def)
  finally show "inp_lines t = inp_lines s" .
qed

lemma edit_commit:
  fixes s :: "'x console_state_scheme"
  assumes "input_ok s"
  defines "t \<equiv> s\<lparr>inp_w := inp_e s\<rparr>"
  shows "input_ok t" "inp_lines t = inp_lines s @ inp_edit s" "inp_edit t = []"
proof -
  show "input_ok t" using assms by (simp add: input_ok_def)
  show "inp_lines t = inp_lines s @ inp_edit s"
    using inp_split(1) [OF assms(1)] by (simp add: t_def inp_lines_def inp_all_def)
  show "inp_edit t = []" by (simp add: t_def inp_edit_def inp_all_def)
qed

lemma kill_line_run:
  assumes "con_ready s" "input_ok s" "length (inp_edit s) \<le> n"
  shows "\<exists>t. kill_line n s = Ok () t \<and> con_ready t \<and> input_ok t \<and> inp_lines t = inp_lines s
    \<and> inp_edit t = rev (dropWhile (\<lambda>x. x \<noteq> 10) (rev (inp_edit s))) \<and> lk_ok t = lk_ok s \<and> held t = held s"
  using assms
proof (induction n arbitrary: s)
  case 0
  then show ?case by simp
next
  case (Suc n)
  show ?case
  proof (cases "inp_e s \<noteq> inp_w s \<and> inp_buf s ! (unat (inp_e s - 1) mod 128) \<noteq> 10")
    case True
    let ?u = "s\<lparr>inp_e := inp_e s - 1\<rparr>"
    note b = edit_back [OF Suc.prems(2) conjunct1 [OF True]]
    have ne: "inp_edit s \<noteq> []" using edit_empty [OF Suc.prems(2)] True by simp
    have "con_ready ?u" using Suc.prems(1) by (simp add: con_ready_def)
    then obtain v where v: "consputc BACKSPACE ?u = Ok () v" "con_ready v" "shown ?u v" using consputc_run by blast
    note i = input_shown [OF v(3)]
    have "length (inp_edit v) \<le> n" using i(3) b(3) Suc.prems(3) by simp
    then obtain t where t: "kill_line n v = Ok () t" "con_ready t" "input_ok t" "inp_lines t = inp_lines v"
        "inp_edit t = rev (dropWhile (\<lambda>x. x \<noteq> 10) (rev (inp_edit v)))" "lk_ok t = lk_ok v" "held t = held v"
      using Suc.IH [OF v(2)] b(1) i(4) by auto
    have "lk_ok ?u = lk_ok s" "held ?u = held s" by (simp_all add: lk_ok_def held_def mycpu_index_def)
    moreover have "dropWhile (\<lambda>x. x \<noteq> 10) (rev (inp_edit s)) = dropWhile (\<lambda>x. x \<noteq> 10) (rev (butlast (inp_edit s)))"
      using ne b(4) True by (cases "inp_edit s" rule: rev_cases) simp_all
    moreover have "kill_line (Suc n) s = Ok () t" using True v(1) t(1) by simp
    ultimately show ?thesis using t(2-7) i b True shown_fields(6,7) [OF v(3)] by simp
  next
    case False
    have "dropWhile (\<lambda>x. x \<noteq> 10) (rev (inp_edit s)) = rev (inp_edit s)"
    proof (cases "inp_edit s = []")
      case 2: False
      then have w: "inp_e s \<noteq> inp_w s" using edit_empty [OF Suc.prems(2)] by simp
      then have "last (inp_edit s) = 10" using edit_back(4) [OF Suc.prems(2)] False by simp
      then show ?thesis using 2 by (cases "inp_edit s" rule: rev_cases) simp_all
    qed simp
    then show ?thesis using False Suc.prems by auto
  qed
qed

text \<open>The state in which \<open>consoleintr\<close> handles a character: the console lock held, interrupts off.\<close>

definition con_locked :: "'x console_state_scheme \<Rightarrow> bool" where
  "con_locked s \<longleftrightarrow> lk_ok s \<and> held s = {ConsLock}"

lemma con_locked_frame [simp]:
  "con_locked (s\<lparr>inp_e := e\<rparr>) = con_locked s" "con_locked (s\<lparr>inp_w := w\<rparr>) = con_locked s" "con_locked (s\<lparr>inp_buf := b\<rparr>) = con_locked s"
  by (simp_all add: con_locked_def lk_ok_def held_def mycpu_index_def)

lemma con_frame [simp]:
  fixes s :: "'x console_state_scheme"
  shows "inp_buf (acquired k s) = inp_buf s" "inp_r (acquired k s) = inp_r s" "inp_w (acquired k s) = inp_w s"
    "inp_e (acquired k s) = inp_e s" "panicked (acquired k s) = panicked s" "crt_pos (acquired k s) = crt_pos s"
    "inp_buf (released k s) = inp_buf s" "inp_r (released k s) = inp_r s" "inp_w (released k s) = inp_w s"
    "inp_e (released k s) = inp_e s" "panicked (released k s) = panicked s" "crt_pos (released k s) = crt_pos s"
  by (simp_all add: acquired_def released_def Let_def)

lemma con_wakeup:
  assumes "con_locked s" "con_ready s" "input_ok s"
  shows "\<exists>t. wakeup ch s = Ok () t \<and> con_locked t \<and> con_ready t \<and> input_ok t \<and> inp_lines t = inp_lines s \<and> inp_edit t = inp_edit s"
proof -
  have h: "lk_ok s" "PtableLock \<notin> held s" "held s = {ConsLock}" using assms(1) by (simp_all add: con_locked_def)
  have l: "lk_ok (acquired PtableLock s)" "held (acquired PtableLock s) = {PtableLock, ConsLock}" using h by auto
  show ?thesis
    using wakeup_run [OF h(1,2), of ch] assms(2,3) h l
    by (simp add: con_locked_def con_ready_def input_ok_def inp_lines_def inp_edit_def inp_all_def)
qed

lemma console_char_run:
  assumes "con_locked s" "con_ready s" "input_ok s" "0 \<le> c" "c < 256"
  shows "\<exists>t. console_char c s = Ok (c = 16) t \<and> con_locked t \<and> con_ready t \<and> input_ok t
    \<and> (inp_lines t, inp_edit t) = edit_char c (inp_lines s, inp_edit s)"
proof -
  have len: "length (inp_lines s) + length (inp_edit s) = unat (inp_e s - inp_r s)"
    using inp_split [OF assms(3)] assms(3) by (simp add: input_ok_def)
  consider "c = 16" | "c = 21" | "c = 8 \<or> c = 127" | "c \<noteq> 16" "c \<noteq> 21" "\<not> (c = 8 \<or> c = 127)" by blast
  then show ?thesis
  proof cases
    case 1
    then show ?thesis using assms by (simp add: console_char_def edit_char_def)
  next
    case 2
    have "unat (inp_e s - inp_w s) = length (inp_edit s)"
    proof -
      have "inp_w s - inp_r s \<le> inp_e s - inp_r s" using assms(3) by (simp add: input_ok_def word_le_nat_alt)
      then have "unat ((inp_e s - inp_r s) - (inp_w s - inp_r s)) = unat (inp_e s - inp_r s) - unat (inp_w s - inp_r s)"
        by (rule unat_sub)
      then show ?thesis using inp_split(3) [OF assms(3)] by simp
    qed
    then show ?thesis
      using 2 assms kill_line_run [OF assms(2,3) order_refl] by (auto simp: console_char_def edit_char_def kthen_def con_locked_def)
  next
    case 3
    show ?thesis
    proof (cases "inp_e s = inp_w s")
      case True
      then have "inp_edit s = []" using edit_empty [OF assms(3)] by simp
      then show ?thesis using 3 True assms by (auto simp: console_char_def edit_char_def kthen_def)
    next
      case False
      let ?u = "s\<lparr>inp_e := inp_e s - 1\<rparr>"
      note b = edit_back [OF assms(3) False]
      obtain v where v: "consputc BACKSPACE ?u = Ok () v" "con_ready v" "shown ?u v"
        using consputc_run [of ?u] assms(2) by (auto simp: con_ready_def)
      have "con_locked v" using assms(1) shown_fields(6,7) [OF v(3)] con_locked_frame(1) [where s = s and e = "inp_e s - 1"] by (simp add: con_locked_def)
      moreover have "console_char c s = Ok (c = 16) v" using 3 False v(1) by (auto simp: console_char_def kthen_def)
      moreover have "edit_char c (inp_lines s, inp_edit s) = (inp_lines s, butlast (inp_edit s))" using 3 by (auto simp: edit_char_def)
      ultimately show ?thesis using v(2) b(1-3) input_shown(2-4) [OF v(3)] by (intro exI [of _ v]) simp
    qed
  next
    case 4
    show ?thesis
    proof (cases "c \<noteq> 0 \<and> unat (inp_e s - inp_r s) < 128")
      case False
      then have "console_char c s = Ok False s" using 4 by (cases "c = 0") (simp_all add: console_char_def kthen_def)
      moreover have "c = 0 \<or> length (inp_lines s) + length (inp_edit s) \<ge> 128" using False len by linarith
      then have "edit_char c (inp_lines s, inp_edit s) = (inp_lines s, inp_edit s)" using 4 by (simp add: edit_char_def)
      ultimately show ?thesis using 4(1) assms(1-3) by simp
    next
      case True
      let ?c = "if c = 13 then 10 else c"
      let ?u = "s\<lparr>inp_buf := (inp_buf s)[unat (inp_e s) mod 128 := word_of_int ?c], inp_e := inp_e s + 1\<rparr>"
      note b = edit_push [OF assms(3) conjunct2 [OF True], of "word_of_int ?c"]
      obtain v where v: "consputc (nat ?c) ?u = Ok () v" "con_ready v" "shown ?u v"
        using consputc_run [of ?u] assms(2) by (auto simp: con_ready_def)
      note iv = input_shown [OF v(3)] and fv = shown_fields [OF v(3)]
      have "con_locked ?u" using assms(1) by simp
      then have lv: "con_locked v" using fv(6,7) by (simp add: con_locked_def)
      have full: "inp_e v = inp_r v + 128 \<longleftrightarrow> length (inp_lines s) + length (inp_edit s @ [word_of_int ?c :: uchar]) = 128"
      proof -
        have "inp_e v = inp_r v + 128 \<longleftrightarrow> inp_e v - inp_r v = 128" by (auto simp: algebra_simps)
        also have "\<dots> \<longleftrightarrow> unat (inp_e v - inp_r v) = 128" by (simp add: word_unat_eq_iff)
        finally show ?thesis using b(4) fv len by simp
      qed
      let ?line = "?c = 10 \<or> ?c = 4 \<or> inp_e v = inp_r v + 128"
      show ?thesis
      proof (cases ?line)
        case False
        then have "console_put ?c s = Ok () v" using v(1) by (simp add: console_put_def)
        then have "console_char c s = Ok False v" using 4 True by (simp add: console_char_def kthen_def)
        moreover have "edit_char c (inp_lines s, inp_edit s) = (inp_lines s, inp_edit s @ [word_of_int ?c])"
          using 4 True False full len by (simp add: edit_char_def Let_def)
        ultimately show ?thesis using 4(1) v(2) lv iv(2-4) b(1-3) by (intro exI [of _ v]) simp
      next
        case line: True
        let ?w = "v\<lparr>inp_w := inp_e v\<rparr>"
        have iov: "input_ok v" using iv(4) b(1) by simp
        note cm = edit_commit [OF iov]
        have "con_locked ?w" "con_ready ?w" using lv v(2) by (simp_all add: con_ready_def)
        then obtain t where t: "wakeup (Some Ch_input) ?w = Ok () t" "con_locked t" "con_ready t" "input_ok t"
            "inp_lines t = inp_lines ?w" "inp_edit t = inp_edit ?w"
          using con_wakeup [OF _ _ cm(1)] by blast
        have "console_put ?c s = Ok () t" using v(1) line t(1) by (simp add: console_put_def)
        then have "console_char c s = Ok False t" using 4 True by (simp add: console_char_def kthen_def)
        moreover have "edit_char c (inp_lines s, inp_edit s) = (inp_lines s @ inp_edit s @ [word_of_int ?c], [])"
          using 4 True line full len by (simp add: edit_char_def Let_def)
        ultimately show ?thesis using 4(1) t(2-6) cm(2,3) iv(2-4) b(1-3) by (intro exI [of _ t]) simp
      qed
    qed
  qed
qed

lemma console_chars_run:
  assumes "con_locked s" "con_ready s" "input_ok s" "\<forall>c\<in>set cs. 0 \<le> c \<and> c < 256"
  shows "\<exists>t. console_chars cs dump s = Ok (dump \<or> 16 \<in> set cs) t \<and> con_locked t \<and> con_ready t \<and> input_ok t
    \<and> (inp_lines t, inp_edit t) = fold edit_char cs (inp_lines s, inp_edit s)"
  using assms
proof (induction cs arbitrary: s dump)
  case Nil
  then show ?case by simp
next
  case (Cons c cs)
  then obtain u where u: "console_char c s = Ok (c = 16) u" "con_locked u" "con_ready u" "input_ok u"
      "(inp_lines u, inp_edit u) = edit_char c (inp_lines s, inp_edit s)"
    using console_char_run [of s c] by auto
  obtain t where t: "console_chars cs (dump \<or> c = 16) u = Ok ((dump \<or> c = 16) \<or> 16 \<in> set cs) t" "con_locked t" "con_ready t" "input_ok t"
      "(inp_lines t, inp_edit t) = fold edit_char cs (inp_lines u, inp_edit u)"
    using Cons.IH [OF u(2-4), of "dump \<or> c = 16"] Cons.prems(4) by auto
  have "console_chars (c # cs) dump s = Ok (dump \<or> 16 \<in> set (c # cs)) t" using u(1) t(1) Cons.prems(4) by (simp add: disj_assoc)
  then show ?case using t(2-5) u(5) by simp
qed

text \<open>C18: the line discipline. On a sequence of input characters without Control-P, \<open>consoleintr\<close> acts on the
  ring buffer, whose indices run free and wrap around, as the editing functions act on two lists: characters are
  appended to the line being edited, Control-H and delete take the last one back, Control-U takes back the line,
  and a newline, Control-D or a full buffer hands the line over to the readers. Nothing is ever lost or duplicated,
  the buffer never overflows, and the console lock is released.\<close>

theorem consoleintr_line_discipline:
  fixes s :: "'x console_state_scheme"
  assumes "lk_ok s" "held s = {}" "\<not> panicked s" "crt_pos s < 24 * 80" "input_ok s"
    and "\<forall>c\<in>set cs. 0 \<le> c \<and> c < 256 \<and> c \<noteq> 16"
  shows "\<exists>t. consoleintr cs s = Ok () t \<and> lk_ok t \<and> held t = {} \<and> input_ok t
    \<and> (inp_lines t, inp_edit t) = fold edit_char cs (inp_lines s, inp_edit s)"
proof -
  let ?u = "acquired ConsLock s"
  have u: "con_locked ?u" "con_ready ?u" "input_ok ?u" "inp_lines ?u = inp_lines s" "inp_edit ?u = inp_edit s"
    using assms by (auto simp: con_locked_def con_ready_def input_ok_def inp_lines_def inp_edit_def inp_all_def)
  then obtain t where t: "console_chars cs False ?u = Ok (16 \<in> set cs) t" "con_locked t" "input_ok t"
      "(inp_lines t, inp_edit t) = fold edit_char cs (inp_lines s, inp_edit s)"
    using console_chars_run [of ?u cs False] assms(6) by auto
  have n: "16 \<notin> set cs" using assms(6) by auto
  have "consoleintr cs s = Ok () (released ConsLock t)"
    using t(1,2) n assms(1,2) by (simp add: consoleintr_def kthen_def con_locked_def)
  then show ?thesis
    using t(2-4) by (simp add: con_locked_def input_ok_def inp_lines_def inp_edit_def inp_all_def)
qed

section \<open>Reading the console\<close>

text \<open>What a read of at most \<open>n\<close> bytes takes from the finished lines: up to a newline or Control-D; a Control-D that
  comes first is consumed, a later one is left. \<open>None\<close>: the reader has to wait.\<close>

primrec take_line :: "nat \<Rightarrow> bool \<Rightarrow> uchar list \<Rightarrow> (uchar list \<times> uchar list) option" where
  "take_line 0 first ls = Some ([], ls)"
| "take_line (Suc n) first ls = (case ls of [] \<Rightarrow> None
     | c # cs \<Rightarrow> if c = 4 then Some ([], if first then cs else ls)
                else if c = 10 then Some ([10], cs)
                else map_option (\<lambda>(bs, r). (c # bs, r)) (take_line n False cs))"

lemma inp_empty: "inp_lines s = [] \<longleftrightarrow> inp_r s = inp_w s"
proof
  assume "inp_lines s = []"
  then have "length (inp_lines s) = 0" by simp
  then have "inp_w s - inp_r s = 0" by (simp add: inp_lines_def unat_eq_zero)
  then show "inp_r s = inp_w s" by simp
qed (simp add: inp_lines_def)

lemma inp_pop:
  fixes s :: "'x console_state_scheme"
  assumes "input_ok s" "inp_r s \<noteq> inp_w s"
  defines "t \<equiv> s\<lparr>inp_r := inp_r s + 1\<rparr>"
  shows "inp_lines s = inp_buf s ! (unat (inp_r s) mod 128) # inp_lines t" "inp_edit t = inp_edit s" "input_ok t"
proof -
  let ?n = "unat (inp_e s - inp_r s)" and ?m = "unat (inp_w s - inp_r s)"
  note w = distance_dec [OF assms(2) [symmetric]]
  have l: "?m \<le> ?n" using assms(1) by (simp add: input_ok_def)
  then have "inp_e s \<noteq> inp_r s" using w(3) by auto
  note e = distance_dec [OF this]
  show "inp_lines s = inp_buf s ! (unat (inp_r s) mod 128) # inp_lines t"
    using con.ring_pop [OF w(3)] w(2) by (simp add: inp_lines_def t_def)
  have "inp_all s = inp_buf s ! (unat (inp_r s) mod 128) # inp_all t"
    using con.ring_pop [OF e(3)] e(2) by (simp add: inp_all_def t_def)
  moreover obtain m where "?m = Suc m" using w(3) by (cases ?m) auto
  ultimately show "inp_edit t = inp_edit s" using w(2) by (simp add: inp_edit_def t_def)
  show "input_ok t" using assms(1) w(2,3) e(2,3) l by (simp add: input_ok_def t_def) linarith
qed

text \<open>A reader that holds only the console lock, with its inode unlocked.\<close>

definition reading :: "nat \<Rightarrow> int \<Rightarrow> nat \<Rightarrow> 'x console_state_scheme \<Rightarrow> bool" where
  "reading p pid i s \<longleftrightarrow> con_locked s \<and> curproc s = Some p \<and> p < length (procs s) \<and> p_pid (procs s ! p) = pid
     \<and> \<not> sl_locked (slocks s (SL_inode i)) \<and> i_valid (inodes s ! i) \<and> i_ref (inodes s ! i) \<ge> 1"

definition inode_held :: "nat \<Rightarrow> int \<Rightarrow> nat \<Rightarrow> 'x fs_state_scheme \<Rightarrow> bool" where
  "inode_held p pid i s \<longleftrightarrow> env p pid s \<and> sl_locked (slocks s (SL_inode i)) \<and> sl_pid (slocks s (SL_inode i)) = pid
     \<and> i_valid (inodes s ! i) \<and> i_ref (inodes s ! i) \<ge> 1"

lemma more_con:
  assumes "sl_state.more t = sl_state.more (s :: 'x console_state_scheme)"
  shows "inodes t = inodes s" "inp_buf t = inp_buf s" "inp_r t = inp_r s" "inp_w t = inp_w s" "inp_e t = inp_e s"
    "console_state.more t = console_state.more s" "panicked t = panicked s" "crt_pos t = crt_pos s"
  using assms by (cases s; cases t; simp)+

lemma more_input:
  assumes "sl_state.more t = sl_state.more (s :: 'x console_state_scheme)"
  shows "inp_lines t = inp_lines s" "inp_edit t = inp_edit s" "input_ok t = input_ok s"
  using more_con [OF assms] by (simp_all add: inp_lines_def inp_edit_def inp_all_def input_ok_def)

lemma consoleread_end_run:
  fixes s :: "'x console_state_scheme"
  assumes "reading p pid i s"
  shows "\<exists>t. consoleread_end (Some i) r bs s = Ok (r, bs) t \<and> inode_held p pid i t \<and> sl_state.more t = sl_state.more s"
proof -
  let ?u = "released ConsLock s"
  have h: "lk_ok s" "held s = {ConsLock}" "curproc s = Some p" using assms by (simp_all add: reading_def con_locked_def)
  have u: "env p pid ?u" using assms h by (simp add: reading_def env_def)
  have m: "sl_state.more ?u = sl_state.more s" "slocks ?u = slocks s" by simp_all
  obtain t where t: "acquiresleep (SL_inode i) ?u = Ok () t" "env p pid t" "slocks t = taken (SL_inode i) pid (slocks ?u)"
      "sl_state.more t = sl_state.more ?u"
    using acquiresleep_env [OF u, of "SL_inode i"] assms by (auto simp: reading_def)
  have it: "inodes t = inodes s" "inodes ?u = inodes s" using more_con(1) [OF t(4)] more_con(1) [OF m(1)] by simp_all
  have "ilock_read i t = Ok () t" using it assms by (simp add: ilock_read_def ino_get_def reading_def)
  then have "consoleread_end (Some i) r bs s = Ok (r, bs) t"
    using t(1) it assms h by (simp add: consoleread_end_def kthen_def ilock_def need_def ino_get_def reading_def)
  then show ?thesis using t(2-4) it m assms by (simp add: inode_held_def taken_def reading_def)
qed

lemma reading_r [simp]: "reading p pid i (s\<lparr>inp_r := x\<rparr>) = reading p pid i s"
  by (simp add: reading_def con_locked_def lk_ok_def held_def curproc_def mycpu_index_def)

lemma inp_r_same: "s\<lparr>inp_r := inp_r s\<rparr> = (s :: 'x console_state_scheme)"
  by (cases s) simp

lemma consoleread_loop_run:
  fixes s :: "'x console_state_scheme"
  assumes "reading p pid i s" "input_ok s" "take_line n (n = target) (inp_lines s) = Some (bs, rest)" "n \<le> target"
  shows "\<exists>t. consoleread_loop n (Some i) target acc s = Ok (int (target - n + length bs), acc @ bs) t
    \<and> inode_held p pid i t \<and> input_ok t \<and> inp_lines t = rest \<and> inp_edit t = inp_edit s"
  using assms
proof (induction n arbitrary: s acc bs rest)
  case 0
  obtain t where "consoleread_end (Some i) (int target) acc s = Ok (int target, acc) t" "inode_held p pid i t"
      "sl_state.more t = sl_state.more s"
    using consoleread_end_run [OF 0(1)] by blast
  then show ?case using 0 more_input [of t s] by simp
next
  case (Suc n)
  obtain c ls where cl: "inp_lines s = c # ls" using Suc.prems(3) by (auto split: list.splits)
  then have ne: "inp_r s \<noteq> inp_w s" using inp_empty [of s] by auto
  let ?u = "s\<lparr>inp_r := inp_r s + 1\<rparr>"
  note pop = inp_pop [OF Suc.prems(2) ne]
  have c: "inp_buf s ! (unat (inp_r s) mod 128) = c" "inp_lines ?u = ls" using pop(1) cl by auto
  have ru: "reading p pid i ?u" using Suc.prems(1) by simp
  consider "c = 4" | "c = 10" | "c \<noteq> 4" "c \<noteq> 10" by blast
  then show ?case
  proof cases
    case 1
    let ?v = "if Suc n < target then s else ?u"
    have tl: "bs = []" "rest = (if Suc n = target then ls else c # ls)" using Suc.prems(3) cl 1 by (auto split: if_splits)
    have v: "reading p pid i ?v" "input_ok ?v" "inp_lines ?v = rest" "inp_edit ?v = inp_edit s"
      using Suc.prems(1,2,4) ru pop(2,3) c(2) cl tl(2) by simp_all
    obtain t where t: "consoleread_end (Some i) (int (target - Suc n)) acc ?v = Ok (int (target - Suc n), acc) t"
        "inode_held p pid i t" "sl_state.more t = sl_state.more ?v"
      using consoleread_end_run [OF v(1)] by blast
    have "consoleread_loop (Suc n) (Some i) target acc s = consoleread_end (Some i) (int (target - Suc n)) acc ?v"
      using 1 ne c(1) by (cases "Suc n < target") (simp_all add: kthen_def inp_r_same)
    then show ?thesis using t(1,2) v tl(1) more_input [OF t(3)] by (intro exI [of _ t]) simp
  next
    case 2
    have v: "rest = ls" "bs = [10]" using 2 Suc.prems(3) cl by auto
    obtain t where t: "consoleread_end (Some i) (int (target - n)) (acc @ [10]) ?u = Ok (int (target - n), acc @ [10]) t"
        "inode_held p pid i t" "sl_state.more t = sl_state.more ?u"
      using consoleread_end_run [OF ru] by blast
    have "consoleread_loop (Suc n) (Some i) target acc s = consoleread_end (Some i) (int (target - n)) (acc @ [10]) ?u"
      using 2 ne c by (simp add: kthen_def)
    moreover have "target - n = target - Suc n + 1" using Suc.prems(4) by simp
    ultimately show ?thesis using t(1,2) v c(2) pop(2,3) more_input [OF t(3)] by (intro exI [of _ t]) simp
  next
    case 3
    then obtain bs' where b: "take_line n False ls = Some (bs', rest)" "bs = c # bs'" using Suc.prems(3) cl by auto
    have "n \<noteq> target" using Suc.prems(4) by simp
    then obtain t where t: "consoleread_loop n (Some i) target (acc @ [c]) ?u = Ok (int (target - n + length bs'), (acc @ [c]) @ bs') t"
        "inode_held p pid i t" "input_ok t" "inp_lines t = rest" "inp_edit t = inp_edit ?u"
      using Suc.IH [OF ru pop(3), of bs' rest "acc @ [c]"] b(1) c(2) Suc.prems(4) by auto
    have "consoleread_loop (Suc n) (Some i) target acc s = consoleread_loop n (Some i) target (acc @ [c]) ?u"
      using 3 ne c by (simp add: kthen_def)
    moreover have "target - n + length bs' = target - Suc n + length bs" using b(2) Suc.prems(4) by simp
    ultimately show ?thesis using t b(2) pop(2) by (intro exI [of _ t]) simp
  qed
qed

text \<open>C19: reading the console takes from the finished lines, in order, what \<open>take_line\<close> says, and returns with the
  inode locked again; the line being edited is untouched.\<close>

theorem consoleread_takes_line:
  fixes s :: "'x console_state_scheme"
  assumes "inode_held p pid i s" "input_ok s" "take_line (nat n) True (inp_lines s) = Some (bs, rest)"
  shows "\<exists>t. consoleread (Some i) n s = Ok (int (length bs), bs) t \<and> inode_held p pid i t \<and> input_ok t
    \<and> inp_lines t = rest \<and> inp_edit t = inp_edit s"
proof -
  have e: "env p pid s" "i_ref (inodes s ! i) \<ge> 1" "i_valid (inodes s ! i)" using assms(1) by (simp_all add: inode_held_def)
  obtain u where u: "holdingsleep (SL_inode i) s = Ok True u" "env p pid u" "slocks u = slocks s" "sl_state.more u = sl_state.more s"
    using holdingsleep_env [OF e(1), of "SL_inode i"] assms(1) by (auto simp: inode_held_def)
  obtain v where v: "releasesleep (SL_inode i) u = Ok () v" "env p pid v" "slocks v = given_up (SL_inode i) (slocks s)"
      "sl_state.more v = sl_state.more s"
    using releasesleep_env [OF u(2), of "SL_inode i"] u(3,4) by auto
  have iu: "inodes u = inodes s" "inodes v = inodes s" using more_con(1) [OF u(4)] more_con(1) [OF v(4)] by simp_all
  have h: "lk_ok v" "held v = {}" using v(2) by (simp_all add: env_def)
  let ?w = "acquired ConsLock v"
  have m: "sl_state.more ?w = sl_state.more s" using v(4) by simp
  note w = more_input [OF m] more_con(1) [OF m]
  have "reading p pid i ?w"
    using v(2,3) h w(4) e by (simp add: reading_def con_locked_def env_def given_up_def)
  moreover have "consoleread (Some i) n s = consoleread_loop (nat n) (Some i) (nat n) [] ?w"
    using u(1) v(1) iu e h by (simp add: consoleread_def kthen_def iunlock_def need_def ino_get_def)
  ultimately show ?thesis
    using consoleread_loop_run [of p pid i ?w "nat n" "nat n" bs rest "[]"] assms(2,3) w by simp
qed

section \<open>Printed numbers\<close>

definition digit_value :: "uchar \<Rightarrow> nat" where
  "digit_value c = (if unat c < 58 then unat c - 48 else unat c - 87)"

definition number_value :: "nat \<Rightarrow> uchar list \<Rightarrow> nat" where
  "number_value b cs = fold (\<lambda>c v. b * v + digit_value c) cs 0"

definition signed_value :: "nat \<Rightarrow> uchar list \<Rightarrow> int" where
  "signed_value b cs = (case cs of [] \<Rightarrow> 0 | c # ds \<Rightarrow> if c = 45 then - int (number_value b ds) else int (number_value b cs))"

lemma unat_digit: "d < 16 \<Longrightarrow> unat (digit d) = (if d < 10 then 48 + d else 87 + d)"
  by (simp add: digit_def unat_of_nat del: of_nat_add)

lemma digit_value_digit: "d < 16 \<Longrightarrow> digit_value (digit d) = d"
  by (simp add: digit_value_def unat_digit)

lemma digit_not_minus: "d < 16 \<Longrightarrow> digit d \<noteq> 45"
  using unat_digit [of d] by (auto split: if_splits)

lemma digits_value: "2 \<le> b \<Longrightarrow> b \<le> 16 \<Longrightarrow> number_value b (rev (digits b x)) = x"
proof (induction b x rule: digits.induct)
  case (1 b x)
  have m: "x mod b < b" using 1 by simp
  show ?case
  proof (cases "x div b = 0")
    case True
    then have "x mod b = x" by (metis add.left_neutral div_mult_mod_eq mult_0)
    then show ?thesis
      using True 1(2,3) m digit_value_digit [of x] by (subst digits.simps) (simp add: number_value_def)
  next
    case False
    then have "number_value b (rev (digits b x)) = b * number_value b (rev (digits b (x div b))) + digit_value (digit (x mod b))"
      using 1(2) by (subst digits.simps) (simp add: number_value_def)
    then show ?thesis using 1 False m digit_value_digit [of "x mod b"] by simp
  qed
qed

lemma digits_no_minus: "2 \<le> b \<Longrightarrow> b \<le> 16 \<Longrightarrow> c \<in> set (digits b x) \<Longrightarrow> c \<noteq> 45"
proof (induction b x rule: digits.induct)
  case (1 b x)
  have "x mod b < 16" using 1 by (metis less_le_trans mod_less_divisor not_gr_zero not_numeral_le_zero)
  note d = digit_not_minus [OF this]
  from 1(4) have "c = digit (x mod b) \<or> (\<not> (b < 2 \<or> x div b = 0) \<and> c \<in> set (digits b (x div b)))"
    by (subst (asm) digits.simps) (auto split: if_splits)
  then show ?case using d 1(1) 1(2,3) by auto
qed

lemma digits_length: "2 \<le> b \<Longrightarrow> x < b ^ Suc k \<Longrightarrow> length (digits b x) \<le> Suc k"
proof (induction k arbitrary: x)
  case 0
  then have "x div b = 0" by simp
  then show ?case by (subst digits.simps) simp
next
  case (Suc k)
  have "x div b < b ^ Suc k" using Suc.prems by (simp add: less_mult_imp_div_less mult.commute)
  then have "length (digits b (x div b)) \<le> Suc k" using Suc by blast
  then show ?case by (subst digits.simps) simp
qed

lemma cint_range: "- 2147483648 \<le> cint w" "cint w < 2147483648"
  using sint_greater_eq [of w] sint_less [of w] by (simp_all add: cint_def)

lemma word_of_cint: "word_of_int (cint w) = (w :: uint)"
  by (simp add: cint_def)

lemma unat_word_of_int: "0 \<le> i \<Longrightarrow> i < 4294967296 \<Longrightarrow> int (unat (word_of_int i :: uint)) = i"
  by (simp add: unsigned_of_int take_bit_eq_mod)

lemma unat_cint: "int (unat w) = (if cint w < 0 then cint w + 4294967296 else cint w)"
proof (cases "cint w < 0")
  case True
  have "w = word_of_int (cint w + 4294967296)" using word_of_cint [of w] by simp
  then show ?thesis using unat_word_of_int [of "cint w + 4294967296"] cint_range [of w] True by simp
next
  case False
  then show ?thesis using unat_word_of_int [of "cint w"] word_of_cint [of w] cint_range [of w] by simp
qed

lemma unat_neg_cint: "cint w < 0 \<Longrightarrow> int (unat (- w)) = - cint w"
  using unat_word_of_int [of "- cint w"] word_of_cint [of w] cint_range [of w] by simp

text \<open>C37: what \<open>printint\<close> prints reads back as the number, with its sign when it is signed, for every 32-bit value
  including the least one; and it fits the 16 bytes of \<open>buf\<close>.\<close>

theorem printint_roundtrip:
  assumes "b \<in> {10, 16}"
  shows "signed_value b (printint_buf xx b sign) = (if sign then cint xx else int (unat xx))
    \<and> length (printint_buf xx b sign) \<le> 16"
proof -
  have b: "2 \<le> b" "b \<le> 16" "10 \<le> b" using assms by auto
  have len: "length (digits b (unat x)) \<le> 10" for x :: uint
  proof -
    have "(10 :: nat) ^ 10 \<le> b ^ 10" using b(3) by (rule power_mono) simp
    then have "unat x < b ^ Suc 9" using unat32_lt [of x] by simp
    then show ?thesis using digits_length [OF b(1), of "unat x" 9] by simp
  qed
  have pos: "signed_value b (rev (digits b x)) = int x" for x
  proof -
    obtain c cs where c: "rev (digits b x) = c # cs" by (metis digits.simps list.exhaust list.simps(3) rev_is_Nil_conv)
    then have "c \<in> set (digits b x)" by (metis list.set_intros(1) set_rev)
    then have "c \<noteq> 45" using digits_no_minus [OF b(1,2)] by blast
    then show ?thesis using digits_value [OF b(1,2), of x] c by (simp add: signed_value_def)
  qed
  show ?thesis
  proof (cases "sign \<and> cint xx < 0")
    case True
    then show ?thesis
      using digits_value [OF b(1,2), of "unat (- xx)"] len [of "- xx"] unat_neg_cint [of xx]
      by (simp add: printint_buf_def signed_value_def Let_def)
  next
    case False
    then show ?thesis using pos [of "unat xx"] len [of xx] unat_cint [of xx] by (auto simp: printint_buf_def Let_def)
  qed
qed

theorem printint_roundtrip_witness: "signed_value 10 (printint_buf (- 120) 10 True) = - 120"
proof -
  have "cint (- 120) = - 120" by (simp add: cint_def)
  then show ?thesis using printint_roundtrip [of 10 "- 120" True] by simp
qed

section \<open>A concrete console\<close>

definition con_demo :: "inode list \<Rightarrow> console_state" where
  "con_demo ips = fs_state.extend ((fs_demo ips)\<lparr>slocks := taken (SL_inode 0) 3 (slocks (fs_demo ips))\<rparr>)
     \<lparr>con_locking = True, panicked = False, uart_on = True, serial = [], crt = (\<lambda>_. 0), crt_pos = 0,
      inp_buf = replicate 128 0, inp_r = 0xFFFFFFFF, inp_w = 0xFFFFFFFF, inp_e = 0xFFFFFFFF, devsw = (\<lambda>_. None)\<rparr>"

lemma fs_demo_env: "env 0 3 (fs_demo ips)"
  using fs_demo_ok(1) [of ips] cacheD(1) by (auto simp: fs_ok_def)

lemma con_demo_env: "env 0 3 (con_demo ips)"
proof -
  let ?s = "(fs_demo ips)\<lparr>slocks := taken (SL_inode 0) 3 (slocks (fs_demo ips))\<rparr>"
  have "env 0 3 ?s" using fs_demo_env by simp
  then show ?thesis
    by (rule env_cong [THEN iffD2, rotated -1]) (simp_all add: con_demo_def fs_state.defs)
qed

lemma con_demo_input: "input_ok (con_demo ips)" "inp_lines (con_demo ips) = []" "inp_edit (con_demo ips) = []"
  "\<not> panicked (con_demo ips)" "crt_pos (con_demo ips) = 0"
  by (simp_all add: con_demo_def fs_state.defs input_ok_def inp_lines_def inp_edit_def inp_all_def)


text \<open>Typing \<open>ab\<close>, Control-H, \<open>c\<close> and a carriage return, on indices about to wrap around.\<close>

theorem consoleintr_line_discipline_witness:
  "\<exists>t. consoleintr [97, 98, 8, 99, 13] (con_demo []) = Ok () t \<and> inp_lines t = [97, 99, 10] \<and> inp_edit t = []"
proof -
  have h: "lk_ok (con_demo [])" "held (con_demo []) = {}" using con_demo_env [of "[]"] by (simp_all add: env_def)
  have "fold edit_char [97, 98, 8, 99, 13] ([], []) = ([97, 99, 10], [])" by (simp add: edit_char_def)
  then show ?thesis
    using consoleintr_line_discipline [OF h, of "[97, 98, 8, 99, 13]"] con_demo_input [of "[]"] by auto
qed

text \<open>A reader with that line in the buffer.\<close>

theorem consoleread_takes_line_witness:
  "\<exists>(s :: console_state) t. inp_lines s = [97, 10] \<and> consoleread (Some 0) 100 s = Ok (2, [97, 10]) t \<and> inp_lines t = []"
proof -
  let ?i = "\<lparr>i_dev = 1, i_inum = 5, i_ref = 1, i_valid = True, i_type = T_DEV, i_major = 1, i_minor = 0, i_nlink = 1, i_size = 0,
    i_addrs = replicate 13 0\<rparr>"
  let ?s = "(con_demo [?i])\<lparr>inp_buf := (replicate 128 0)[127 := 97, 0 := 10], inp_w := 1, inp_e := 1\<rparr>"
  have l: "inp_lines ?s = [97, 10]"
    by (simp add: con_demo_def fs_state.defs inp_lines_def ring_def upt_rec)
  have o: "input_ok ?s" by (simp add: con_demo_def fs_state.defs input_ok_def)
  have "env 0 3 ?s" using con_demo_env [of "[?i]"] by (rule env_cong [THEN iffD2, rotated -1]) simp_all
  then have h: "inode_held 0 3 0 ?s"
    by (simp add: inode_held_def) (simp add: con_demo_def fs_state.defs taken_def)
  have n: "nat 100 = Suc (Suc 98)" by simp
  have t: "take_line (nat 100) True (inp_lines ?s) = Some ([97, 10], [])" unfolding l n take_line.simps by simp
  obtain t where "consoleread (Some 0) 100 ?s = Ok (int (length [97, 10 :: uchar]), [97, 10]) t" "inp_lines t = []"
    using consoleread_takes_line [OF h o t] by blast
  then show ?thesis using l by (intro exI [of _ ?s] exI [of _ t]) simp
qed

end
