(* ===== verification/Xv6_Fs.thy ===== *)
theory Xv6_Fs
  imports Xv6_Console
begin

text \<open>
  The rest of fs.c: file contents, directories and path names. The destination of \<open>readi\<close> and the source
  of \<open>writei\<close> are lists of bytes, returned and passed. A path is a string, a pointer into it the rest of
  the string; \<open>name\<close> is the array of \<open>DIRSIZ\<close> bytes the last path element is copied to. The offsets of a
  directory scan are the multiples of 16 below the size.
\<close>

abbreviation (input) DIRSIZ :: nat where "DIRSIZ \<equiv> 14"

section \<open>Contents of a file\<close>

definition chunk :: "uint \<Rightarrow> nat \<Rightarrow> nat" where
  "chunk off n = min n (BSIZE - unat off mod BSIZE)"

lemma chunk_pos: "0 < n \<Longrightarrow> 0 < chunk off n"
  by (simp add: chunk_def)

lemma chunk_le: "chunk off n \<le> n"
  by (simp add: chunk_def)

function readi_loop :: "nat \<Rightarrow> uint \<Rightarrow> nat \<Rightarrow> ('x console_state_scheme, uchar list) K" where
  "readi_loop i off n = (if n = 0 then kret [] else
     let m = chunk off n in
     kbind (ino_get i i_dev) (\<lambda>dev.
     kbind (bmap i (off div 512)) (\<lambda>b.
     kbind (bread dev b) (\<lambda>bp.
     kbind (dat_get bp) (\<lambda>d.
     kthen [brelse bp]
       (kbind (readi_loop i (off + of_nat m) (n - m)) (\<lambda>bs. kret (take m (drop (unat off mod BSIZE) d) @ bs))))))))"
  by auto
termination
  by (relation "measure (\<lambda>(i, off, n). n)") (auto simp: chunk_pos)

declare readi_loop.simps [simp del]

text \<open>\<open>devsw[ip->major]\<close>, when the device number is in range and has a driver.\<close>

definition driver_of :: "inode \<Rightarrow> 'x console_state_scheme \<Rightarrow> driver option" where
  "driver_of ip s = (if sint (i_major ip) < 0 \<or> sint (i_major ip) \<ge> int NDEV then None else devsw s (unat (i_major ip)))"

definition readi :: "nat \<Rightarrow> uint \<Rightarrow> uint \<Rightarrow> ('x console_state_scheme, int \<times> uchar list) K" where
  "readi i off n = kbind (ino_get i id) (\<lambda>ip.
     if i_type ip = T_DEV then
       kbind (kgets (driver_of ip)) (\<lambda>d. case d of None \<Rightarrow> kret (- 1, []) | Some ConsoleDriver \<Rightarrow> consoleread (Some i) (cint n))
     else if off > i_size ip \<or> off + n < off then kret (- 1, [])
     else let n = (if off + n > i_size ip then i_size ip - off else n) in
       kbind (readi_loop i off (unat n)) (\<lambda>bs. kret (cint n, bs)))"

definition splice :: "nat \<Rightarrow> uchar list \<Rightarrow> uchar list \<Rightarrow> uchar list" where
  "splice k bs d = take k d @ bs @ drop (k + length bs) d"

text \<open>The loop of \<open>writei\<close> returns the final value of \<open>off\<close>.\<close>

function writei_loop :: "nat \<Rightarrow> uint \<Rightarrow> uchar list \<Rightarrow> ('x console_state_scheme, uint) K" where
  "writei_loop i off src = (if src = [] then kret off else
     let m = chunk off (length src) in
     kbind (ino_get i i_dev) (\<lambda>dev.
     kbind (bmap i (off div 512)) (\<lambda>b.
     kbind (bread dev b) (\<lambda>bp.
     kthen [dat_mod bp (splice (unat off mod BSIZE) (take m src)), log_write bp, brelse bp]
       (writei_loop i (off + of_nat m) (drop m src))))))"
  by auto
termination
  by (relation "measure (\<lambda>(i, off, src). length src)") (auto simp: chunk_pos)

declare writei_loop.simps [simp del]

definition writei :: "nat \<Rightarrow> uchar list \<Rightarrow> uint \<Rightarrow> ('x console_state_scheme, int) K" where
  "writei i src off = kbind (ino_get i id) (\<lambda>ip. let n = of_nat (length src) in
     if i_type ip = T_DEV then
       kbind (kgets (driver_of ip)) (\<lambda>d. case d of None \<Rightarrow> kret (- 1) | Some ConsoleDriver \<Rightarrow> consolewrite (Some i) src)
     else if off > i_size ip \<or> off + n < off then kret (- 1)
     else if off + n > of_nat (MAXFILE * BSIZE) then kret (- 1)
     else kbind (writei_loop i off src) (\<lambda>off.
       kthen [kbind (ino_get i i_size) (\<lambda>sz. kwhen (n > 0 \<and> off > sz)
                (kdo [ino_mod i (\<lambda>ip. ip\<lparr>i_size := off\<rparr>), iupdate i]))]
         (kret (cint n))))"

section \<open>Directories\<close>

definition namecmp :: "cstr \<Rightarrow> cstr \<Rightarrow> int" where
  "namecmp p q = strncmp DIRSIZ p q"

definition de_inum :: "uchar list \<Rightarrow> ushort" where
  "de_inum de = get16 de 0"

definition de_name :: "uchar list \<Rightarrow> cstr" where
  "de_name de = drop 2 de"

definition mk_dirent :: "ushort \<Rightarrow> cstr \<Rightarrow> uchar list" where
  "mk_dirent inum name = put16 0 inum (replicate 2 0) @ strncpy DIRSIZ name"

definition dirent_offs :: "uint \<Rightarrow> uint list" where
  "dirent_offs sz = map (\<lambda>k. of_nat (16 * k)) [0..<(unat sz + 15) div 16]"

definition dirlookup :: "nat \<Rightarrow> cstr \<Rightarrow> ('x console_state_scheme, (nat \<times> uint) option) K" where
  "dirlookup dp name = kbind (ino_get dp id) (\<lambda>ip.
     if i_type ip \<noteq> T_DIR then kpanic ''dirlookup not DIR''
     else kfor (\<lambda>off. kbind (readi dp off 16) (\<lambda>(r, de).
       if r \<noteq> 16 then kpanic ''dirlookup read''
       else if de_inum de = 0 then kret None
       else if namecmp name (de_name de) = 0 then
         kbind (ino_get dp i_dev) (\<lambda>dev. kbind (iget dev (ucast (de_inum de))) (\<lambda>ip. kret (Some (ip, off))))
       else kret None)) (dirent_offs (i_size ip)))"

definition dirlink :: "nat \<Rightarrow> cstr \<Rightarrow> uint \<Rightarrow> ('x console_state_scheme, int) K" where
  "dirlink dp name inum = kbind (dirlookup dp name) (\<lambda>x. case x of
     Some (ip, _) \<Rightarrow> kthen [iput (Some ip)] (kret (- 1))
   | None \<Rightarrow>
     kbind (ino_get dp i_size) (\<lambda>sz.
     kbind (kfor (\<lambda>off. kbind (readi dp off 16) (\<lambda>(r, de).
        if r \<noteq> 16 then kpanic ''dirlink read''
        else if de_inum de = 0 then kret (Some off) else kret None)) (dirent_offs sz)) (\<lambda>found.
     let off = (case found of Some off \<Rightarrow> off | None \<Rightarrow> of_nat (16 * ((unat sz + 15) div 16))) in
     kbind (writei dp (mk_dirent (ucast inum) name) off) (\<lambda>r.
     if r \<noteq> 16 then kpanic ''dirlink'' else kret 0))))"

section \<open>Paths\<close>

definition skip_slashes :: "cstr \<Rightarrow> cstr" where
  "skip_slashes p = dropWhile (\<lambda>c. c = 47) p"

definition in_elem :: "uchar \<Rightarrow> bool" where
  "in_elem c \<longleftrightarrow> c \<noteq> 47 \<and> c \<noteq> 0"

definition skipelem :: "cstr \<Rightarrow> cstr \<Rightarrow> (cstr \<times> cstr) option" where
  "skipelem path name = (let path = skip_slashes path in
     if hdc path = 0 then None
     else let s = takeWhile in_elem path; path = dropWhile in_elem path; len = length s;
              name = (if len \<ge> DIRSIZ then take DIRSIZ s @ drop DIRSIZ name else s @ [0] @ drop (len + 1) name)
          in Some (skip_slashes path, name))"

lemma length_skip_slashes: "length (skip_slashes p) \<le> length p"
  by (simp add: skip_slashes_def length_dropWhile_le)

lemma skipelem_shorter: "skipelem path name = Some (path', name') \<Longrightarrow> length path' < length path"
proof -
  assume a: "skipelem path name = Some (path', name')"
  let ?p = "skip_slashes path"
  have h: "hdc ?p \<noteq> 0" "path' = skip_slashes (dropWhile in_elem ?p)" using a by (auto simp: skipelem_def Let_def split: if_splits)
  then obtain c q where q: "?p = c # q" by (cases ?p) auto
  have "c \<noteq> 47" using q hd_dropWhile [of "\<lambda>c. c = 47" path] by (auto simp: skip_slashes_def)
  then have "in_elem c" using h(1) q by (simp add: in_elem_def)
  then have "length (dropWhile in_elem ?p) \<le> length q" using q by (simp add: length_dropWhile_le)
  then show ?thesis
    using h(2) q length_skip_slashes [of "dropWhile in_elem ?p"] length_skip_slashes [of path] by simp
qed

function namex_loop :: "nat \<Rightarrow> cstr \<Rightarrow> bool \<Rightarrow> cstr \<Rightarrow> ('x console_state_scheme, nat option \<times> cstr) K" where
  "namex_loop ip path parent name = (case skipelem path name of
     None \<Rightarrow> if parent then kthen [iput (Some ip)] (kret (None, name)) else kret (Some ip, name)
   | Some (path', name') \<Rightarrow>
     kthen [ilock (Some ip)]
       (kbind (ino_get ip i_type) (\<lambda>type.
        if type \<noteq> T_DIR then kthen [iunlockput (Some ip)] (kret (None, name'))
        else if parent \<and> hdc path' = 0 then kthen [iunlock (Some ip)] (kret (Some ip, name'))
        else kbind (dirlookup ip name') (\<lambda>nx. case nx of
            None \<Rightarrow> kthen [iunlockput (Some ip)] (kret (None, name'))
          | Some (next, _) \<Rightarrow> kthen [iunlockput (Some ip)] (namex_loop next path' parent name')))))"
  by auto
termination
  by (relation "measure (\<lambda>(ip, path, parent, name). length path)") (auto simp: skipelem_shorter)

declare namex_loop.simps [simp del]

definition namex :: "cstr \<Rightarrow> bool \<Rightarrow> cstr \<Rightarrow> ('x console_state_scheme, nat option \<times> cstr) K" where
  "namex path parent name =
     kbind (if hdc path = 47 then iget 1 ROOTINO
            else with_myproc (\<lambda>p. kbind (proc_get p p_cwd) idup)) (\<lambda>ip.
     namex_loop ip path parent name)"

definition namei :: "cstr \<Rightarrow> ('x console_state_scheme, nat option) K" where
  "namei path = kbind (namex path False (replicate DIRSIZ 0)) (\<lambda>(ip, _). kret ip)"

definition nameiparent :: "cstr \<Rightarrow> cstr \<Rightarrow> ('x console_state_scheme, nat option \<times> cstr) K" where
  "nameiparent path name = namex path True name"

section \<open>Path elements\<close>

text \<open>The elements \<open>namex\<close> looks up, in order, and the same by splitting the string at its slashes.\<close>

function path_elems :: "cstr \<Rightarrow> cstr \<Rightarrow> cstr list" where
  "path_elems path name = (case skipelem path name of
     None \<Rightarrow> []
   | Some (path', name') \<Rightarrow> str_of name' # path_elems path' name')"
  by auto
termination
  by (relation "measure (\<lambda>(path, name). length path)") (auto simp: skipelem_shorter)

declare path_elems.simps [simp del]

primrec split_slash :: "cstr \<Rightarrow> cstr list" where
  "split_slash [] = [[]]"
| "split_slash (c # cs) = (if c = 47 then [] # split_slash cs
     else (c # hd (split_slash cs)) # tl (split_slash cs))"

definition elems :: "cstr \<Rightarrow> cstr list" where
  "elems p = filter (\<lambda>e. e \<noteq> []) (split_slash (str_of p))"

lemma elems_end: "hdc p = 0 \<Longrightarrow> elems p = []"
  by (cases p) (auto simp: elems_def str_of_def)

lemma elems_skip_slashes: "elems (skip_slashes p) = elems p"
  by (induction p) (auto simp: elems_def skip_slashes_def str_of_def)

lemma split_slash_elem:
  "split_slash (str_of p) = takeWhile in_elem p # tl (split_slash (str_of p)) \<and>
   filter (\<lambda>e. e \<noteq> []) (tl (split_slash (str_of p))) = elems (dropWhile in_elem p)"
proof (induction p)
  case Nil
  then show ?case by (simp add: str_of_def elems_def)
next
  case (Cons c p)
  then have "hd (split_slash (str_of p)) = takeWhile in_elem p" by (metis list.sel(1))
  moreover have "in_elem c \<longleftrightarrow> c \<noteq> 47 \<and> c \<noteq> 0" by (simp add: in_elem_def)
  ultimately show ?case using Cons by (auto simp: str_of_def elems_def)
qed

lemma elems_elem: "in_elem (hdc p) \<Longrightarrow> elems p = takeWhile in_elem p # elems (dropWhile in_elem p)"
proof -
  assume a: "in_elem (hdc p)"
  then obtain c q where p: "p = c # q" by (cases p) (auto simp: in_elem_def)
  have "elems p = filter (\<lambda>e. e \<noteq> []) (takeWhile in_elem p # tl (split_slash (str_of p)))"
    unfolding elems_def using split_slash_elem [of p] by metis
  also have "\<dots> = takeWhile in_elem p # elems (dropWhile in_elem p)"
    using a p conjunct2 [OF split_slash_elem [of p]] by (simp del: split_slash.simps)
  finally show ?thesis .
qed

lemma skip_slashes_elem: "hdc (skip_slashes p) \<noteq> 0 \<Longrightarrow> in_elem (hdc (skip_slashes p))"
  by (induction p) (auto simp: skip_slashes_def in_elem_def)

lemma str_of_elem:
  assumes "\<forall>c\<in>set e. in_elem c"
  shows "str_of (e @ 0 # r) = e" "str_of (take n e) = take n e"
proof -
  have t: "takeWhile (\<lambda>c. c \<noteq> 0) e = e" using assms by (simp add: in_elem_def)
  then show "str_of (e @ 0 # r) = e" using assms by (simp add: str_of_def takeWhile_append in_elem_def)
  show "str_of (take n e) = take n e"
    using assms by (auto simp: str_of_def in_elem_def dest: in_set_takeD)
qed

lemma skipelem_elems:
  assumes "length name = DIRSIZ"
  shows "case skipelem path name of
      None \<Rightarrow> elems path = []
    | Some (path', name') \<Rightarrow> length name' = DIRSIZ \<and> elems path \<noteq> [] \<and>
        str_of name' = take DIRSIZ (hd (elems path)) \<and> elems path' = tl (elems path)"
proof (cases "hdc (skip_slashes path) = 0")
  case True
  then have "elems path = []" using elems_end [of "skip_slashes path"] by (simp add: elems_skip_slashes)
  then show ?thesis using True by (simp add: skipelem_def Let_def)
next
  case False
  define q where "q = skip_slashes path"
  define e where "e = takeWhile in_elem q"
  have el: "elems path = e # elems (dropWhile in_elem q)"
    using elems_elem [OF skip_slashes_elem [OF False]] by (simp add: elems_skip_slashes q_def e_def)
  have c: "\<forall>c\<in>set e. in_elem c" by (auto simp: e_def dest: set_takeWhileD)
  show ?thesis
    using False el assms str_of_elem [OF c] by (simp add: skipelem_def Let_def q_def [symmetric] e_def [symmetric] elems_skip_slashes)
qed

lemma path_elems_elems: "length name = DIRSIZ \<Longrightarrow> path_elems path name = map (take DIRSIZ) (elems path)"
proof (induction path name rule: path_elems.induct)
  case (1 path name)
  show ?case
  proof (cases "skipelem path name")
    case None
    then show ?thesis using skipelem_elems [OF 1(2), of path] by (simp add: path_elems.simps)
  next
    case (Some r)
    obtain path' name' where r: "r = (path', name')" by (cases r)
    have k: "length name' = DIRSIZ" "elems path \<noteq> []" "str_of name' = take DIRSIZ (hd (elems path))" "elems path' = tl (elems path)"
      using skipelem_elems [OF 1(2), of path] Some r by auto
    have "path_elems path name = str_of name' # path_elems path' name'"
      using Some r by (simp add: path_elems.simps [of path])
    then show ?thesis using 1(1) [OF Some r [symmetric]] k by (cases "elems path") auto
  qed
qed

text \<open>C26: Path resolution looks up exactly the non-empty elements between the slashes of the path, up to its
  NUL, each cut to 14 bytes, and never writes past the 14 bytes of \<open>name\<close>; \<open>nameiparent\<close> stops at the last
  one, since the rest of the path is the empty string exactly when no element is left.\<close>

theorem path_resolution_elements:
  assumes "length name = DIRSIZ"
  shows "path_elems path name = map (take DIRSIZ) (filter (\<lambda>e. e \<noteq> []) (split_slash (str_of path))) \<and>
    (\<forall>path' name'. skipelem path name = Some (path', name') \<longrightarrow>
       length name' = DIRSIZ \<and> (hdc path' = 0 \<longleftrightarrow> path_elems path' name' = []))"
proof -
  have "hdc path' = 0 \<longleftrightarrow> path_elems path' name' = []"
    if "skipelem path name = Some (path', name')" for path' name'
  proof -
    have "skip_slashes path' = path'" using that by (auto simp: skipelem_def Let_def skip_slashes_def split: if_splits)
    then show ?thesis by (simp add: path_elems.simps [of path'] skipelem_def Let_def)
  qed
  moreover have "length name' = DIRSIZ" if "skipelem path name = Some (path', name')" for path' name'
    using skipelem_elems [OF assms, of path] that by simp
  ultimately show ?thesis using path_elems_elems [OF assms] by (simp add: elems_def)
qed

theorem path_resolution_elements_witness:
  "path_elems (bytes_of ''//usr/./bin/'') (replicate DIRSIZ 0) = map bytes_of [''usr'', ''.'', ''bin'']"
  using path_resolution_elements [of "replicate DIRSIZ 0" "bytes_of ''//usr/./bin/''"]
  by (simp add: bytes_of_def str_of_def)

end
