(* ===== verification/Xv6_File.thy ===== *)
theory Xv6_File
  imports Xv6_Fs
begin

text \<open>
  file.c and pipe.c. A file pointer is an index into \<open>ftable.file\<close>. A pipe is named by the page that
  holds its \<open>struct pipe\<close>; the fields are kept in a table by that address instead of as bytes of the page.
  The loops of \<open>pipewrite\<close> and \<open>piperead\<close> are split where they sleep, as those of proc.c.
\<close>

datatype fdtype = FD_NONE | FD_PIPE | FD_INODE

record kfile =
  f_type :: fdtype
  f_ref :: int
  f_readable :: bool
  f_writable :: bool
  f_pipe :: addr
  f_ip :: "nat option"
  f_off :: uint

record pipe =
  pi_data :: "uchar list"
  pi_nread :: uint
  pi_nwrite :: uint
  pi_readopen :: bool
  pi_writeopen :: bool

record file_state = console_state +
  ftable :: "kfile list"
  pipes :: "addr \<Rightarrow> pipe"

abbreviation (input) PIPESIZE :: nat where "PIPESIZE \<equiv> 512"

definition file_mod :: "nat \<Rightarrow> (kfile \<Rightarrow> kfile) \<Rightarrow> ('x file_state_scheme, unit) K" where
  "file_mod f g = kmod (\<lambda>s. s\<lparr>ftable := upd_at f g (ftable s)\<rparr>)"

definition file_get :: "nat \<Rightarrow> (kfile \<Rightarrow> 'a) \<Rightarrow> ('x file_state_scheme, 'a) K" where
  "file_get f g = kgets (\<lambda>s. g (ftable s ! f))"

definition pipe_mod :: "addr \<Rightarrow> (pipe \<Rightarrow> pipe) \<Rightarrow> ('x file_state_scheme, unit) K" where
  "pipe_mod p g = kmod (\<lambda>s. s\<lparr>pipes := (pipes s)(p := g (pipes s p))\<rparr>)"

definition pipe_get :: "addr \<Rightarrow> (pipe \<Rightarrow> 'a) \<Rightarrow> ('x file_state_scheme, 'a) K" where
  "pipe_get p g = kgets (\<lambda>s. g (pipes s p))"

section \<open>Pipes\<close>

definition pipeclose :: "addr \<Rightarrow> bool \<Rightarrow> ('x file_state_scheme, unit) K" where
  "pipeclose p writable = kdo [acquire (PipeLock p),
     if writable then kdo [pipe_mod p (\<lambda>q. q\<lparr>pi_writeopen := False\<rparr>), wakeup (Some (Ch_nread p))]
     else kdo [pipe_mod p (\<lambda>q. q\<lparr>pi_readopen := False\<rparr>), wakeup (Some (Ch_nwrite p))],
     kbind (pipe_get p id) (\<lambda>q.
       if \<not> pi_readopen q \<and> \<not> pi_writeopen q then kdo [release (PipeLock p), kfree p]
       else release (PipeLock p))]"

text \<open>The loop of \<open>pipewrite\<close> on the bytes still to be written.\<close>

primrec pipewrite_loop :: "uchar list \<Rightarrow> addr \<Rightarrow> int \<Rightarrow> ('x file_state_scheme, int) K" where
  "pipewrite_loop [] p n = kthen [wakeup (Some (Ch_nread p)), release (PipeLock p)] (kret n)"
| "pipewrite_loop (b # bs) p n = kbind (pipe_get p id) (\<lambda>q.
     if pi_nwrite q = pi_nread q + of_nat PIPESIZE then
       kbind (if pi_readopen q then with_myproc (\<lambda>i. proc_get i p_killed) else kret True) (\<lambda>gone.
       if gone then kthen [release (PipeLock p)] (kret (- 1))
       else kthen [wakeup (Some (Ch_nread p))] (sleep (Some (Ch_nwrite p)) (PipeLock p)))
     else kbind (pipe_mod p (\<lambda>q. q\<lparr>pi_data := (pi_data q)[unat (pi_nwrite q) mod PIPESIZE := b],
                                   pi_nwrite := pi_nwrite q + 1\<rparr>)) (\<lambda>_.
       pipewrite_loop bs p n))"

definition pipewrite :: "addr \<Rightarrow> int \<Rightarrow> uchar list \<Rightarrow> ('x file_state_scheme, int) K" where
  "pipewrite p n src = kthen [acquire (PipeLock p)] (pipewrite_loop (take (nat n) src) p n)"

definition pipewrite_resume :: "bool \<Rightarrow> uchar list \<Rightarrow> addr \<Rightarrow> int \<Rightarrow> ('x file_state_scheme, int) K" where
  "pipewrite_resume saved bs p n = kthen [sleep_return saved (PipeLock p)] (pipewrite_loop bs p n)"

primrec piperead_copy :: "nat \<Rightarrow> addr \<Rightarrow> ('x file_state_scheme, uchar list) K" where
  "piperead_copy 0 p = kret []"
| "piperead_copy (Suc n) p = kbind (pipe_get p id) (\<lambda>q.
     if pi_nread q = pi_nwrite q then kret []
     else kbind (pipe_mod p (\<lambda>q. q\<lparr>pi_nread := pi_nread q + 1\<rparr>)) (\<lambda>_.
       kbind (piperead_copy n p) (\<lambda>bs. kret (pi_data q ! (unat (pi_nread q) mod PIPESIZE) # bs))))"

definition piperead_loop :: "addr \<Rightarrow> int \<Rightarrow> ('x file_state_scheme, int \<times> uchar list) K" where
  "piperead_loop p n = kbind (pipe_get p id) (\<lambda>q.
     if pi_nread q = pi_nwrite q \<and> pi_writeopen q then
       with_myproc (\<lambda>i. kbind (proc_get i p_killed) (\<lambda>k.
         if k then kthen [release (PipeLock p)] (kret (- 1, []))
         else sleep (Some (Ch_nread p)) (PipeLock p)))
     else kbind (piperead_copy (nat n) p) (\<lambda>bs.
       kthen [wakeup (Some (Ch_nwrite p)), release (PipeLock p)] (kret (int (length bs), bs))))"

definition piperead :: "addr \<Rightarrow> int \<Rightarrow> ('x file_state_scheme, int \<times> uchar list) K" where
  "piperead p n = kthen [acquire (PipeLock p)] (piperead_loop p n)"

definition piperead_resume :: "bool \<Rightarrow> addr \<Rightarrow> int \<Rightarrow> ('x file_state_scheme, int \<times> uchar list) K" where
  "piperead_resume saved p n = kthen [sleep_return saved (PipeLock p)] (piperead_loop p n)"

section \<open>The file table\<close>

definition fileinit :: "('x file_state_scheme, unit) K" where
  "fileinit = initlock FtableLock ''ftable''"

definition filealloc :: "('x file_state_scheme, nat option) K" where
  "filealloc = kthen [acquire FtableLock] (kbind (kgets ftable) (\<lambda>fs.
     case index_of (\<lambda>f. f_ref f = 0) fs of
       Some f \<Rightarrow> kthen [file_mod f (\<lambda>x. x\<lparr>f_ref := 1\<rparr>), release FtableLock] (kret (Some f))
     | None \<Rightarrow> kthen [release FtableLock] (kret None)))"

definition filedup :: "nat \<Rightarrow> ('x file_state_scheme, nat) K" where
  "filedup f = kthen [acquire FtableLock] (kbind (file_get f f_ref) (\<lambda>r.
     if r < 1 then kpanic ''filedup''
     else kthen [file_mod f (\<lambda>x. x\<lparr>f_ref := f_ref x + 1\<rparr>), release FtableLock] (kret f)))"

definition fileclose :: "nat \<Rightarrow> ('x file_state_scheme, unit) K" where
  "fileclose f = kthen [acquire FtableLock] (kbind (file_get f f_ref) (\<lambda>r.
     if r < 1 then kpanic ''fileclose''
     else kthen [file_mod f (\<lambda>x. x\<lparr>f_ref := f_ref x - 1\<rparr>)]
       (kbind (file_get f id) (\<lambda>ff.
        if f_ref ff > 0 then release FtableLock
        else kdo [file_mod f (\<lambda>x. x\<lparr>f_ref := 0\<rparr>),
                  file_mod f (\<lambda>x. x\<lparr>f_type := FD_NONE\<rparr>),
                  release FtableLock,
                  case f_type ff of
                    FD_PIPE \<Rightarrow> pipeclose (f_pipe ff) (f_writable ff)
                  | FD_INODE \<Rightarrow> kdo [begin_op, iput (f_ip ff), end_op]
                  | FD_NONE \<Rightarrow> kret ()]))))"

definition filestat :: "nat \<Rightarrow> ('x file_state_scheme, int \<times> stat option) K" where
  "filestat f = kbind (file_get f id) (\<lambda>x.
     if f_type x = FD_INODE then
       kthen [ilock (f_ip x)] (need ''null inode'' (f_ip x) (\<lambda>i. kbind (ino_get i stati) (\<lambda>st.
         kthen [iunlock (f_ip x)] (kret (0, Some st)))))
     else kret (- 1, None))"

definition fileread :: "nat \<Rightarrow> int \<Rightarrow> ('x file_state_scheme, int \<times> uchar list) K" where
  "fileread f n = kbind (file_get f id) (\<lambda>x.
     if \<not> f_readable x then kret (- 1, [])
     else case f_type x of
       FD_PIPE \<Rightarrow> piperead (f_pipe x) n
     | FD_INODE \<Rightarrow> kthen [ilock (f_ip x)] (need ''null inode'' (f_ip x) (\<lambda>i.
         kbind (file_get f f_off) (\<lambda>off.
         kbind (readi i off (uint_of n)) (\<lambda>(r, bs).
         kthen [kwhen (r > 0) (file_mod f (\<lambda>x. x\<lparr>f_off := f_off x + uint_of r\<rparr>)), iunlock (f_ip x)] (kret (r, bs))))))
     | FD_NONE \<Rightarrow> kpanic ''fileread'')"

text \<open>The loop of \<open>filewrite\<close> on the bytes still to be written; the result says whether all were.\<close>

abbreviation (input) file_max :: nat where "file_max \<equiv> ((MAXOPBLOCKS - 1 - 1 - 2) div 2) * 512"

function filewrite_loop :: "nat \<Rightarrow> uchar list \<Rightarrow> ('x file_state_scheme, bool) K" where
  "filewrite_loop f src = (if src = [] then kret True else
     let n1 = min (length src) file_max in
     kthen [begin_op] (kbind (file_get f f_ip) (\<lambda>ip.
       kthen [ilock ip] (need ''null inode'' ip (\<lambda>i.
         kbind (file_get f f_off) (\<lambda>off.
         kbind (writei i (take n1 src) off) (\<lambda>r.
         kthen [kwhen (r > 0) (file_mod f (\<lambda>x. x\<lparr>f_off := f_off x + uint_of r\<rparr>)), iunlock ip, end_op]
           (if r < 0 then kret False
            else if r \<noteq> int n1 then kpanic ''short filewrite''
            else filewrite_loop f (drop n1 src)))))))))"
  by auto
termination
  by (relation "measure (\<lambda>(f, src). length src)") auto

declare filewrite_loop.simps [simp del]

definition filewrite :: "nat \<Rightarrow> int \<Rightarrow> uchar list \<Rightarrow> ('x file_state_scheme, int) K" where
  "filewrite f n src = kbind (file_get f id) (\<lambda>x.
     if \<not> f_writable x then kret (- 1)
     else case f_type x of
       FD_PIPE \<Rightarrow> pipewrite (f_pipe x) n src
     | FD_INODE \<Rightarrow> kbind (filewrite_loop f (take (nat n) src)) (\<lambda>all. kret (if all \<and> n \<ge> 0 then n else - 1))
     | FD_NONE \<Rightarrow> kpanic ''filewrite'')"

section \<open>pipealloc\<close>

definition fileclose_some :: "nat option \<Rightarrow> ('x file_state_scheme, unit) K" where
  "fileclose_some f = (case f of None \<Rightarrow> kret () | Some i \<Rightarrow> fileclose i)"

text \<open>The label \<open>bad\<close>; no path reaches it with a page allocated.\<close>

definition pipealloc_bad :: "nat option \<Rightarrow> nat option \<Rightarrow> ('x file_state_scheme, int \<times> nat option \<times> nat option) K" where
  "pipealloc_bad f0 f1 = kthen [fileclose_some f0, fileclose_some f1] (kret (- 1, f0, f1))"

definition pipe_end :: "nat \<Rightarrow> addr \<Rightarrow> bool \<Rightarrow> ('x file_state_scheme, unit) K" where
  "pipe_end f p writable = kdo [file_mod f (\<lambda>x. x\<lparr>f_type := FD_PIPE\<rparr>),
     file_mod f (\<lambda>x. x\<lparr>f_readable := \<not> writable\<rparr>),
     file_mod f (\<lambda>x. x\<lparr>f_writable := writable\<rparr>),
     file_mod f (\<lambda>x. x\<lparr>f_pipe := p\<rparr>)]"

definition pipealloc :: "('x file_state_scheme, int \<times> nat option \<times> nat option) K" where
  "pipealloc = kbind filealloc (\<lambda>f0. case f0 of None \<Rightarrow> pipealloc_bad None None | Some i0 \<Rightarrow>
     kbind filealloc (\<lambda>f1. case f1 of None \<Rightarrow> pipealloc_bad f0 None | Some i1 \<Rightarrow>
     kbind kalloc (\<lambda>p. if p = 0 then pipealloc_bad f0 f1 else
       kthen [pipe_mod p (\<lambda>q. q\<lparr>pi_readopen := True\<rparr>),
              pipe_mod p (\<lambda>q. q\<lparr>pi_writeopen := True\<rparr>),
              pipe_mod p (\<lambda>q. q\<lparr>pi_nwrite := 0\<rparr>),
              pipe_mod p (\<lambda>q. q\<lparr>pi_nread := 0\<rparr>),
              initlock (PipeLock p) ''pipe'',
              pipe_end i0 p False,
              pipe_end i1 p True] (kret (0, f0, f1)))))"

section \<open>Frames\<close>

lemma file_frame [simp]:
  fixes s :: "'x file_state_scheme"
  shows "ftable (acquired l s) = ftable s" "pipes (acquired l s) = pipes s" "file_state.more (acquired l s) = file_state.more s"
    "ftable (released l s) = ftable s" "pipes (released l s) = pipes s" "file_state.more (released l s) = file_state.more s"
    "ftable (probed s) = ftable s" "pipes (probed s) = pipes s" "file_state.more (probed s) = file_state.more s"
  by (simp_all add: acquired_def released_def probed_def Let_def)

lemma lk_ok_files [simp]:
  fixes s :: "'x file_state_scheme"
  shows "lk_ok (s\<lparr>pipes := x\<rparr>) = lk_ok s" "held (s\<lparr>pipes := x\<rparr>) = held s" "curproc (s\<lparr>pipes := x\<rparr>) = curproc s"
    "lk_ok (s\<lparr>ftable := y\<rparr>) = lk_ok s" "held (s\<lparr>ftable := y\<rparr>) = held s" "curproc (s\<lparr>ftable := y\<rparr>) = curproc s"
  by (simp_all add: lk_ok_def held_def mycpu_index_def curproc_def)

lemma file_ops_run [simp]:
  "file_mod f g s = Ok () (s\<lparr>ftable := upd_at f g (ftable s)\<rparr>)" "file_get f h s = Ok (h (ftable s ! f)) s"
  "pipe_mod p k s = Ok () (s\<lparr>pipes := (pipes s)(p := k (pipes s p))\<rparr>)" "pipe_get p m s = Ok (m (pipes s p)) s"
  by (simp_all add: file_mod_def file_get_def pipe_mod_def pipe_get_def)

section \<open>Pipes are queues\<close>

interpretation pip: word_ring 512
  by unfold_locales simp_all

text \<open>The bytes written and not yet read.\<close>

definition pipe_q :: "pipe \<Rightarrow> uchar list" where
  "pipe_q q = ring PIPESIZE (pi_data q) (pi_nread q) (unat (pi_nwrite q - pi_nread q))"

definition pipe_ok :: "pipe \<Rightarrow> bool" where
  "pipe_ok q \<longleftrightarrow> length (pi_data q) = PIPESIZE \<and> unat (pi_nwrite q - pi_nread q) \<le> PIPESIZE"

definition pipe_put :: "uchar \<Rightarrow> pipe \<Rightarrow> pipe" where
  "pipe_put b q = q\<lparr>pi_data := (pi_data q)[unat (pi_nwrite q) mod PIPESIZE := b], pi_nwrite := pi_nwrite q + 1\<rparr>"

lemma length_pipe_q: "length (pipe_q q) = unat (pi_nwrite q - pi_nread q)"
  by (simp add: pipe_q_def)

lemma pipe_full: "pi_nwrite q = pi_nread q + of_nat PIPESIZE \<longleftrightarrow> length (pipe_q q) = PIPESIZE"
proof -
  have "pi_nwrite q = pi_nread q + of_nat PIPESIZE \<longleftrightarrow> pi_nwrite q - pi_nread q = of_nat PIPESIZE" by (auto simp: algebra_simps)
  also have "\<dots> \<longleftrightarrow> unat (pi_nwrite q - pi_nread q) = PIPESIZE" by (simp add: word_unat_eq_iff)
  finally show ?thesis by (simp add: length_pipe_q)
qed

lemma pipe_empty: "pi_nread q = pi_nwrite q \<longleftrightarrow> pipe_q q = []"
  using length_pipe_q [of q] by (auto simp: unat_eq_0 simp flip: length_0_conv)

lemma pipe_put_q:
  assumes "pipe_ok q" "length (pipe_q q) < PIPESIZE"
  shows "pipe_q (pipe_put b q) = pipe_q q @ [b]" "pipe_ok (pipe_put b q)"
    "pi_readopen (pipe_put b q) = pi_readopen q" "pi_writeopen (pipe_put b q) = pi_writeopen q"
proof -
  have l: "unat (pi_nwrite q - pi_nread q) < PIPESIZE" using assms(2) by (simp add: length_pipe_q)
  have d: "unat (pi_nwrite q + 1 - pi_nread q) = Suc (unat (pi_nwrite q - pi_nread q))" by (rule distance_inc [OF l]) simp
  show "pipe_q (pipe_put b q) = pipe_q q @ [b]"
    using pip.ring_push [OF _ l, of "pi_data q" b] assms(1) d by (simp add: pipe_q_def pipe_put_def pipe_ok_def)
  show "pipe_ok (pipe_put b q)" using d l assms(1) by (simp add: pipe_ok_def pipe_put_def)
qed (simp_all add: pipe_put_def)

lemma pipe_puts:
  assumes "pipe_ok q" "length (pipe_q q) + length bs \<le> PIPESIZE"
  shows "pipe_q (fold pipe_put bs q) = pipe_q q @ bs" "pipe_ok (fold pipe_put bs q)"
    "pi_readopen (fold pipe_put bs q) = pi_readopen q" "pi_writeopen (fold pipe_put bs q) = pi_writeopen q"
proof -
  have "pipe_q (fold pipe_put bs q) = pipe_q q @ bs \<and> pipe_ok (fold pipe_put bs q) \<and>
    pi_readopen (fold pipe_put bs q) = pi_readopen q \<and> pi_writeopen (fold pipe_put bs q) = pi_writeopen q"
    using assms
  proof (induction bs arbitrary: q)
    case (Cons b bs)
    have l: "length (pipe_q q) < PIPESIZE" using Cons.prems(2) by simp
    show ?case using Cons.IH [of "pipe_put b q"] pipe_put_q [OF Cons.prems(1) l] Cons.prems(2) by simp
  qed simp
  then show "pipe_q (fold pipe_put bs q) = pipe_q q @ bs" "pipe_ok (fold pipe_put bs q)"
    "pi_readopen (fold pipe_put bs q) = pi_readopen q" "pi_writeopen (fold pipe_put bs q) = pi_writeopen q" by simp_all
qed

lemma pipewrite_loop_put:
  assumes "pipe_ok (pipes s p)" "length (pipe_q (pipes s p)) + length bs \<le> PIPESIZE"
  shows "pipewrite_loop (bs @ cs) p n s = pipewrite_loop cs p n (s\<lparr>pipes := (pipes s)(p := fold pipe_put bs (pipes s p))\<rparr>)"
  using assms
proof (induction bs arbitrary: s)
  case Nil
  then show ?case by simp
next
  case (Cons b bs)
  have l: "length (pipe_q (pipes s p)) < PIPESIZE" using Cons.prems(2) by simp
  let ?u = "s\<lparr>pipes := (pipes s)(p := pipe_put b (pipes s p))\<rparr>"
  have "pipewrite_loop ((b # bs) @ cs) p n s = pipewrite_loop (bs @ cs) p n ?u"
    using l pipe_full [of "pipes s p"] by (simp add: pipe_put_def)
  also have "\<dots> = pipewrite_loop cs p n (?u\<lparr>pipes := (pipes ?u)(p := fold pipe_put bs (pipes ?u p))\<rparr>)"
    by (rule Cons.IH) (use pipe_put_q [OF Cons.prems(1) l] Cons.prems(2) in simp_all)
  also have "?u\<lparr>pipes := (pipes ?u)(p := fold pipe_put bs (pipes ?u p))\<rparr>
      = s\<lparr>pipes := (pipes s)(p := fold pipe_put (b # bs) (pipes s p))\<rparr>" by simp
  finally show ?case .
qed

text \<open>The state of a process inside a pipe operation.\<close>

definition in_pipe :: "nat \<Rightarrow> addr \<Rightarrow> 'x file_state_scheme \<Rightarrow> bool" where
  "in_pipe i p s \<longleftrightarrow> lk_ok s \<and> held s = {PipeLock p} \<and> curproc s = Some i \<and> i < length (procs s)"

lemma in_pipe_pipes [simp]: "in_pipe i p (s\<lparr>pipes := x\<rparr>) = in_pipe i p s"
  by (simp add: in_pipe_def)

lemma pipe_wakeup:
  assumes "in_pipe i p s"
  shows "\<exists>t. wakeup ch s = Ok () t \<and> in_pipe i p t \<and> procs t = woken ch (procs s) \<and> pipes t = pipes s \<and> ftable t = ftable s"
proof -
  have h: "lk_ok s" "PtableLock \<notin> held s" "held s = {PipeLock p}" "curproc s = Some i" "i < length (procs s)"
    using assms by (simp_all add: in_pipe_def)
  have l: "lk_ok (acquired PtableLock s)" "held (acquired PtableLock s) = {PtableLock, PipeLock p}" using h by auto
  show ?thesis
    using wakeup_run [OF h(1,2), of ch] h l by (simp add: in_pipe_def) (simp add: woken_def)
qed

text \<open>The three ways a round of \<open>pipewrite\<close> can end, when \<open>k\<close> more bytes fit.\<close>

lemma pipewrite_loop_run:
  fixes s :: "'x file_state_scheme"
  assumes "in_pipe i p s" "pipe_ok (pipes s p)"
  defines "k \<equiv> PIPESIZE - length (pipe_q (pipes s p))"
  defines "gone \<equiv> \<not> pi_readopen (pipes s p) \<or> p_killed (procs s ! i)"
  shows "length bs \<le> k \<Longrightarrow> \<exists>t. pipewrite_loop bs p n s = Ok n t \<and> lk_ok t \<and> held t = {}
      \<and> pipe_q (pipes t p) = pipe_q (pipes s p) @ bs \<and> pipe_ok (pipes t p) \<and> procs t = woken (Some (Ch_nread p)) (procs s)"
    "\<not> length bs \<le> k \<Longrightarrow> gone \<Longrightarrow> \<exists>t. pipewrite_loop bs p n s = Ok (- 1) t \<and> lk_ok t \<and> held t = {}
      \<and> pipe_q (pipes t p) = pipe_q (pipes s p) @ take k bs \<and> pipe_ok (pipes t p) \<and> procs t = procs s"
    "\<not> length bs \<le> k \<Longrightarrow> \<not> gone \<Longrightarrow> \<exists>t. pipewrite_loop bs p n s = Blocked t \<and> lk_ok t \<and> held t = {PtableLock}
      \<and> pipe_q (pipes t p) = pipe_q (pipes s p) @ take k bs \<and> pipe_ok (pipes t p)
      \<and> procs t = asleep i (Some (Ch_nwrite p)) (woken (Some (Ch_nread p)) (procs s))"
proof -
  have le: "length (pipe_q (pipes s p)) \<le> PIPESIZE" using assms(2) by (simp add: pipe_ok_def length_pipe_q)
  let ?u = "s\<lparr>pipes := (pipes s)(p := fold pipe_put (take k bs) (pipes s p))\<rparr>"
  have fits: "length (pipe_q (pipes s p)) + length (take k bs) \<le> PIPESIZE" using le by (simp add: k_def)
  note q = pipe_puts [OF assms(2) fits]
  have split: "pipewrite_loop bs p n s = pipewrite_loop (drop k bs) p n ?u"
    using pipewrite_loop_put [where bs = "take k bs" and cs = "drop k bs", OF assms(2) fits] by simp
  have u: "in_pipe i p ?u" "pipes ?u p = fold pipe_put (take k bs) (pipes s p)" using assms(1) by simp_all
  obtain v where v: "wakeup (Some (Ch_nread p)) ?u = Ok () v" "in_pipe i p v" "procs v = woken (Some (Ch_nread p)) (procs s)" "pipes v = pipes ?u"
    using pipe_wakeup [OF u(1)] by auto
  show "\<exists>t. pipewrite_loop bs p n s = Ok n t \<and> lk_ok t \<and> held t = {}
      \<and> pipe_q (pipes t p) = pipe_q (pipes s p) @ bs \<and> pipe_ok (pipes t p) \<and> procs t = woken (Some (Ch_nread p)) (procs s)"
    if "length bs \<le> k"
  proof -
    have "pipewrite_loop bs p n s = Ok n (released (PipeLock p) v)"
      using split v(1,2) that by (simp add: kthen_def in_pipe_def)
    then show ?thesis using that v q by (simp add: in_pipe_def)
  qed
  have full: "pi_nwrite (pipes ?u p) = pi_nread (pipes ?u p) + of_nat PIPESIZE" if "\<not> length bs \<le> k"
    using that q(1) le by (subst pipe_full) (simp add: k_def)
  have k: "kbind (if pi_readopen (pipes ?u p) then with_myproc (\<lambda>i. proc_get i p_killed) else kret True) f ?u = f gone ?u" for f :: "bool \<Rightarrow> ('x file_state_scheme, int) K"
    using u(1) q(3) probed_id [of ?u] by (simp add: in_pipe_def gone_def)
  have step: "pipewrite_loop bs p n s = (if gone then kthen [release (PipeLock p)] (kret (- 1))
      else kthen [wakeup (Some (Ch_nread p))] (sleep (Some (Ch_nwrite p)) (PipeLock p))) ?u" if "\<not> length bs \<le> k"
  proof -
    have "drop k bs \<noteq> []" using that by simp
    then obtain c cs where c: "drop k bs = c # cs" by (cases "drop k bs") auto
    show ?thesis unfolding split c pipewrite_loop.simps using full [OF that] k by simp
  qed
  show "\<exists>t. pipewrite_loop bs p n s = Ok (- 1) t \<and> lk_ok t \<and> held t = {}
      \<and> pipe_q (pipes t p) = pipe_q (pipes s p) @ take k bs \<and> pipe_ok (pipes t p) \<and> procs t = procs s"
    if "\<not> length bs \<le> k" gone
  proof -
    have "pipewrite_loop bs p n s = Ok (- 1) (released (PipeLock p) ?u)"
      using step [OF that(1)] that(2) u(1) by (simp add: kthen_def in_pipe_def)
    then show ?thesis using u(1) q by (simp add: in_pipe_def)
  qed
  show "\<exists>t. pipewrite_loop bs p n s = Blocked t \<and> lk_ok t \<and> held t = {PtableLock}
      \<and> pipe_q (pipes t p) = pipe_q (pipes s p) @ take k bs \<and> pipe_ok (pipes t p)
      \<and> procs t = asleep i (Some (Ch_nwrite p)) (woken (Some (Ch_nread p)) (procs s))"
    if "\<not> length bs \<le> k" "\<not> gone"
  proof -
    have w: "lk_ok v" "held v = {PipeLock p}" "curproc v = Some i" "i < length (procs v)" using v(2) by (simp_all add: in_pipe_def)
    have "pipewrite_loop bs p n s = Blocked ((released (PipeLock p) (acquired PtableLock v))\<lparr>procs := asleep i (Some (Ch_nwrite p)) (procs v)\<rparr>)"
      using step [OF that(1)] that(2) v(1) sleep_run [OF w(1,2) _ w(3,4)] by (simp add: kthen_def)
    then show ?thesis using v q w by auto
  qed
qed

text \<open>C16: a pipe is a first-in first-out queue of at most 512 bytes, for the writer. \<open>pipewrite\<close> appends its bytes to
  the queue, whatever the free-running 32-bit indices are, and wakes the readers. When they do not fit it appends those
  that do; then, if the read side is closed or the process killed, it returns -1, else it wakes the readers and sleeps
  on \<open>nwrite\<close> with the pipe unlocked.\<close>

theorem pipewrite_appends:
  fixes s :: "'x file_state_scheme"
  assumes "env i pid s" "pipe_ok (pipes s p)" "n = int (length bs)"
  defines "k \<equiv> PIPESIZE - length (pipe_q (pipes s p))"
  shows "\<exists>t. pipe_q (pipes t p) = pipe_q (pipes s p) @ take k bs \<and> pipe_ok (pipes t p) \<and> lk_ok t \<and>
    (if length bs \<le> k then pipewrite p n bs s = Ok n t \<and> held t = {} \<and> procs t = woken (Some (Ch_nread p)) (procs s)
     else if \<not> pi_readopen (pipes s p) \<or> p_killed (procs s ! i) then pipewrite p n bs s = Ok (- 1) t \<and> held t = {} \<and> procs t = procs s
     else pipewrite p n bs s = Blocked t \<and> held t = {PtableLock}
       \<and> procs t = asleep i (Some (Ch_nwrite p)) (woken (Some (Ch_nread p)) (procs s)))"
proof -
  let ?a = "acquired (PipeLock p) s"
  have a: "in_pipe i p ?a" "pipe_ok (pipes ?a p)" "pipes ?a = pipes s" "procs ?a = procs s"
    using assms(1,2) by (simp_all add: env_def in_pipe_def)
  have r: "pipewrite p n bs s = pipewrite_loop bs p n ?a"
    using assms(1,3) by (simp add: pipewrite_def kthen_def env_def)
  note run = pipewrite_loop_run [OF a(1,2), of bs n, unfolded a(3,4), folded k_def]
  consider "length bs \<le> k" | "\<not> length bs \<le> k" "\<not> pi_readopen (pipes s p) \<or> p_killed (procs s ! i)"
    | "\<not> length bs \<le> k" "\<not> (\<not> pi_readopen (pipes s p) \<or> p_killed (procs s ! i))" by blast
  then show ?thesis
  proof cases
    case 1
    then show ?thesis using run(1) r by auto
  next
    case 2
    then show ?thesis using run(2) r by auto
  next
    case 3
    then show ?thesis using run(3) r by auto
  qed
qed

text \<open>The reader's side.\<close>

definition pipe_get1 :: "pipe \<Rightarrow> pipe" where
  "pipe_get1 q = q\<lparr>pi_nread := pi_nread q + 1\<rparr>"

lemma pipe_get1_q:
  assumes "pipe_ok q" "pipe_q q \<noteq> []"
  shows "pipe_q q = pi_data q ! (unat (pi_nread q) mod PIPESIZE) # pipe_q (pipe_get1 q)" "pipe_ok (pipe_get1 q)"
proof -
  have ne: "pi_nwrite q \<noteq> pi_nread q" using assms(2) pipe_empty [of q] by simp
  note d = distance_dec(2,3) [OF ne]
  show "pipe_q q = pi_data q ! (unat (pi_nread q) mod PIPESIZE) # pipe_q (pipe_get1 q)"
    using pip.ring_pop [OF d(2), of "pi_data q" "pi_nread q"] d(1) by (simp add: pipe_q_def pipe_get1_def)
  have "unat (pi_nwrite q - pi_nread q) \<le> PIPESIZE" using assms(1) by (simp add: pipe_ok_def)
  then have "unat (pi_nwrite q - (pi_nread q + 1)) \<le> PIPESIZE" using d(1) by linarith
  then show "pipe_ok (pipe_get1 q)" using assms(1) by (simp add: pipe_ok_def pipe_get1_def)
qed

lemma pipe_get1_open [simp]: "pi_readopen (pipe_get1 q) = pi_readopen q" "pi_writeopen (pipe_get1 q) = pi_writeopen q"
  by (simp_all add: pipe_get1_def)

lemma pipes_twice:
  "s\<lparr>pipes := (pipes s)(p := a)\<rparr>\<lparr>pipes := (pipes (s\<lparr>pipes := (pipes s)(p := a)\<rparr>))(p := q)\<rparr> = s\<lparr>pipes := (pipes s)(p := q)\<rparr>"
  by simp

lemma piperead_copy_run:
  assumes "pipe_ok (pipes s p)"
  shows "\<exists>q. piperead_copy n p s = Ok (take n (pipe_q (pipes s p))) (s\<lparr>pipes := (pipes s)(p := q)\<rparr>)
    \<and> pipe_ok q \<and> pipe_q q = drop n (pipe_q (pipes s p)) \<and> pi_readopen q = pi_readopen (pipes s p) \<and> pi_writeopen q = pi_writeopen (pipes s p)"
  using assms
proof (induction n arbitrary: s)
  case 0
  then show ?case by (intro exI [of _ "pipes s p"]) simp
next
  case (Suc n)
  show ?case
  proof (cases "pipe_q (pipes s p) = []")
    case True
    then show ?thesis using pipe_empty [of "pipes s p"] Suc.prems by (intro exI [of _ "pipes s p"]) simp
  next
    case False
    let ?u = "s\<lparr>pipes := (pipes s)(p := pipe_get1 (pipes s p))\<rparr>"
    note g = pipe_get1_q [OF Suc.prems False]
    obtain q where q: "piperead_copy n p ?u = Ok (take n (pipe_q (pipe_get1 (pipes s p)))) (s\<lparr>pipes := (pipes s)(p := q)\<rparr>)"
        "pipe_ok q" "pipe_q q = drop n (pipe_q (pipe_get1 (pipes s p)))" "pi_readopen q = pi_readopen (pipes s p)" "pi_writeopen q = pi_writeopen (pipes s p)"
      using Suc.IH [of ?u] g(2) unfolding pipes_twice by auto
    have "pi_nread (pipes s p) \<noteq> pi_nwrite (pipes s p)" using False pipe_empty by blast
    then have "piperead_copy (Suc n) p s
        = Ok (pi_data (pipes s p) ! (unat (pi_nread (pipes s p)) mod PIPESIZE) # take n (pipe_q (pipe_get1 (pipes s p)))) (s\<lparr>pipes := (pipes s)(p := q)\<rparr>)"
      using q(1) by (simp add: pipe_get1_def [symmetric])
    then show ?thesis using g(1) q(2-5) by (intro exI [of _ q]) (metis drop_Suc_Cons take_Suc_Cons)
  qed
qed

text \<open>C17: the reader's side of the queue. \<open>piperead\<close> returns the oldest \<open>n\<close> bytes of the pipe, or as many as there are,
  removes exactly those and wakes the writers; on an empty pipe it returns no bytes when the write side is closed, -1 when
  the process is killed, and else sleeps on \<open>nread\<close> with the pipe unlocked.\<close>

theorem piperead_takes:
  fixes s :: "'x file_state_scheme"
  assumes "env i pid s" "pipe_ok (pipes s p)" "0 \<le> n"
  defines "q \<equiv> pipe_q (pipes s p)"
  shows "\<exists>t. pipe_ok (pipes t p) \<and> lk_ok t \<and>
    (if q \<noteq> [] \<or> \<not> pi_writeopen (pipes s p) then
       piperead p n s = Ok (int (min (nat n) (length q)), take (nat n) q) t \<and> held t = {}
         \<and> pipe_q (pipes t p) = drop (nat n) q \<and> procs t = woken (Some (Ch_nwrite p)) (procs s)
     else if p_killed (procs s ! i) then piperead p n s = Ok (- 1, []) t \<and> held t = {} \<and> pipe_q (pipes t p) = q \<and> procs t = procs s
     else piperead p n s = Blocked t \<and> held t = {PtableLock} \<and> pipe_q (pipes t p) = q
       \<and> procs t = asleep i (Some (Ch_nread p)) (procs s))"
proof -
  let ?a = "acquired (PipeLock p) s"
  have a: "in_pipe i p ?a" "pipe_ok (pipes ?a p)" "pipes ?a = pipes s" "procs ?a = procs s"
    using assms(1,2) by (simp_all add: env_def in_pipe_def)
  have h: "lk_ok ?a" "held ?a = {PipeLock p}" "curproc ?a = Some i" "i < length (procs ?a)" using a(1) by (simp_all add: in_pipe_def)
  have r: "piperead p n s = piperead_loop p n ?a" using assms(1) by (simp add: piperead_def kthen_def env_def)
  have e: "pi_nread (pipes ?a p) = pi_nwrite (pipes ?a p) \<longleftrightarrow> q = []" using pipe_empty by (simp add: q_def a(3))
  consider "q \<noteq> [] \<or> \<not> pi_writeopen (pipes s p)" | "q = []" "pi_writeopen (pipes s p)" by blast
  then show ?thesis
  proof cases
    case 1
    obtain q' where c: "piperead_copy (nat n) p ?a = Ok (take (nat n) q) (?a\<lparr>pipes := (pipes ?a)(p := q')\<rparr>)"
        "pipe_ok q'" "pipe_q q' = drop (nat n) q"
      using piperead_copy_run [OF a(2), of "nat n"] by (auto simp: q_def a(3))
    define u where "u = ?a\<lparr>pipes := (pipes ?a)(p := q')\<rparr>"
    have u: "in_pipe i p u" "procs u = procs s" "pipes u p = q'" using a(1,4) by (simp_all add: u_def)
    obtain v where v: "wakeup (Some (Ch_nwrite p)) u = Ok () v" "in_pipe i p v"
        "procs v = woken (Some (Ch_nwrite p)) (procs s)" "pipes v p = q'"
      using pipe_wakeup [OF u(1), of "Some (Ch_nwrite p)"] u(2,3) by auto
    have w: "lk_ok v" "PipeLock p \<in> held v" using v(2) by (simp_all add: in_pipe_def)
    have "\<not> (pi_nread (pipes ?a p) = pi_nwrite (pipes ?a p) \<and> pi_writeopen (pipes ?a p))" using 1 e a(3) by auto
    then have "piperead p n s = Ok (int (length (take (nat n) q)), take (nat n) q) (released (PipeLock p) v)"
      using r c(1) [folded u_def] v(1) w
      by (cases "pi_writeopen (pipes s p)") (simp_all add: piperead_loop_def kthen_def del: length_take)
    then have "piperead p n s = Ok (int (min (nat n) (length q)), take (nat n) q) (released (PipeLock p) v)"
      by (simp add: min.commute)
    then show ?thesis using 1 v c by (intro exI [of _ "released (PipeLock p) v"]) (auto simp: in_pipe_def)
  next
    case 2
    have l: "piperead p n s = (if p_killed (procs s ! i) then kthen [release (PipeLock p)] (kret (- 1, []))
         else sleep (Some (Ch_nread p)) (PipeLock p)) ?a"
      using r 2 e h by (simp add: piperead_loop_def a(3) probed_id)
    show ?thesis
    proof (cases "p_killed (procs s ! i)")
      case True
      then have "piperead p n s = Ok (- 1, []) (released (PipeLock p) ?a)" using l h by (simp add: kthen_def)
      then show ?thesis using True 2 h assms(2) by (intro exI [of _ "released (PipeLock p) ?a"]) (simp add: q_def)
    next
      case False
      let ?t = "(released (PipeLock p) (acquired PtableLock ?a))\<lparr>procs := asleep i (Some (Ch_nread p)) (procs ?a)\<rparr>"
      have "piperead p n s = Blocked ?t" using l False sleep_run [OF h(1,2) _ h(3,4)] by simp
      moreover have "lk_ok ?t" "held ?t = {PtableLock}" using assms(1) by (auto simp: env_def)
      ultimately show ?thesis using False 2 assms(2) by (intro exI [of _ ?t]) (simp add: q_def)
    qed
  qed
qed

section \<open>A pipe on a machine\<close>

definition pipe_demo :: pipe where
  "pipe_demo = \<lparr>pi_data = replicate PIPESIZE 0, pi_nread = 0xFFFFFFFF, pi_nwrite = 0xFFFFFFFF, pi_readopen = True, pi_writeopen = True\<rparr>"

definition file_demo :: "kfile list \<Rightarrow> inode list \<Rightarrow> file_state" where
  "file_demo fs ips = console_state.extend (con_demo ips) \<lparr>ftable = fs, pipes = (\<lambda>_. pipe_demo)\<rparr>"

lemma file_demo_env: "env 0 3 (file_demo fs ips)"
  using con_demo_env [of ips]
  by (rule env_cong [THEN iffD2, rotated -1]) (simp_all add: file_demo_def console_state.defs)

lemma file_demo_fields [simp]: "ftable (file_demo fs ips) = fs" "pipes (file_demo fs ips) = (\<lambda>_. pipe_demo)"
  by (simp_all add: file_demo_def console_state.defs)

lemma pipe_demo_ok [simp]: "pipe_ok pipe_demo" "pipe_q pipe_demo = []" "pi_writeopen pipe_demo"
  by (simp_all add: pipe_demo_def pipe_ok_def pipe_q_def)

theorem pipewrite_appends_witness: "\<exists>t. pipewrite 0x100000 3 [104, 105, 10] (file_demo [] []) = Ok 3 t \<and> pipe_q (pipes t 0x100000) = [104, 105, 10]"
  using pipewrite_appends [OF file_demo_env [of "[]" "[]"], where bs = "[104, 105, 10]" and p = "0x100000" and n = 3] by auto

theorem piperead_takes_witness:
  "\<exists>t. piperead 0x100000 2 ((file_demo [] [])\<lparr>pipes := (\<lambda>_. fold pipe_put [104, 105, 10] pipe_demo)\<rparr>) = Ok (2, [104, 105]) t
    \<and> pipe_q (pipes t 0x100000) = [10]"
proof -
  let ?s = "(file_demo [] [])\<lparr>pipes := (\<lambda>_. fold pipe_put [104, 105, 10] pipe_demo)\<rparr>"
  have "env 0 3 ?s" using file_demo_env [of "[]" "[]"] by (simp add: env_def)
  moreover have "pipe_ok (pipes ?s 0x100000)" "pipe_q (pipes ?s 0x100000) = [104, 105, 10]"
    using pipe_puts(1,2) [where q = pipe_demo and bs = "[104, 105, 10]"] by simp_all
  ultimately show ?thesis using piperead_takes [of 0 3 ?s "0x100000" 2] by auto
qed

end
