(* ===== verification/Xv6_Thread.thy ===== *)
theory Xv6_Thread
  imports Xv6_File
begin

text \<open>
  The rest of proc.c: the operations that also touch files and inodes. \<open>clone\<close> is composed of the steps the
  code has: the address space, the stack, the trap frame, the files, the identifiers. \<open>exit\<close> is split where
  it can give up the processor: in \<open>begin_op\<close> and in \<open>tgkill\<close>. \<open>fork_first\<close> is the static \<open>first\<close> of
  \<open>forkret\<close>.
\<close>

record thread_state = file_state +
  fork_first :: bool

abbreviation (input) CLONE_VM :: uint where "CLONE_VM \<equiv> 1"
abbreviation (input) CLONE_FS :: uint where "CLONE_FS \<equiv> 2"
abbreviation (input) CLONE_FILES :: uint where "CLONE_FILES \<equiv> 4"
abbreviation (input) CLONE_THREAD :: uint where "CLONE_THREAD \<equiv> 8"
abbreviation (input) CLONE_PARENT :: uint where "CLONE_PARENT \<equiv> 16"

definition flag :: "uint \<Rightarrow> uint \<Rightarrow> bool" where
  "flag fl k \<longleftrightarrow> fl AND k \<noteq> 0"

text \<open>The little-endian bytes of words, as they lie in memory.\<close>

definition word_bytes :: "uint \<Rightarrow> uchar list" where
  "word_bytes w = [ucast w, ucast (drop_bit 8 w), ucast (drop_bit 16 w), ucast (drop_bit 24 w)]"

definition tf_mod :: "nat \<Rightarrow> (trapframe \<Rightarrow> trapframe) \<Rightarrow> ('x proc_state_scheme, unit) K" where
  "tf_mod i f = proc_mod i (\<lambda>p. p\<lparr>p_tf := f (p_tf p)\<rparr>)"

section \<open>The first process\<close>

definition zero_tf :: trapframe where
  "zero_tf = \<lparr>tf_edi = 0, tf_esi = 0, tf_ebp = 0, tf_oesp = 0, tf_ebx = 0, tf_edx = 0, tf_ecx = 0, tf_eax = 0,
     tf_gs = 0, tf_fs = 0, tf_es = 0, tf_ds = 0, tf_trapno = 0, tf_err = 0, tf_eip = 0, tf_cs = 0, tf_eflags = 0,
     tf_esp = 0, tf_ss = 0\<rparr>"

text \<open>\<open>initcode\<close> is the program assembled from initcode.S.\<close>

definition userinit :: "uchar list \<Rightarrow> ('x thread_state_scheme, unit) K" where
  "userinit initcode = kbind allocproc (\<lambda>p. need ''null process'' p (\<lambda>i.
     kthen [kmod (\<lambda>s. s\<lparr>initproc := Some i\<rparr>)]
       (kbind setupkvm (\<lambda>pg.
        kthen [proc_mod i (\<lambda>p. p\<lparr>p_pgdir := pg\<rparr>)]
          (if pg = 0 then kpanic ''userinit: out of memory?''
           else kthen [inituvm pg initcode,
                       proc_mod i (\<lambda>p. p\<lparr>p_sz := PGSIZE\<rparr>),
                       tf_mod i (\<lambda>_. zero_tf),
                       tf_mod i (\<lambda>t. t\<lparr>tf_cs := push_bit 3 3 OR 3\<rparr>),
                       tf_mod i (\<lambda>t. t\<lparr>tf_ds := push_bit 3 4 OR 3\<rparr>),
                       tf_mod i (\<lambda>t. t\<lparr>tf_es := tf_ds t\<rparr>),
                       tf_mod i (\<lambda>t. t\<lparr>tf_ss := tf_ds t\<rparr>),
                       tf_mod i (\<lambda>t. t\<lparr>tf_eflags := 0x200\<rparr>),
                       tf_mod i (\<lambda>t. t\<lparr>tf_esp := PGSIZE\<rparr>),
                       tf_mod i (\<lambda>t. t\<lparr>tf_eip := 0\<rparr>),
                       proc_mod i (\<lambda>p. p\<lparr>p_tstack := PGSIZE\<rparr>),
                       proc_mod i (\<lambda>p. p\<lparr>p_name := safestrcpy 16 (p_name p) (bytes_of ''initcode'')\<rparr>)]
                  (kbind (namei (bytes_of ''/'')) (\<lambda>cwd.
                   kdo [proc_mod i (\<lambda>p. p\<lparr>p_cwd := cwd\<rparr>),
                        acquire PtableLock,
                        proc_mod i (\<lambda>p. p\<lparr>p_state := RUNNABLE\<rparr>),
                        release PtableLock])))))))"

definition forkret :: "('x thread_state_scheme, unit) K" where
  "forkret = kthen [release PtableLock] (kbind (kgets fork_first) (\<lambda>first.
     kwhen first (kdo [kmod (\<lambda>s. s\<lparr>fork_first := False\<rparr>), iinit (of_nat ROOTDEV), initlog (of_nat ROOTDEV)])))"

section \<open>clone\<close>

text \<open>The failure exits: the kernel stack is freed and the slot given back.\<close>

definition clone_free :: "nat \<Rightarrow> ('x thread_state_scheme, unit) K" where
  "clone_free np = kdo [kbind (proc_get np p_kstack) kfree,
     proc_mod np (\<lambda>p. p\<lparr>p_kstack := 0\<rparr>),
     proc_mod np (\<lambda>p. p\<lparr>p_state := UNUSED\<rparr>)]"

text \<open>Each step says whether \<open>clone\<close> goes on.\<close>

definition clone_space :: "nat \<Rightarrow> nat \<Rightarrow> uint \<Rightarrow> ('x thread_state_scheme, bool) K" where
  "clone_space np tleader flags = kbind (proc_get tleader id) (\<lambda>l.
     if flag flags CLONE_VM then kthen [proc_mod np (\<lambda>p. p\<lparr>p_pgdir := p_pgdir l\<rparr>)] (kret True)
     else kbind (copyuvm (p_pgdir l) (p_sz l)) (\<lambda>pg.
       kthen [proc_mod np (\<lambda>p. p\<lparr>p_pgdir := pg\<rparr>)]
         (if pg = 0 then kthen [clone_free np] (kret False) else kret True)))"

definition clone_stack :: "nat \<Rightarrow> nat \<Rightarrow> nat \<Rightarrow> addr \<Rightarrow> uint \<Rightarrow> ('x thread_state_scheme, bool) K" where
  "clone_stack np cur tleader child_stack flags = kbind (proc_get tleader id) (\<lambda>l.
     if flag flags CLONE_VM then
       if child_stack = 0 then
         kbind (cloneuvm (p_pgdir l) (p_sz l) (p_tstack l - 2 * PGSIZE)) (\<lambda>st.
         kthen [proc_mod np (\<lambda>p. p\<lparr>p_tstack := st\<rparr>)]
           (if st = 0 then kthen [clone_free np] (kret False)
            else kthen [proc_mod np (\<lambda>p. p\<lparr>p_tstackalloc := True\<rparr>)] (kret True)))
       else kthen [proc_mod np (\<lambda>p. p\<lparr>p_tstack := child_stack\<rparr>)] (kret True)
     else kthen [proc_mod np (\<lambda>p. p\<lparr>p_tstack := p_tstack l\<rparr>)]
       (if cur \<noteq> tleader then
          kbind (kgets procs) (\<lambda>ps.
          kbind (copy_thread_stack (p_pgdir (ps ! np)) (p_tstack (ps ! np) - PGSIZE)
                   (p_pgdir l) (p_tstack (ps ! cur) - PGSIZE)) (\<lambda>r. kret (r \<noteq> - 1)))
        else kret True))"

definition clone_frame :: "nat \<Rightarrow> nat \<Rightarrow> nat \<Rightarrow> addr \<Rightarrow> uint \<Rightarrow> addr \<Rightarrow> ('x thread_state_scheme, bool) K" where
  "clone_frame np cur tleader func flags args =
     kthen [kbind (proc_get cur p_tf) (\<lambda>t. tf_mod np (\<lambda>_. t))]
       (kbind (kgets procs) (\<lambda>ps.
        kbind (if flag flags CLONE_VM then
                 let sp = p_tstack (ps ! np) - 2 * 4 in
                 kbind (copyout (p_pgdir (ps ! np)) sp (word_bytes 0xffffffff @ word_bytes args)) (\<lambda>r.
                 if r = - 1 then kthen [clone_free np] (kret None) else kret (Some sp))
               else
                 kthen [tf_mod np (\<lambda>t. t\<lparr>tf_eax := 0\<rparr>),
                        kwhen (cur \<noteq> tleader) (tf_mod np (\<lambda>t. t\<lparr>tf_esp :=
                          p_tstack (ps ! np) - (p_tstack (ps ! cur) - tf_esp t)\<rparr>))]
                   (kbind (proc_get np p_tf) (\<lambda>t. kret (Some (tf_esp t))))) (\<lambda>r.
        case r of
          None \<Rightarrow> kret False
        | Some sp \<Rightarrow> kthen [tf_mod np (\<lambda>t. t\<lparr>tf_eip := func\<rparr>), tf_mod np (\<lambda>t. t\<lparr>tf_esp := sp\<rparr>)] (kret True))))"

text \<open>One descriptor. Without \<open>CLONE_FILES\<close> the new table entry is used unchecked and a pipe is copied by its
  (null or stale) inode.\<close>

definition clone_file :: "nat \<Rightarrow> nat \<Rightarrow> uint \<Rightarrow> nat \<Rightarrow> ('x thread_state_scheme, unit) K" where
  "clone_file np cur flags fd = kbind (proc_get cur (\<lambda>p. p_ofile p ! fd)) (\<lambda>fo. case fo of
     None \<Rightarrow> kret ()
   | Some f \<Rightarrow>
     if flag flags CLONE_FILES then
       kbind (filedup f) (\<lambda>g. proc_mod np (\<lambda>p. p\<lparr>p_ofile := (p_ofile p)[fd := Some g]\<rparr>))
     else
       kbind filealloc (\<lambda>g. kthen [proc_mod np (\<lambda>p. p\<lparr>p_ofile := (p_ofile p)[fd := g]\<rparr>)]
         (need ''null file'' g (\<lambda>g.
           kthen [kbind (file_get f f_type) (\<lambda>ty. file_mod g (\<lambda>x. x\<lparr>f_type := ty\<rparr>)),
                  kbind (file_get f f_ip) (\<lambda>ip. kbind (idup ip) (\<lambda>ip. file_mod g (\<lambda>x. x\<lparr>f_ip := Some ip\<rparr>))),
                  file_mod g (\<lambda>x. x\<lparr>f_off := 0\<rparr>),
                  kbind (file_get f f_readable) (\<lambda>b. file_mod g (\<lambda>x. x\<lparr>f_readable := b\<rparr>)),
                  kbind (file_get f f_writable) (\<lambda>b. file_mod g (\<lambda>x. x\<lparr>f_writable := b\<rparr>))]
             (kret ())))))"

definition clone_ids :: "nat \<Rightarrow> nat \<Rightarrow> uint \<Rightarrow> ('x thread_state_scheme, int) K" where
  "clone_ids np cur flags =
     (if flag flags CLONE_THREAD then
        kthen [proc_mod np (\<lambda>p. p\<lparr>p_tid := p_pid p\<rparr>),
               kbind (proc_get cur p_pid) (\<lambda>pid. proc_mod np (\<lambda>p. p\<lparr>p_pid := pid\<rparr>))]
          (proc_get np p_tid)
      else kthen [proc_mod np (\<lambda>p. p\<lparr>p_tid := - 1\<rparr>)] (proc_get np p_pid))"

text \<open>What follows once nothing can fail any more.\<close>

definition clone_finish :: "nat \<Rightarrow> nat \<Rightarrow> uint \<Rightarrow> ('x thread_state_scheme, int) K" where
  "clone_finish np cur flags =
     kthen [keach (clone_file np cur flags) [0..<NOFILE],
            kwhen (flag flags CLONE_FS)
              (kbind (proc_get cur p_cwd) (\<lambda>d. kbind (idup d) (\<lambda>d. proc_mod np (\<lambda>p. p\<lparr>p_cwd := Some d\<rparr>)))),
            kbind (proc_get cur p_name) (\<lambda>n. proc_mod np (\<lambda>p. p\<lparr>p_name := safestrcpy 16 (p_name p) n\<rparr>))]
       (kbind (clone_ids np cur flags) (\<lambda>retid.
        kthen [acquire PtableLock,
               proc_mod np (\<lambda>p. p\<lparr>p_state := RUNNABLE\<rparr>),
               release PtableLock] (kret retid)))"

definition clone :: "addr \<Rightarrow> addr \<Rightarrow> uint \<Rightarrow> addr \<Rightarrow> ('x thread_state_scheme, int) K" where
  "clone func child_stack flags args = with_myproc (\<lambda>cur.
     kbind allocproc (\<lambda>np. case np of None \<Rightarrow> kret (- 1) | Some np \<Rightarrow>
     kbind (kgets (\<lambda>s. thread_leader s cur)) (\<lambda>l. need ''null process'' l (\<lambda>tleader.
     kthen [kbind (proc_get tleader p_sz) (\<lambda>sz. proc_mod np (\<lambda>p. p\<lparr>p_sz := sz\<rparr>)),
            kbind (proc_get tleader p_parent) (\<lambda>par.
              proc_mod np (\<lambda>p. p\<lparr>p_parent := if flag flags CLONE_PARENT then par else Some tleader\<rparr>))]
       (kbind (clone_space np tleader flags) (\<lambda>ok. if \<not> ok then kret (- 1) else
        kbind (clone_stack np cur tleader child_stack flags) (\<lambda>ok. if \<not> ok then kret (- 1) else
        kbind (clone_frame np cur tleader func flags args) (\<lambda>ok. if \<not> ok then kret (- 1) else
        clone_finish np cur flags))))))))"

definition fork :: "('x thread_state_scheme, int) K" where
  "fork = with_myproc (\<lambda>cur. kbind (proc_get cur p_tf) (\<lambda>t. clone (tf_eip t) 0 (CLONE_FS OR CLONE_FILES) 0))"

section \<open>exit\<close>

text \<open>Children of the exiting process, threads apart, go to \<open>init\<close>.\<close>

definition exit_reparent :: "nat \<Rightarrow> nat \<Rightarrow> ('x thread_state_scheme, unit) K" where
  "exit_reparent cur i = kbind (kgets procs) (\<lambda>ps. kbind (kgets initproc) (\<lambda>ini.
     kwhen (p_parent (ps ! i) = Some cur \<and> p_tid (ps ! i) = - 1)
       (kdo [proc_mod i (\<lambda>p. p\<lparr>p_parent := ini\<rparr>),
             kwhen (p_state (ps ! i) = ZOMBIE) (wakeup1 (map_option Ch_proc ini))])))"

definition exit_last :: "nat \<Rightarrow> ('x thread_state_scheme, 'a) K" where
  "exit_last cur = kthen [acquire PtableLock,
     kbind (proc_get cur p_tid) (\<lambda>tid. kwhen (tid \<noteq> - 1)
       (kbind (kgets (\<lambda>s. thread_leader s cur)) (\<lambda>l. wakeup1 (map_option Ch_proc l)))),
     kbind (proc_get cur p_parent) (\<lambda>par. wakeup1 (map_option Ch_proc par)),
     keach (exit_reparent cur) [0..<NPROC],
     proc_mod cur (\<lambda>p. p\<lparr>p_state := ZOMBIE\<rparr>),
     sched] (kpanic ''zombie exit'')"

definition exit_group :: "nat \<Rightarrow> ('x thread_state_scheme, 'a) K" where
  "exit_group cur = kbind (proc_get cur p_tid) (\<lambda>tid.
     if tid = - 1 then kbind tgkill (\<lambda>_. exit_last cur) else exit_last cur)"

definition exit_group_resume :: "bool \<Rightarrow> nat \<Rightarrow> ('x thread_state_scheme, 'a) K" where
  "exit_group_resume saved cur = kbind (tgkill_resume saved cur) (\<lambda>_. exit_last cur)"

definition exit_cwd :: "nat \<Rightarrow> ('x thread_state_scheme, 'a) K" where
  "exit_cwd cur = kthen [kbind (proc_get cur p_cwd) iput, end_op,
     proc_mod cur (\<lambda>p. p\<lparr>p_cwd := None\<rparr>)] (exit_group cur)"

definition exit_cwd_resume :: "bool \<Rightarrow> nat \<Rightarrow> ('x thread_state_scheme, 'a) K" where
  "exit_cwd_resume saved cur = kthen [begin_op_resume saved] (exit_cwd cur)"

definition exit_close :: "nat \<Rightarrow> nat \<Rightarrow> ('x thread_state_scheme, unit) K" where
  "exit_close cur fd = kbind (proc_get cur (\<lambda>p. p_ofile p ! fd)) (\<lambda>fo. case fo of
     None \<Rightarrow> kret ()
   | Some f \<Rightarrow> kdo [fileclose f, proc_mod cur (\<lambda>p. p\<lparr>p_ofile := (p_ofile p)[fd := None]\<rparr>)])"

definition exit :: "('x thread_state_scheme, 'a) K" where
  "exit = with_myproc (\<lambda>cur. kbind (kgets initproc) (\<lambda>ini.
     if ini = Some cur then kpanic ''init exiting''
     else kthen [keach (exit_close cur) [0..<NOFILE], begin_op] (exit_cwd cur)))"

end
