(* ===== verification/Xv6_Exec.thy ===== *)
theory Xv6_Exec
  imports Xv6_Thread
begin

text \<open>
  exec.c, elf.h and \<open>loaduvm\<close> of vm.c. The path and the arguments are the strings the pointers name when the
  call is made. \<open>exec\<close> is split where it can give up the processor, in \<open>tgkill\<close> and in \<open>begin_op\<close>.
\<close>

section \<open>elf.h\<close>

record elfhdr =
  elf_magic :: uint
  elf_entry :: uint
  elf_phoff :: uint
  elf_phnum :: ushort

definition elfhdr_of :: "uchar list \<Rightarrow> elfhdr" where
  "elfhdr_of d = \<lparr>elf_magic = get32 d 0, elf_entry = get32 d 24, elf_phoff = get32 d 28, elf_phnum = get16 d 44\<rparr>"

record proghdr =
  ph_type :: uint
  ph_off :: uint
  ph_vaddr :: uint
  ph_filesz :: uint
  ph_memsz :: uint

definition proghdr_of :: "uchar list \<Rightarrow> proghdr" where
  "proghdr_of d = \<lparr>ph_type = get32 d 0, ph_off = get32 d 4, ph_vaddr = get32 d 8, ph_filesz = get32 d 16, ph_memsz = get32 d 20\<rparr>"

abbreviation (input) ELF_MAGIC :: uint where "ELF_MAGIC \<equiv> 0x464C457F"
abbreviation (input) ELF_PROG_LOAD :: uint where "ELF_PROG_LOAD \<equiv> 1"

section \<open>loaduvm (vm.c)\<close>

primrec loaduvm_loop :: "nat \<Rightarrow> addr \<Rightarrow> addr \<Rightarrow> nat \<Rightarrow> uint \<Rightarrow> uint \<Rightarrow> uint \<Rightarrow> ('x thread_state_scheme, int) K" where
  "loaduvm_loop 0 pgdir a ip offset i sz = (if i < sz then kspin else kret 0)"
| "loaduvm_loop (Suc f) pgdir a ip offset i sz =
     (if i < sz then
        kbind (walkpgdir pgdir (a + i) False) (\<lambda>pte.
        if pte = 0 then kpanic ''loaduvm: address should exist''
        else kbind (rd pte) (\<lambda>e.
          let pa = PTE_ADDR e; n = (if sz - i < PGSIZE then sz - i else PGSIZE) in
          kbind (readi ip (offset + i) n) (\<lambda>(r, bs).
          kthen [mem_mod (put_bytes bs (P2V pa))]
            (if uint_of r \<noteq> n then kret (- 1) else loaduvm_loop f pgdir a ip offset (i + PGSIZE) sz))))
      else kret 0)"

definition loaduvm :: "addr \<Rightarrow> addr \<Rightarrow> nat \<Rightarrow> uint \<Rightarrow> uint \<Rightarrow> ('x thread_state_scheme, int) K" where
  "loaduvm pgdir a ip offset sz =
     (if a mod PGSIZE \<noteq> 0 then kpanic ''loaduvm: addr must be page aligned''
      else loaduvm_loop (Suc (unat sz div 4096)) pgdir a ip offset 0 sz)"

section \<open>exec\<close>

text \<open>A thread that calls \<open>exec\<close> becomes the leader of its group and kills the others.\<close>

definition exec_adopt :: "nat \<Rightarrow> nat \<Rightarrow> proc \<Rightarrow> proc" where
  "exec_adopt cur tleader p = (if p_parent p = Some tleader \<and> p_tid p = - 1 then p\<lparr>p_parent := Some cur\<rparr> else p)"

definition exec_kill_peer :: "nat \<Rightarrow> int \<Rightarrow> nat \<Rightarrow> proc \<Rightarrow> proc" where
  "exec_kill_peer cur pid i p = (if p_pid p = pid \<and> i \<noteq> cur then p\<lparr>p_parent := Some cur, p_killed := True\<rparr> else p)"

definition exec_takeover :: "nat \<Rightarrow> nat \<Rightarrow> ('x thread_state_scheme, unit) K" where
  "exec_takeover cur tleader = kdo [
     kbind (proc_get cur p_tid) (\<lambda>t. proc_mod tleader (\<lambda>p. p\<lparr>p_tid := t\<rparr>)),
     proc_mod cur (\<lambda>p. p\<lparr>p_tid := - 1\<rparr>),
     kbind (proc_get tleader p_parent) (\<lambda>par. proc_mod cur (\<lambda>p. p\<lparr>p_parent := par\<rparr>)),
     kmod (\<lambda>s. s\<lparr>procs := map (exec_adopt cur tleader) (procs s)\<rparr>),
     kmod (\<lambda>s. s\<lparr>procs := map2 (exec_kill_peer cur (p_pid (procs s ! cur))) [0..<length (procs s)] (procs s)\<rparr>),
     kbind (proc_get cur id) (\<lambda>p. kwhen (p_tstackalloc p) (freecloneuvm (p_pgdir p) (p_tstack p)))]"

text \<open>The label \<open>bad\<close>.\<close>

definition exec_bad :: "addr \<Rightarrow> nat option \<Rightarrow> ('x thread_state_scheme, int) K" where
  "exec_bad pgdir ip = kthen [kwhen (pgdir \<noteq> 0) (freevm pgdir),
     kwhen (ip \<noteq> None) (kdo [iunlockput ip, end_op])] (kret (- 1))"

text \<open>The loop over the program headers; \<open>None\<close> is a jump to \<open>bad\<close>.\<close>

primrec exec_segments :: "nat \<Rightarrow> nat \<Rightarrow> addr \<Rightarrow> uint \<Rightarrow> uint \<Rightarrow> ('x thread_state_scheme, uint option) K" where
  "exec_segments 0 ip pgdir off sz = kret (Some sz)"
| "exec_segments (Suc n) ip pgdir off sz =
     kbind (readi ip off 32) (\<lambda>(r, d). let ph = proghdr_of d in
     if r \<noteq> 32 then kret None
     else if ph_type ph \<noteq> ELF_PROG_LOAD then exec_segments n ip pgdir (off + 32) sz
     else if ph_memsz ph < ph_filesz ph then kret None
     else if ph_vaddr ph + ph_memsz ph < ph_vaddr ph then kret None
     else kbind (allocuvm pgdir sz (ph_vaddr ph + ph_memsz ph)) (\<lambda>sz.
       if sz = 0 then kret None
       else if ph_vaddr ph mod PGSIZE \<noteq> 0 then kret None
       else kbind (loaduvm pgdir (ph_vaddr ph) ip (ph_off ph) (ph_filesz ph)) (\<lambda>r.
         if r < 0 then kret None else exec_segments n ip pgdir (off + 32) sz)))"

text \<open>The argument strings: the final \<open>sp\<close> and the addresses pushed so far.\<close>

primrec exec_push :: "cstr list \<Rightarrow> addr \<Rightarrow> addr \<Rightarrow> uint list \<Rightarrow> ('x thread_state_scheme, (addr \<times> uint list) option) K" where
  "exec_push [] pgdir sp us = kret (Some (sp, us))"
| "exec_push (a # as) pgdir sp us =
     (if length us \<ge> MAXARG then kret None
      else let sp = (sp - of_nat (strlen a + 1)) AND NOT 3 in
        kbind (copyout pgdir sp (str_of a @ [0])) (\<lambda>r.
        if r < 0 then kret None else exec_push as pgdir sp (us @ [sp])))"

definition exec_ustack :: "addr \<Rightarrow> uint list \<Rightarrow> uint list" where
  "exec_ustack sp us = [0xffffffff, of_nat (length us), sp - of_nat ((length us + 1) * 4)] @ us @ [0]"

primrec path_last :: "cstr \<Rightarrow> cstr \<Rightarrow> cstr" where
  "path_last [] l = l"
| "path_last (c # s) l = (if c = 0 then l else path_last s (if c = 47 then s else l))"

definition exec_commit :: "nat \<Rightarrow> cstr \<Rightarrow> addr \<Rightarrow> uint \<Rightarrow> uint \<Rightarrow> addr \<Rightarrow> ('x thread_state_scheme, int) K" where
  "exec_commit cur path pgdir sz entry sp = kbind (proc_get cur p_pgdir) (\<lambda>oldpgdir.
     kthen [proc_mod cur (\<lambda>p. p\<lparr>p_name := safestrcpy 16 (p_name p) (path_last path path)\<rparr>),
            proc_mod cur (\<lambda>p. p\<lparr>p_pgdir := pgdir\<rparr>),
            proc_mod cur (\<lambda>p. p\<lparr>p_sz := sz\<rparr>),
            proc_mod cur (\<lambda>p. p\<lparr>p_tstack := sz\<rparr>),
            proc_mod cur (\<lambda>p. p\<lparr>p_tstackalloc := False\<rparr>),
            tf_mod cur (\<lambda>t. t\<lparr>tf_eip := entry\<rparr>),
            tf_mod cur (\<lambda>t. t\<lparr>tf_esp := sp\<rparr>),
            switchuvm (Some cur),
            freevm oldpgdir] (kret 0))"

definition exec_stack :: "nat \<Rightarrow> cstr \<Rightarrow> cstr list \<Rightarrow> addr \<Rightarrow> uint \<Rightarrow> uint \<Rightarrow> ('x thread_state_scheme, int) K" where
  "exec_stack cur path argv pgdir sz entry = (let sz = PGROUNDUP sz in
     kbind (allocuvm pgdir sz (sz + 2 * PGSIZE)) (\<lambda>sz.
     if sz = 0 then exec_bad pgdir None
     else kthen [clearpteu pgdir (sz - 2 * PGSIZE)]
       (kbind (exec_push argv pgdir sz []) (\<lambda>r. case r of
          None \<Rightarrow> exec_bad pgdir None
        | Some (sp, us) \<Rightarrow>
          let ustack = exec_ustack sp us; sp = sp - of_nat ((3 + length us + 1) * 4) in
          kbind (copyout pgdir sp (concat (map word_bytes ustack))) (\<lambda>r.
          if r < 0 then exec_bad pgdir None
          else exec_commit cur path pgdir sz entry sp)))))"

text \<open>From \<open>namei\<close> on, inside the transaction.\<close>

definition exec_image :: "nat \<Rightarrow> cstr \<Rightarrow> cstr list \<Rightarrow> ('x thread_state_scheme, int) K" where
  "exec_image cur path argv = kbind (namei path) (\<lambda>ip. case ip of
     None \<Rightarrow> kthen [end_op, cprintf (Some (bytes_of ''exec: fail'' @ [10])) []] (kret (- 1))
   | Some i \<Rightarrow>
     kthen [ilock ip]
       (kbind (readi i 0 52) (\<lambda>(r, d). let elf = elfhdr_of d in
        if r \<noteq> 52 then exec_bad 0 ip
        else if elf_magic elf \<noteq> ELF_MAGIC then exec_bad 0 ip
        else kbind setupkvm (\<lambda>pgdir.
          if pgdir = 0 then exec_bad 0 ip
          else kbind (exec_segments (unat (elf_phnum elf)) i pgdir (elf_phoff elf) 0) (\<lambda>r. case r of
            None \<Rightarrow> exec_bad pgdir ip
          | Some sz \<Rightarrow> kthen [iunlockput ip, end_op] (exec_stack cur path argv pgdir sz (elf_entry elf)))))))"

definition exec_image_resume :: "bool \<Rightarrow> nat \<Rightarrow> cstr \<Rightarrow> cstr list \<Rightarrow> ('x thread_state_scheme, int) K" where
  "exec_image_resume saved cur path argv = kthen [begin_op_resume saved] (exec_image cur path argv)"

definition exec_load :: "nat \<Rightarrow> cstr \<Rightarrow> cstr list \<Rightarrow> ('x thread_state_scheme, int) K" where
  "exec_load cur path argv = kthen [begin_op] (exec_image cur path argv)"

definition exec_load_resume :: "bool \<Rightarrow> nat \<Rightarrow> cstr \<Rightarrow> cstr list \<Rightarrow> ('x thread_state_scheme, int) K" where
  "exec_load_resume saved cur path argv = kbind (tgkill_resume saved cur) (\<lambda>_. exec_load cur path argv)"

definition exec :: "cstr \<Rightarrow> cstr list \<Rightarrow> ('x thread_state_scheme, int) K" where
  "exec path argv = with_myproc (\<lambda>cur. kbind (kgets (\<lambda>s. thread_leader s cur)) (\<lambda>l.
     kthen [acquire PtableLock,
            kbind (proc_get cur p_tid) (\<lambda>t. kwhen (t \<noteq> - 1) (need ''null process'' l (exec_takeover cur))),
            release PtableLock]
       (kbind tgkill (\<lambda>_. exec_load cur path argv))))"

end
