(* ===== verification/Xv6_Syscall.thy ===== *)
theory Xv6_Syscall
  imports Xv6_Exec
begin

text \<open>
  syscall.c, sysproc.c, sysfile.c and trap.c. The kernel reads and writes user memory through the page table
  in \<open>cr3\<close>; an address that is not mapped there makes the kernel take a page fault, which ends in
  \<open>panic("trap")\<close>. A function that returns -1 or stores its result through a pointer returns \<open>None\<close> or
  \<open>Some\<close> of what it stores. Strings and buffers are passed on as the bytes they hold when the call is made.
  A system call that sleeps is continued from the \<open>resume\<close> operation of what it sleeps in.
\<close>

record trap_state = thread_state +
  ticks :: uint
  kbd_shift :: uint

section \<open>User memory\<close>

definition user_pte :: "'x proc_state_scheme \<Rightarrow> addr \<Rightarrow> uint" where
  "user_pte s va = pte_of (mem s) (P2V (cr3 s)) va"

definition user_pa :: "'x proc_state_scheme \<Rightarrow> addr \<Rightarrow> addr" where
  "user_pa s va = P2V (PTE_ADDR (user_pte s va)) + (va AND 0xFFF)"

definition load_byte :: "addr \<Rightarrow> ('x proc_state_scheme, uchar) K" where
  "load_byte va = kbind (kgets (\<lambda>s. user_pte s va)) (\<lambda>e.
     if e AND PTE_P = 0 then kpanic ''trap'' else kgets (\<lambda>s. mem s (user_pa s va)))"

primrec load_user :: "nat \<Rightarrow> addr \<Rightarrow> ('x proc_state_scheme, uchar list) K" where
  "load_user 0 va = kret []"
| "load_user (Suc n) va = kbind (load_byte va) (\<lambda>b. kbind (load_user n (va + 1)) (\<lambda>bs. kret (b # bs)))"

text \<open>The kernel runs with write protection on (entry.S sets \<open>CR0_WP\<close>).\<close>

primrec store_user :: "uchar list \<Rightarrow> addr \<Rightarrow> ('x proc_state_scheme, unit) K" where
  "store_user [] va = kret ()"
| "store_user (b # bs) va = kbind (kgets (\<lambda>s. user_pte s va)) (\<lambda>e.
     if e AND PTE_P = 0 \<or> e AND PTE_W = 0 then kpanic ''trap''
     else kthen [kmod (\<lambda>s. s\<lparr>mem := (mem s)(user_pa s va := b)\<rparr>)] (store_user bs (va + 1)))"

section \<open>syscall.c: arguments\<close>

text \<open>The bound on user addresses: the size of a process, the stack top of a thread.\<close>

definition user_top :: "proc \<Rightarrow> addr" where
  "user_top p = (if p_tid p = - 1 then p_sz p else p_tstack p)"

definition fetchint :: "addr \<Rightarrow> ('x proc_state_scheme, uint option) K" where
  "fetchint a = with_myproc (\<lambda>i. kbind (proc_get i user_top) (\<lambda>top.
     if a \<ge> top \<or> a + 4 > top then kret None
     else kbind (load_user 4 a) (\<lambda>bs. kret (Some (get32 bs 0)))))"

primrec fetchstr_loop :: "nat \<Rightarrow> addr \<Rightarrow> ('x proc_state_scheme, cstr option) K" where
  "fetchstr_loop 0 a = kret None"
| "fetchstr_loop (Suc n) a = kbind (load_byte a) (\<lambda>c.
     if c = 0 then kret (Some [])
     else kbind (fetchstr_loop n (a + 1)) (\<lambda>r. kret (map_option (Cons c) r)))"

definition fetchstr :: "addr \<Rightarrow> ('x proc_state_scheme, cstr option) K" where
  "fetchstr a = with_myproc (\<lambda>i. kbind (proc_get i id) (\<lambda>p.
     if a \<ge> user_top p then kret None
     else fetchstr_loop (unat (p_sz p) - unat a) a))"

definition argint :: "nat \<Rightarrow> ('x proc_state_scheme, uint option) K" where
  "argint n = with_myproc (\<lambda>i. kbind (proc_get i p_tf) (\<lambda>t. fetchint (tf_esp t + 4 + of_nat (4 * n))))"

definition argptr :: "nat \<Rightarrow> int \<Rightarrow> ('x proc_state_scheme, addr option) K" where
  "argptr n len = with_myproc (\<lambda>cur. kbind (argint n) (\<lambda>r. case r of
     None \<Rightarrow> kret None
   | Some i \<Rightarrow> kbind (proc_get cur user_top) (\<lambda>top.
       if len < 0 \<or> i \<ge> top \<or> i + uint_of len > top then kret None else kret (Some i))))"

definition argstr :: "nat \<Rightarrow> ('x proc_state_scheme, cstr option) K" where
  "argstr n = kbind (argint n) (\<lambda>r. case r of None \<Rightarrow> kret None | Some a \<Rightarrow> fetchstr a)"

text \<open>\<open>if (... < 0) return -1;\<close>\<close>

definition karg :: "('s, 'a option) K \<Rightarrow> ('a \<Rightarrow> ('s, int) K) \<Rightarrow> ('s, int) K" where
  "karg m f = kbind m (\<lambda>r. case r of None \<Rightarrow> kret (- 1) | Some v \<Rightarrow> f v)"

definition my_leader :: "(nat \<Rightarrow> ('x proc_state_scheme, 'a) K) \<Rightarrow> ('x proc_state_scheme, 'a) K" where
  "my_leader f = with_myproc (\<lambda>i. kbind (kgets (\<lambda>s. thread_leader s i)) (\<lambda>l. need ''null process'' l f))"

section \<open>sysproc.c\<close>

definition sys_fork :: "('x trap_state_scheme, int) K" where
  "sys_fork = fork"

definition sys_clone :: "('x trap_state_scheme, int) K" where
  "sys_clone = karg (argptr 0 0) (\<lambda>func. karg (argint 1) (\<lambda>child_stack. karg (argint 2) (\<lambda>flags. karg (argptr 3 0) (\<lambda>args.
     my_leader (\<lambda>l. kbind (proc_get l p_sz) (\<lambda>sz.
       if sz < args then kret (- 1)
       else if sz \<le> child_stack \<and> sz < child_stack - PGSIZE then kret (- 1)
       else clone func child_stack flags args))))))"

definition sys_join :: "('x trap_state_scheme, int) K" where
  "sys_join = karg (argint 0) (\<lambda>tid. join (cint tid))"

definition sys_exit :: "('x trap_state_scheme, int) K" where
  "sys_exit = kthen [exit] (kret 0)"

definition sys_wait :: "('x trap_state_scheme, int) K" where
  "sys_wait = wait"

definition sys_kill :: "('x trap_state_scheme, int) K" where
  "sys_kill = karg (argint 0) (\<lambda>pid. kill (cint pid))"

definition sys_tkill :: "('x trap_state_scheme, int) K" where
  "sys_tkill = karg (argint 0) (\<lambda>tid. tkill (cint tid))"

definition sys_tgkill :: "('x trap_state_scheme, int) K" where
  "sys_tgkill = tgkill"

definition sys_getpid :: "('x trap_state_scheme, int) K" where
  "sys_getpid = with_myproc (\<lambda>i. proc_get i p_pid)"

definition sys_gettid :: "('x trap_state_scheme, int) K" where
  "sys_gettid = with_myproc (\<lambda>i. kbind (proc_get i p_tid) (\<lambda>t. if t = - 1 then sys_getpid else kret t))"

definition sys_sbrk :: "('x trap_state_scheme, int) K" where
  "sys_sbrk = karg (argint 0) (\<lambda>n.
     kthen [my_leader (\<lambda>l. acquire (ThreadLock l))]
       (kbind (my_leader (\<lambda>l. proc_get l p_sz)) (\<lambda>a.
        kbind (growproc (cint n)) (\<lambda>r.
        kthen [my_leader (\<lambda>l. release (ThreadLock l))]
          (if r < 0 then kret (- 1) else kret (cint a))))))"

definition sys_sleep_loop :: "uint \<Rightarrow> uint \<Rightarrow> ('x trap_state_scheme, int) K" where
  "sys_sleep_loop ticks0 n = kbind (kgets ticks) (\<lambda>t.
     if t - ticks0 < n then
       with_myproc (\<lambda>i. kbind (proc_get i p_killed) (\<lambda>k.
         if k then kthen [release TicksLock] (kret (- 1)) else sleep (Some Ch_ticks) TicksLock))
     else kthen [release TicksLock] (kret 0))"

definition sys_sleep :: "('x trap_state_scheme, int) K" where
  "sys_sleep = karg (argint 0) (\<lambda>n.
     kthen [acquire TicksLock] (kbind (kgets ticks) (\<lambda>ticks0. sys_sleep_loop ticks0 n)))"

definition sys_sleep_resume :: "bool \<Rightarrow> uint \<Rightarrow> uint \<Rightarrow> ('x trap_state_scheme, int) K" where
  "sys_sleep_resume saved ticks0 n = kthen [sleep_return saved TicksLock] (sys_sleep_loop ticks0 n)"

definition sys_uptime :: "('x trap_state_scheme, int) K" where
  "sys_uptime = kthen [acquire TicksLock] (kbind (kgets ticks) (\<lambda>x. kthen [release TicksLock] (kret (cint x))))"

definition sys_tsuspend :: "('x trap_state_scheme, int) K" where
  "sys_tsuspend = tsuspend"

definition sys_tresume :: "('x trap_state_scheme, int) K" where
  "sys_tresume = karg (argint 0) (\<lambda>tid. tresume (cint tid))"

section \<open>sysfile.c: descriptors\<close>

definition argfd :: "nat \<Rightarrow> ('x proc_state_scheme, (nat \<times> nat) option) K" where
  "argfd n = kbind (argint n) (\<lambda>r. case r of None \<Rightarrow> kret None | Some w \<Rightarrow>
     if cint w < 0 \<or> cint w \<ge> int NOFILE then kret None
     else with_myproc (\<lambda>i. proc_get i (\<lambda>p. map_option (Pair (unat w)) (p_ofile p ! unat w))))"

definition fdalloc :: "nat \<Rightarrow> ('x proc_state_scheme, int) K" where
  "fdalloc f = with_myproc (\<lambda>i. kbind (proc_get i (\<lambda>p. index_of (\<lambda>fd. p_ofile p ! fd = None) [0..<NOFILE])) (\<lambda>r.
     case r of
       None \<Rightarrow> kret (- 1)
     | Some fd \<Rightarrow> kthen [proc_mod i (\<lambda>p. p\<lparr>p_ofile := (p_ofile p)[fd := Some f]\<rparr>)] (kret (int fd))))"

definition fdfree :: "nat \<Rightarrow> ('x proc_state_scheme, unit) K" where
  "fdfree fd = with_myproc (\<lambda>i. proc_mod i (\<lambda>p. p\<lparr>p_ofile := (p_ofile p)[fd := None]\<rparr>))"

definition sys_hello :: "('x trap_state_scheme, unit) K" where
  "sys_hello = cprintf (Some (bytes_of ''Hello system call'' @ [10])) []"

definition sys_dup :: "('x trap_state_scheme, int) K" where
  "sys_dup = karg (argfd 0) (\<lambda>(_, f). kbind (fdalloc f) (\<lambda>fd.
     if fd < 0 then kret (- 1) else kbind (filedup f) (\<lambda>_. kret fd)))"

definition sys_read_end :: "addr \<Rightarrow> ('x trap_state_scheme, int \<times> uchar list) K \<Rightarrow> ('x trap_state_scheme, int) K" where
  "sys_read_end p m = kbind m (\<lambda>(r, bs). kthen [store_user bs p] (kret r))"

definition sys_read :: "('x trap_state_scheme, int) K" where
  "sys_read = karg (argfd 0) (\<lambda>(_, f). karg (argint 2) (\<lambda>n. karg (argptr 1 (cint n)) (\<lambda>p.
     sys_read_end p (fileread f (cint n)))))"

text \<open>The bytes are fetched before the write; that a file is not writable is found first.\<close>

definition sys_write :: "('x trap_state_scheme, int) K" where
  "sys_write = karg (argfd 0) (\<lambda>(_, f). karg (argint 2) (\<lambda>n. karg (argptr 1 (cint n)) (\<lambda>p.
     kbind (file_get f f_writable) (\<lambda>w.
     if \<not> w then filewrite f (cint n) []
     else kbind (load_user (nat (cint n)) p) (\<lambda>src. filewrite f (cint n) src)))))"

definition sys_close :: "('x trap_state_scheme, int) K" where
  "sys_close = karg (argfd 0) (\<lambda>(fd, f). kthen [fdfree fd, fileclose f] (kret 0))"

definition store_stat :: "stat \<Rightarrow> addr \<Rightarrow> ('x trap_state_scheme, unit) K" where
  "store_stat st a = kdo [store_user (put16 0 (st_type st) [0, 0]) a, store_user (word_bytes (st_dev st)) (a + 4),
     store_user (word_bytes (st_ino st)) (a + 8), store_user (put16 0 (st_nlink st) [0, 0]) (a + 12),
     store_user (word_bytes (st_size st)) (a + 16)]"

definition sys_fstat :: "('x trap_state_scheme, int) K" where
  "sys_fstat = karg (argfd 0) (\<lambda>(_, f). karg (argptr 1 20) (\<lambda>p. kbind (filestat f) (\<lambda>(r, st).
     kthen [case st of None \<Rightarrow> kret () | Some st \<Rightarrow> store_stat st p] (kret r))))"

section \<open>sysfile.c: names\<close>

abbreviation (input) no_name :: cstr where "no_name \<equiv> replicate DIRSIZ 0"

definition sys_link_bad :: "nat \<Rightarrow> ('x trap_state_scheme, int) K" where
  "sys_link_bad ip = kthen [ilock (Some ip), ino_mod ip (\<lambda>x. x\<lparr>i_nlink := i_nlink x - 1\<rparr>), iupdate ip,
     iunlockput (Some ip), end_op] (kret (- 1))"

definition sys_link :: "('x trap_state_scheme, int) K" where
  "sys_link = karg (argstr 0) (\<lambda>old. karg (argstr 1) (\<lambda>new.
     kthen [begin_op] (kbind (namei old) (\<lambda>r. case r of
       None \<Rightarrow> kthen [end_op] (kret (- 1))
     | Some ip \<Rightarrow>
       kthen [ilock r] (kbind (ino_get ip i_type) (\<lambda>ty.
         if ty = T_DIR then kthen [iunlockput r, end_op] (kret (- 1))
         else kthen [ino_mod ip (\<lambda>x. x\<lparr>i_nlink := i_nlink x + 1\<rparr>), iupdate ip, iunlock r]
           (kbind (nameiparent new no_name) (\<lambda>(d, name). case d of
              None \<Rightarrow> sys_link_bad ip
            | Some dp \<Rightarrow>
              kthen [ilock d] (kbind (ino_get dp i_dev) (\<lambda>ddev. kbind (ino_get ip id) (\<lambda>x.
                kbind (if ddev \<noteq> i_dev x then kret (- 1) else dirlink dp name (i_inum x)) (\<lambda>rr.
                if rr < 0 then kthen [iunlockput d] (sys_link_bad ip)
                else kthen [iunlockput d, iput r, end_op] (kret 0)))))))))))))"

definition isdirempty :: "nat \<Rightarrow> ('x trap_state_scheme, bool) K" where
  "isdirempty dp = kbind (ino_get dp i_size) (\<lambda>sz.
     kbind (kfor (\<lambda>off. kbind (readi dp off 16) (\<lambda>(r, de).
       if r \<noteq> 16 then kpanic ''isdirempty: readi''
       else if de_inum de \<noteq> 0 then kret (Some ()) else kret None)) (drop 2 (dirent_offs sz))) (\<lambda>found.
     kret (found = None)))"

definition sys_unlink_bad :: "nat option \<Rightarrow> ('x trap_state_scheme, int) K" where
  "sys_unlink_bad d = kthen [iunlockput d, end_op] (kret (- 1))"

text \<open>From the entry found at \<open>off\<close> of directory \<open>dp\<close> on.\<close>

definition sys_unlink_entry :: "nat \<Rightarrow> nat \<Rightarrow> uint \<Rightarrow> ('x trap_state_scheme, int) K" where
  "sys_unlink_entry dp ip off = kthen [ilock (Some ip)] (kbind (ino_get ip id) (\<lambda>x.
     if sint (i_nlink x) < 1 then kpanic ''unlink: nlink < 1''
     else kbind (if i_type x = T_DIR then isdirempty ip else kret True) (\<lambda>empty.
       if \<not> empty then kthen [iunlockput (Some ip)] (sys_unlink_bad (Some dp))
       else kbind (writei dp (replicate 16 0) off) (\<lambda>r.
         if r \<noteq> 16 then kpanic ''unlink: writei''
         else kthen [kwhen (i_type x = T_DIR) (kdo [ino_mod dp (\<lambda>d. d\<lparr>i_nlink := i_nlink d - 1\<rparr>), iupdate dp]),
                     iunlockput (Some dp),
                     ino_mod ip (\<lambda>x. x\<lparr>i_nlink := i_nlink x - 1\<rparr>), iupdate ip,
                     iunlockput (Some ip), end_op] (kret 0)))))"

definition sys_unlink :: "('x trap_state_scheme, int) K" where
  "sys_unlink = karg (argstr 0) (\<lambda>path.
     kthen [begin_op] (kbind (nameiparent path no_name) (\<lambda>(d, name). case d of
       None \<Rightarrow> kthen [end_op] (kret (- 1))
     | Some dp \<Rightarrow>
       kthen [ilock d]
         (if namecmp name (bytes_of ''.'') = 0 \<or> namecmp name (bytes_of ''..'') = 0 then sys_unlink_bad d
          else kbind (dirlookup dp name) (\<lambda>r. case r of
            None \<Rightarrow> sys_unlink_bad d
          | Some (ip, off) \<Rightarrow> sys_unlink_entry dp ip off)))))"

text \<open>The entries of a new directory.\<close>

definition create_dots :: "nat \<Rightarrow> nat \<Rightarrow> ('x trap_state_scheme, unit) K" where
  "create_dots dp ip = kdo [ino_mod dp (\<lambda>x. x\<lparr>i_nlink := i_nlink x + 1\<rparr>), iupdate dp,
     kbind (ino_get ip i_inum) (\<lambda>inum. kbind (dirlink ip (bytes_of ''.'') inum) (\<lambda>r.
       if r < 0 then kpanic ''create dots''
       else kbind (ino_get dp i_inum) (\<lambda>dinum. kbind (dirlink ip (bytes_of ''..'') dinum) (\<lambda>r.
         if r < 0 then kpanic ''create dots'' else kret ()))))]"

definition create :: "cstr \<Rightarrow> ushort \<Rightarrow> ushort \<Rightarrow> ushort \<Rightarrow> ('x trap_state_scheme, nat option) K" where
  "create path type major minor = kbind (nameiparent path no_name) (\<lambda>(d, name). case d of
     None \<Rightarrow> kret None
   | Some dp \<Rightarrow>
     kthen [ilock d] (kbind (dirlookup dp name) (\<lambda>r. case r of
       Some (ip, _) \<Rightarrow>
         kthen [iunlockput d, ilock (Some ip)] (kbind (ino_get ip i_type) (\<lambda>ty.
           if type = T_FILE \<and> ty = T_FILE then kret (Some ip)
           else kthen [iunlockput (Some ip)] (kret None)))
     | None \<Rightarrow>
         kbind (ino_get dp i_dev) (\<lambda>dev. kbind (ialloc dev type) (\<lambda>ip.
         kthen [ilock (Some ip), ino_mod ip (\<lambda>x. x\<lparr>i_major := major\<rparr>), ino_mod ip (\<lambda>x. x\<lparr>i_minor := minor\<rparr>),
                ino_mod ip (\<lambda>x. x\<lparr>i_nlink := 1\<rparr>), iupdate ip,
                kwhen (type = T_DIR) (create_dots dp ip)]
           (kbind (ino_get ip i_inum) (\<lambda>inum. kbind (dirlink dp name inum) (\<lambda>r.
            if r < 0 then kpanic ''create: dirlink''
            else kthen [iunlockput d] (kret (Some ip))))))))))"

abbreviation (input) O_RDONLY :: uint where "O_RDONLY \<equiv> 0"
abbreviation (input) O_WRONLY :: uint where "O_WRONLY \<equiv> 1"
abbreviation (input) O_RDWR :: uint where "O_RDWR \<equiv> 2"
abbreviation (input) O_CREATE :: uint where "O_CREATE \<equiv> 0x200"

text \<open>From the locked inode on.\<close>

definition sys_open_file :: "nat \<Rightarrow> uint \<Rightarrow> ('x trap_state_scheme, int) K" where
  "sys_open_file ip omode = kbind filealloc (\<lambda>f.
     kbind (case f of None \<Rightarrow> kret (- 1) | Some f \<Rightarrow> fdalloc f) (\<lambda>fd.
     if fd < 0 then kthen [fileclose_some f, iunlockput (Some ip), end_op] (kret (- 1))
     else kthen [iunlock (Some ip), end_op,
                 case f of None \<Rightarrow> kret () | Some f \<Rightarrow>
                   kdo [file_mod f (\<lambda>x. x\<lparr>f_type := FD_INODE\<rparr>),
                        file_mod f (\<lambda>x. x\<lparr>f_ip := Some ip\<rparr>),
                        file_mod f (\<lambda>x. x\<lparr>f_off := 0\<rparr>),
                        file_mod f (\<lambda>x. x\<lparr>f_readable := \<not> flag omode O_WRONLY\<rparr>),
                        file_mod f (\<lambda>x. x\<lparr>f_writable := flag omode O_WRONLY \<or> flag omode O_RDWR\<rparr>)]] (kret fd)))"

definition sys_open :: "('x trap_state_scheme, int) K" where
  "sys_open = karg (argstr 0) (\<lambda>path. karg (argint 1) (\<lambda>omode.
     kthen [begin_op]
       (if flag omode O_CREATE then
          kbind (create path T_FILE 0 0) (\<lambda>r. case r of
            None \<Rightarrow> kthen [end_op] (kret (- 1))
          | Some ip \<Rightarrow> sys_open_file ip omode)
        else
          kbind (namei path) (\<lambda>r. case r of
            None \<Rightarrow> kthen [end_op] (kret (- 1))
          | Some ip \<Rightarrow> kthen [ilock r] (kbind (ino_get ip i_type) (\<lambda>ty.
              if ty = T_DIR \<and> omode \<noteq> O_RDONLY then kthen [iunlockput r, end_op] (kret (- 1))
              else sys_open_file ip omode))))))"

text \<open>The common end of \<open>sys_mkdir\<close> and \<open>sys_mknod\<close>.\<close>

definition create_end :: "('x trap_state_scheme, nat option) K \<Rightarrow> ('x trap_state_scheme, int) K" where
  "create_end m = kbind m (\<lambda>r. case r of
     None \<Rightarrow> kthen [end_op] (kret (- 1))
   | Some ip \<Rightarrow> kthen [iunlockput r, end_op] (kret 0))"

definition sys_mkdir :: "('x trap_state_scheme, int) K" where
  "sys_mkdir = kthen [begin_op] (create_end (kbind (argstr 0) (\<lambda>r. case r of
     None \<Rightarrow> kret None | Some path \<Rightarrow> create path T_DIR 0 0)))"

definition sys_mknod :: "('x trap_state_scheme, int) K" where
  "sys_mknod = kthen [begin_op] (create_end (kbind (argstr 0) (\<lambda>r. case r of None \<Rightarrow> kret None | Some path \<Rightarrow>
     kbind (argint 1) (\<lambda>r. case r of None \<Rightarrow> kret None | Some major \<Rightarrow>
     kbind (argint 2) (\<lambda>r. case r of None \<Rightarrow> kret None | Some minor \<Rightarrow>
       create path T_DEV (ucast major) (ucast minor))))))"

definition sys_chdir :: "('x trap_state_scheme, int) K" where
  "sys_chdir = with_myproc (\<lambda>cur. kthen [begin_op]
     (kbind (kbind (argstr 0) (\<lambda>r. case r of None \<Rightarrow> kret None | Some path \<Rightarrow> namei path)) (\<lambda>r. case r of
        None \<Rightarrow> kthen [end_op] (kret (- 1))
      | Some ip \<Rightarrow> kthen [ilock r] (kbind (ino_get ip i_type) (\<lambda>ty.
          if ty \<noteq> T_DIR then kthen [iunlockput r, end_op] (kret (- 1))
          else kthen [iunlock r, kbind (proc_get cur p_cwd) iput, end_op,
                      proc_mod cur (\<lambda>p. p\<lparr>p_cwd := r\<rparr>)] (kret 0))))))"

primrec sys_exec_args :: "nat \<Rightarrow> addr \<Rightarrow> ('x proc_state_scheme, cstr list option) K" where
  "sys_exec_args 0 a = kret None"
| "sys_exec_args (Suc n) a = kbind (fetchint a) (\<lambda>r. case r of None \<Rightarrow> kret None | Some uarg \<Rightarrow>
     if uarg = 0 then kret (Some [])
     else kbind (fetchstr uarg) (\<lambda>x. case x of None \<Rightarrow> kret None | Some arg \<Rightarrow>
       kbind (sys_exec_args n (a + 4)) (\<lambda>rest. kret (map_option (Cons arg) rest))))"

definition sys_exec :: "('x trap_state_scheme, int) K" where
  "sys_exec = karg (argstr 0) (\<lambda>path. karg (argint 1) (\<lambda>uargv. karg (sys_exec_args MAXARG uargv) (\<lambda>argv.
     exec path argv)))"

definition sys_pipe :: "('x trap_state_scheme, int) K" where
  "sys_pipe = karg (argptr 0 8) (\<lambda>fd. kbind pipealloc (\<lambda>(r, rf, wf).
     if r < 0 then kret (- 1)
     else need ''null file'' rf (\<lambda>rf. need ''null file'' wf (\<lambda>wf.
       kbind (fdalloc rf) (\<lambda>fd0.
       kbind (if fd0 < 0 then kret (- 1) else fdalloc wf) (\<lambda>fd1.
       if fd1 < 0 then
         kthen [kwhen (fd0 \<ge> 0) (fdfree (nat fd0)), fileclose rf, fileclose wf] (kret (- 1))
       else kthen [store_user (word_bytes (uint_of fd0)) fd, store_user (word_bytes (uint_of fd1)) (fd + 4)] (kret 0)))))))"

section \<open>syscall.c: dispatch\<close>

text \<open>The handlers of the numbers 1 to 28, in the order of syscall.h.\<close>

definition syscalls :: "('x trap_state_scheme, int) K list" where
  "syscalls = [sys_fork, sys_exit, sys_wait, sys_pipe, sys_read, sys_kill, sys_exec, sys_fstat, sys_chdir, sys_dup,
     sys_getpid, sys_sbrk, sys_sleep, sys_uptime, sys_open, sys_write, sys_mknod, sys_unlink, sys_link, sys_mkdir,
     sys_close, sys_clone, sys_join, sys_gettid, sys_tkill, sys_tgkill, sys_tsuspend, sys_tresume]"

definition syscall_end :: "nat \<Rightarrow> ('x trap_state_scheme, int) K \<Rightarrow> ('x trap_state_scheme, unit) K" where
  "syscall_end cur m = kbind m (\<lambda>r. tf_mod cur (\<lambda>t. t\<lparr>tf_eax := uint_of r\<rparr>))"

definition syscall :: "('x trap_state_scheme, unit) K" where
  "syscall = with_myproc (\<lambda>cur. kbind (proc_get cur id) (\<lambda>p. let num = cint (tf_eax (p_tf p)) in
     if num > 0 \<and> num < 29 then syscall_end cur (syscalls ! (nat num - 1))
     else kdo [cprintf (Some (bytes_of ''%d %s: unknown sys call %d'' @ [10]))
                 [CInt (uint_of (p_pid p)), CStr (Some (p_name p)), CInt (uint_of num)],
               tf_mod cur (\<lambda>t. t\<lparr>tf_eax := - 1\<rparr>)]))"

section \<open>trap.c\<close>

text \<open>The gates of the interrupt table are not modelled.\<close>

definition tvinit :: "('x trap_state_scheme, unit) K" where
  "tvinit = initlock TicksLock ''time''"

abbreviation (input) T_SYSCALL :: uint where "T_SYSCALL \<equiv> 64"
abbreviation (input) T_IRQ0 :: uint where "T_IRQ0 \<equiv> 32"
abbreviation (input) IRQ_TIMER :: uint where "IRQ_TIMER \<equiv> 0"
abbreviation (input) IRQ_KBD :: uint where "IRQ_KBD \<equiv> 1"
abbreviation (input) IRQ_COM1 :: uint where "IRQ_COM1 \<equiv> 4"
abbreviation (input) IRQ_IDE :: uint where "IRQ_IDE \<equiv> 14"
abbreviation (input) IRQ_SPURIOUS :: uint where "IRQ_SPURIOUS \<equiv> 31"

definition exit_if_killed :: "bool \<Rightarrow> ('x trap_state_scheme, unit) K" where
  "exit_if_killed user = kbind myproc (\<lambda>p. case p of
     None \<Rightarrow> kret ()
   | Some i \<Rightarrow> kbind (proc_get i p_killed) (\<lambda>k. kwhen (k \<and> user) exit))"

definition trap_timer :: "('x trap_state_scheme, unit) K" where
  "trap_timer = kbind cpuid (\<lambda>c. kwhen (c = 0)
     (kdo [acquire TicksLock, kmod (\<lambda>s. s\<lparr>ticks := ticks s + 1\<rparr>), wakeup (Some Ch_ticks), release TicksLock]))"

definition trap_default :: "trapframe \<Rightarrow> uint \<Rightarrow> ('x trap_state_scheme, unit) K" where
  "trap_default tf cr2 = kbind myproc (\<lambda>p.
     if p = None \<or> tf_cs tf AND 3 = 0 then
       kthen [kbind cpuid (\<lambda>c. cprintf (Some (bytes_of ''unexpected trap %d from cpu %d eip %x (cr2=0x%x)'' @ [10]))
                [CInt (tf_trapno tf), CInt (of_nat c), CInt (tf_eip tf), CInt cr2])] (kpanic ''trap'')
     else with_myproc (\<lambda>i. kbind (proc_get i id) (\<lambda>q. kbind cpuid (\<lambda>c.
       kdo [cprintf (Some (bytes_of ''pid %d tid %d %s: trap %d err %d on cpu %d eip 0x%x addr 0x%x--kill proc'' @ [10]))
              [CInt (uint_of (p_pid q)), CInt (uint_of (p_tid q)), CStr (Some (p_name q)), CInt (tf_trapno tf),
               CInt (tf_err tf), CInt (of_nat c), CInt (tf_eip tf), CInt cr2],
            proc_mod i (\<lambda>q. q\<lparr>p_killed := True\<rparr>)]))))"

text \<open>\<open>kbd\<close> and \<open>com\<close> are what the keyboard and the serial port deliver, \<open>cr2\<close> the faulting address. The
  acknowledgement \<open>lapiceoi\<close> changes no kernel state; the memory disk's \<open>ideintr\<close> does nothing.\<close>

definition trap_irq :: "trapframe \<Rightarrow> (uint \<times> uint) list \<Rightarrow> (uint \<times> uint) list \<Rightarrow> uint \<Rightarrow> ('x trap_state_scheme, unit) K" where
  "trap_irq tf kbd com cr2 = (let n = tf_trapno tf in
     if n = T_IRQ0 + IRQ_TIMER then trap_timer
     else if n = T_IRQ0 + IRQ_IDE then kret ()
     else if n = T_IRQ0 + IRQ_IDE + 1 then kret ()
     else if n = T_IRQ0 + IRQ_KBD then
       kbind (kgets kbd_shift) (\<lambda>sh. kbind (kbdintr kbd sh) (\<lambda>sh. kmod (\<lambda>s. s\<lparr>kbd_shift := sh\<rparr>)))
     else if n = T_IRQ0 + IRQ_COM1 then uartintr com
     else if n = T_IRQ0 + 7 \<or> n = T_IRQ0 + IRQ_SPURIOUS then
       kbind cpuid (\<lambda>c. cprintf (Some (bytes_of ''cpu%d: spurious interrupt at %x:%x'' @ [10]))
         [CInt (of_nat c), CInt (ucast (tf_cs tf)), CInt (tf_eip tf)])
     else trap_default tf cr2)"

definition from_user :: "trapframe \<Rightarrow> bool" where
  "from_user tf \<longleftrightarrow> tf_cs tf AND 3 = 3"

definition trap_return :: "bool \<Rightarrow> trapframe \<Rightarrow> ('x trap_state_scheme, unit) K" where
  "trap_return saved tf = kdo [yield_return saved, exit_if_killed (from_user tf)]"

definition trap :: "trapframe \<Rightarrow> (uint \<times> uint) list \<Rightarrow> (uint \<times> uint) list \<Rightarrow> uint \<Rightarrow> ('x trap_state_scheme, unit) K" where
  "trap tf kbd com cr2 =
     (if tf_trapno tf = T_SYSCALL then
        kdo [with_myproc (\<lambda>_. exit_if_killed True),
             with_myproc (\<lambda>i. tf_mod i (\<lambda>_. tf)),
             syscall,
             with_myproc (\<lambda>_. exit_if_killed True)]
      else
        kdo [trap_irq tf kbd com cr2,
             exit_if_killed (from_user tf),
             kbind myproc (\<lambda>p. case p of
               None \<Rightarrow> kret ()
             | Some i \<Rightarrow> kbind (proc_get i p_state) (\<lambda>st.
                 kwhen (st = RUNNING \<and> tf_trapno tf = T_IRQ0 + IRQ_TIMER) yield)),
             exit_if_killed (from_user tf)])"

end
