(* ===== verification/Xv6_Fdt.thy ===== *)
theory Xv6_Fdt
  imports Xv6_Syscall
begin

text \<open>
  The descriptor tables of the processes and the reference counts of the file table. Every
  operation below file.c leaves both alone (\<open>same_fds\<close>, by the frame rules); the operations
  that change them keep the counts exact.
\<close>

section \<open>What leaves descriptors alone\<close>

text \<open>A slot that holds no process, or one that has exited.\<close>

definition dead :: "procstate \<Rightarrow> bool" where
  "dead st \<longleftrightarrow> st = UNUSED \<or> st = ZOMBIE"

definition quiet :: "proc \<Rightarrow> proc \<Rightarrow> bool" where
  "quiet p q \<longleftrightarrow> p_ofile q = p_ofile p \<and> (dead (p_state q) \<longrightarrow> dead (p_state p))"

definition same_fds :: "'x file_state_scheme \<Rightarrow> 'x file_state_scheme \<Rightarrow> bool" where
  "same_fds s t \<longleftrightarrow> Xv6_Sched.ctl s t \<and> map f_ref (ftable t) = map f_ref (ftable s) \<and> list_all2 quiet (procs s) (procs t)"

lemma quiet_refl [simp]: "quiet p p"
  by (simp add: quiet_def)

lemma quiet_trans: "quiet p q \<Longrightarrow> quiet q r \<Longrightarrow> quiet p r"
  by (simp add: quiet_def)

lemma same_fds_procs: "ftable t = ftable s \<Longrightarrow> procs t = procs s \<Longrightarrow> Xv6_Sched.ctl s t \<Longrightarrow> same_fds s t"
  by (simp add: same_fds_def list_all2_refl)

lemma same_fds_trans: "same_fds s t \<Longrightarrow> same_fds t u \<Longrightarrow> same_fds s u"
  by (auto simp: same_fds_def intro: list_all2_trans [OF quiet_trans] ctl_trans)

lemma same_fds_basic:
  "same_fds s s" "same_fds s (s\<lparr>fl_if := b\<rparr>)" "same_fds s (s\<lparr>locks := k\<rparr>)" "same_fds s (s\<lparr>mem := m\<rparr>)"
  "same_fds s (s\<lparr>kmem_freelist := v\<rparr>)"
  "(\<And>k. apicid (f k) = apicid k \<and> cproc (f k) = cproc k) \<Longrightarrow> same_fds s (s\<lparr>cpus := upd_at c f (cpus s)\<rparr>)"
  by (rule same_fds_procs; simp add: Xv6_Sched.ctl_def map_upd_at_id)+

interpretation fd: vm_frame same_fds same_fds
  by unfold_locales (rule same_fds_basic same_fds_trans; assumption)+

lemma fd_kmod: "(\<And>s. ftable (g s) = ftable s \<and> procs (g s) = procs s \<and> cpus (g s) = cpus s \<and> lapic_id (g s) = lapic_id s) \<Longrightarrow>
    keeps same_fds same_fds (kmod g)"
  by (rule fd.keeps_kmod) (simp add: same_fds_procs Xv6_Sched.ctl_def)

lemma fd_proc_mod: "(\<And>p. quiet p (f p)) \<Longrightarrow> keeps same_fds same_fds (proc_mod i f)"
  unfolding proc_mod_def by (rule fd.keeps_kmod) (auto simp: same_fds_def list_all2_conv_all_nth nth_upd_at Xv6_Sched.ctl_def)

lemma fd_procs_map: "(\<And>s p. quiet p (f s p)) \<Longrightarrow> keeps same_fds same_fds (kmod (\<lambda>s. s\<lparr>procs := map (f s) (procs s)\<rparr>))"
  by (rule fd.keeps_kmod) (auto simp: same_fds_def list_all2_conv_all_nth Xv6_Sched.ctl_def)

lemma fd_kblock: "keeps same_fds same_fds kblock"
  by (auto simp: keeps_def Xv6_Sched.ctl_def intro: same_fds_procs)

lemma fd_prod: "(\<And>a b. keeps same_fds same_fds (f a b)) \<Longrightarrow> keeps same_fds same_fds (case x of (a, b) \<Rightarrow> f a b)"
  by (cases x) simp

lemma fd_with_myproc: "(\<And>p. keeps same_fds same_fds (f p)) \<Longrightarrow> keeps same_fds same_fds (with_myproc f)"
  unfolding with_myproc_def by (auto intro!: fd.lock_rules)

lemma fd_proc_get: "keeps same_fds same_fds (proc_get i f)"
  unfolding proc_get_def by (rule fd.keeps_kgets)

lemma fd_need: "(\<And>i. keeps same_fds same_fds (f i)) \<Longrightarrow> keeps same_fds same_fds (need e x f)"
  unfolding need_def by (auto intro!: fd.lock_rules)

lemmas fd_base = fd.vm_rules fd_kmod fd_proc_mod fd_kblock fd_prod fd_with_myproc fd_proc_get fd_need

lemma quiet_simps [simp]:
  "quiet p (p\<lparr>p_chan := c\<rparr>)" "quiet p (p\<lparr>p_state := SLEEPING\<rparr>)" "quiet p (p\<lparr>p_state := RUNNABLE\<rparr>)"
  "quiet p (p\<lparr>p_state := RUNNING\<rparr>)" "quiet p (p\<lparr>p_killed := k\<rparr>)" "quiet p (p\<lparr>p_sz := z\<rparr>)" "quiet p (p\<lparr>p_pgdir := g\<rparr>)"
  "quiet p (p\<lparr>p_kstack := a\<rparr>)" "quiet p (p\<lparr>p_tid := t\<rparr>)" "quiet p (p\<lparr>p_pid := t\<rparr>)" "quiet p (p\<lparr>p_tstack := a\<rparr>)"
  "quiet p (p\<lparr>p_tstackalloc := b\<rparr>)" "quiet p (p\<lparr>p_parent := n\<rparr>)" "quiet p (p\<lparr>p_tf := tf\<rparr>)" "quiet p (p\<lparr>p_cwd := n\<rparr>)"
  "quiet p (p\<lparr>p_name := nm\<rparr>)" "quiet p (kill_proc p)"
  by (simp_all add: quiet_def dead_def kill_proc_def Let_def)

subsection \<open>Processes\<close>

lemma fd_this_cpu: "keeps same_fds same_fds (this_cpu f)"
  unfolding this_cpu_def by (auto intro!: fd_base)

lemma fd_sched_checks: "keeps same_fds same_fds (sched_checks p)"
  unfolding sched_checks_def by (auto intro!: fd_base fd_this_cpu)

lemma fd_sched: "keeps same_fds same_fds sched"
  unfolding sched_def by (auto intro!: fd_base fd_sched_checks simp del: k_run_eta)

lemma fd_sched_return: "keeps same_fds same_fds (sched_return b)"
  unfolding sched_return_def by (auto intro!: fd_base fd.keeps_cpu_mod)

lemma fd_sleep: "keeps same_fds same_fds (sleep ch l)"
  unfolding sleep_def by (auto intro!: fd_base fd_sched)

lemma fd_wakeup1: "keeps same_fds same_fds (wakeup1 ch)"
  unfolding wakeup1_def by (rule fd_procs_map) simp

lemma fd_wakeup: "keeps same_fds same_fds (wakeup ch)"
  unfolding wakeup_def by (auto intro!: fd_base fd_wakeup1)

lemma fd_yield: "keeps same_fds same_fds yield"
  unfolding yield_def by (auto intro!: fd_base fd_sched)

lemma fd_kill: "keeps same_fds same_fds (kill pid)"
  unfolding kill_def by (auto intro!: fd_base)

lemma fd_tkill: "keeps same_fds same_fds (tkill tid)"
  unfolding tkill_def by (auto intro!: fd_base)

lemma fd_tsuspend: "keeps same_fds same_fds tsuspend"
  unfolding tsuspend_def by (auto intro!: fd_base fd_sleep)

lemma fd_tresume: "keeps same_fds same_fds (tresume tid)"
  unfolding tresume_def by (auto intro!: fd_base)

lemma fd_switchuvm: "keeps same_fds same_fds (switchuvm p)"
  unfolding switchuvm_def by (auto intro!: fd_base)

lemma fd_growproc: "keeps same_fds same_fds (growproc n)"
  unfolding growproc_def by (auto intro!: fd_base fd_switchuvm)

lemma fd_free_stacks: "keeps same_fds same_fds (free_stacks i)"
  unfolding free_stacks_def by (auto intro!: fd_base)

lemmas fd_procs = fd_base fd_sleep fd_wakeup1 fd_wakeup fd_yield fd_switchuvm fd_growproc fd_free_stacks

subsection \<open>Sleep locks, blocks and the log\<close>

lemma fd_sl_mod: "keeps same_fds same_fds (sl_mod l f)"
  unfolding sl_mod_def by (rule fd_kmod) simp

lemma fd_initsleeplock: "keeps same_fds same_fds (initsleeplock l n)"
  unfolding initsleeplock_def by (auto intro!: fd_base fd_sl_mod)

lemma fd_acquiresleep: "keeps same_fds same_fds (acquiresleep l)"
  unfolding acquiresleep_def acquiresleep_loop_def by (auto intro!: fd_procs fd_sl_mod)

lemma fd_releasesleep: "keeps same_fds same_fds (releasesleep l)"
  unfolding releasesleep_def by (auto intro!: fd_procs fd_sl_mod)

lemma fd_holdingsleep: "keeps same_fds same_fds (holdingsleep l)"
  unfolding holdingsleep_def by (auto intro!: fd_procs)

lemma fd_buf_mod: "keeps same_fds same_fds (buf_mod i f)" and fd_buf_get: "keeps same_fds same_fds (buf_get i g)"
  unfolding buf_mod_def buf_get_def by (rule fd_kmod, simp) (rule fd.keeps_kgets)

lemma fd_set_next: "keeps same_fds same_fds (set_next a b)" and fd_set_prev: "keeps same_fds same_fds (set_prev a b)"
  unfolding set_next_def set_prev_def by (rule fd_kmod, simp)+

lemmas fd_sl = fd_procs fd_sl_mod fd_initsleeplock fd_acquiresleep fd_releasesleep fd_holdingsleep fd_buf_mod fd_buf_get
  fd_set_next fd_set_prev

lemma fd_iderw: "keeps same_fds same_fds (iderw i)"
  unfolding iderw_def Let_def by (auto intro!: fd_sl)

lemma fd_bscan: "keeps same_fds same_fds (bscan n nx P b)"
  by (induction n arbitrary: b) (auto intro!: fd_sl split: bref.splits)

lemma fd_bget: "keeps same_fds same_fds (bget dev b)"
  unfolding bget_def Let_def by (auto intro!: fd_sl fd_bscan)

lemma fd_bread: "keeps same_fds same_fds (bread dev b)"
  unfolding bread_def by (auto intro!: fd_sl fd_bget fd_iderw)

lemma fd_bwrite: "keeps same_fds same_fds (bwrite i)"
  unfolding bwrite_def by (auto intro!: fd_sl fd_iderw)

lemma fd_brelse: "keeps same_fds same_fds (brelse i)"
  unfolding brelse_def Let_def by (auto intro!: fd_sl)

lemma fd_lg_mod: "keeps same_fds same_fds (lg_mod f)" and fd_lg_get: "keeps same_fds same_fds (lg_get g)"
  unfolding lg_mod_def lg_get_def by (rule fd_kmod, simp) (rule fd.keeps_kgets)

lemma fd_copy_data: "keeps same_fds same_fds (copy_data a b)"
  unfolding copy_data_def by (rule fd_kmod) (simp add: set_buf_dat_def)

lemma fd_dat: "keeps same_fds same_fds (dat_mod i f)" "keeps same_fds same_fds (dat_get i)"
  unfolding dat_mod_def dat_get_def by (rule fd_kmod, simp add: set_buf_dat_def) (rule fd.keeps_kgets)

lemmas fd_bio = fd_sl fd_bread fd_bwrite fd_brelse fd_lg_mod fd_lg_get fd_copy_data fd_dat

lemma fd_install_trans: "keeps same_fds same_fds install_trans"
  unfolding install_trans_def Let_def by (auto intro!: fd_bio)

lemma fd_write_head: "keeps same_fds same_fds write_head"
  unfolding write_head_def Let_def by (auto intro!: fd_bio simp: set_buf_dat_def)

lemma fd_write_log: "keeps same_fds same_fds write_log"
  unfolding write_log_def Let_def by (auto intro!: fd_bio)

lemma fd_commit: "keeps same_fds same_fds commit"
  unfolding commit_def by (auto intro!: fd_bio fd_install_trans fd_write_head fd_write_log)

lemma fd_begin_op: "keeps same_fds same_fds begin_op"
  unfolding begin_op_def begin_op_loop_def by (auto intro!: fd_bio)

lemma fd_end_op: "keeps same_fds same_fds end_op"
  unfolding end_op_def Let_def by (auto intro!: fd_bio fd_commit)

lemma fd_log_write: "keeps same_fds same_fds (log_write i)"
  unfolding log_write_def Let_def by (auto intro!: fd_bio)

lemmas fd_log = fd_bio fd_begin_op fd_end_op fd_log_write

subsection \<open>Inodes\<close>

lemma fd_ino: "keeps same_fds same_fds (ino_mod i f)" "keeps same_fds same_fds (ino_get i g)"
  unfolding ino_mod_def ino_get_def by (rule fd_kmod, simp) (rule fd.keeps_kgets)

lemma fd_bzero: "keeps same_fds same_fds (bzero dev b)"
  unfolding bzero_def by (auto intro!: fd_log)

lemma fd_balloc: "keeps same_fds same_fds (balloc dev)"
  unfolding balloc_def balloc_round_def Let_def by (auto intro!: fd_log fd_bzero)

lemma fd_bfree: "keeps same_fds same_fds (bfree dev b)"
  unfolding bfree_def Let_def by (auto intro!: fd_log)

lemmas fd_blocks = fd_log fd_ino fd_bzero fd_balloc fd_bfree

lemma fd_iget: "keeps same_fds same_fds (iget dev n)"
  unfolding iget_def Let_def by (auto intro!: fd_blocks)

lemma fd_ialloc: "keeps same_fds same_fds (ialloc dev ty)"
  unfolding ialloc_def Let_def by (auto intro!: fd_blocks fd_iget)

lemma fd_iupdate: "keeps same_fds same_fds (iupdate i)"
  unfolding iupdate_def Let_def by (auto intro!: fd_blocks)

lemma fd_idup: "keeps same_fds same_fds (idup p)"
  unfolding idup_def by (auto intro!: fd_blocks)

lemma fd_ilock: "keeps same_fds same_fds (ilock p)"
  unfolding ilock_def ilock_read_def Let_def by (auto intro!: fd_blocks)

lemma fd_iunlock: "keeps same_fds same_fds (iunlock p)"
  unfolding iunlock_def by (auto intro!: fd_blocks)

lemma fd_bmap: "keeps same_fds same_fds (bmap i bn)"
  unfolding bmap_def addr_or_alloc_def Let_def by (auto intro!: fd_blocks)

lemma fd_itrunc: "keeps same_fds same_fds (itrunc i)"
  unfolding itrunc_def Let_def by (auto intro!: fd_blocks fd_iupdate)

lemma fd_iput: "keeps same_fds same_fds (iput p)"
  unfolding iput_def Let_def by (auto intro!: fd_blocks fd_itrunc fd_iupdate)

lemma fd_iunlockput: "keeps same_fds same_fds (iunlockput p)"
  unfolding iunlockput_def by (auto intro!: fd_blocks fd_iunlock fd_iput)

lemmas fd_inodes = fd_blocks fd_iget fd_ialloc fd_iupdate fd_idup fd_ilock fd_iunlock fd_bmap fd_iput fd_iunlockput

subsection \<open>Console\<close>

lemma fd_cgaputc: "keeps same_fds same_fds (cgaputc c)"
  unfolding cgaputc_def cga_finish_def crt_put_def scroll_up_def Let_def by (auto intro!: fd_base)

lemma fd_consputc: "keeps same_fds same_fds (consputc c)"
  unfolding consputc_def uartputc_def Let_def by (auto intro!: fd_base fd_cgaputc)

lemma fd_printint: "keeps same_fds same_fds (printint x b sg)"
  unfolding printint_def by (auto intro!: fd_base fd_consputc)

lemma fd_cputs: "keeps same_fds same_fds (cputs z)"
  unfolding cputs_def by (auto intro!: fd_base fd_consputc)

lemma fd_print_arg: "keeps same_fds same_fds (print_arg c a)"
  unfolding print_arg_def by (auto intro!: fd_base fd_consputc fd_printint fd_cputs split: cparg.splits option.splits)

lemma fd_cprintf_loop: "keeps same_fds same_fds (cprintf_loop fmt args)"
  by (induction fmt args rule: cprintf_loop.induct) (auto intro!: fd_base fd_consputc fd_print_arg split: list.splits)

lemma fd_cprintf: "keeps same_fds same_fds (cprintf fmt args)"
  unfolding cprintf_def by (auto intro!: fd_base fd_cprintf_loop)

lemma fd_kill_line: "keeps same_fds same_fds (kill_line n)"
  by (induction n) (auto intro!: fd_base fd_consputc simp del: kbind_kgets kbind_Ok)

lemma fd_console_put: "keeps same_fds same_fds (console_put c)"
  unfolding console_put_def Let_def by (auto intro!: fd_procs fd_consputc)

lemma fd_console_char: "keeps same_fds same_fds (console_char c)"
  unfolding console_char_def Let_def by (auto intro!: fd_procs fd_consputc fd_kill_line fd_console_put)

lemma fd_console_chars: "keeps same_fds same_fds (console_chars cs d)"
  by (induction cs arbitrary: d) (auto intro!: fd_procs fd_console_char)

lemma fd_procdump_print: "keeps same_fds same_fds procdump_print"
  unfolding procdump_print_def by (auto intro!: fd_procs fd_cprintf)

lemma fd_consoleintr: "keeps same_fds same_fds (consoleintr cs)"
  unfolding consoleintr_def by (auto intro!: fd_procs fd_console_chars fd_procdump_print)

lemma fd_consoleread_loop: "keeps same_fds same_fds (consoleread_loop n ip target bs)"
  by (induction n arbitrary: bs) (auto simp: consoleread_end_def Let_def intro!: fd_inodes)

lemma fd_consoleread: "keeps same_fds same_fds (consoleread ip n)"
  unfolding consoleread_def by (auto intro!: fd_inodes fd_consoleread_loop)

lemma fd_consolewrite: "keeps same_fds same_fds (consolewrite ip bs)"
  unfolding consolewrite_def by (auto intro!: fd_inodes fd_consputc)

subsection \<open>Contents, directories and paths\<close>

lemma fd_readi_loop: "keeps same_fds same_fds (readi_loop i off n)"
proof (induction i off n rule: readi_loop.induct)
  case (1 i off n)
  show ?case
    by (subst readi_loop.simps) (use 1 in \<open>auto simp: Let_def intro!: fd_inodes\<close>)
qed

lemma fd_readi: "keeps same_fds same_fds (readi i off n)"
  unfolding readi_def Let_def by (auto intro!: fd_inodes fd_readi_loop fd_consoleread split: driver.splits)

lemma fd_writei_loop: "keeps same_fds same_fds (writei_loop i off src)"
proof (induction i off src rule: writei_loop.induct)
  case (1 i off src)
  show ?case
    by (subst writei_loop.simps) (use 1 in \<open>auto simp: Let_def intro!: fd_inodes\<close>)
qed

lemma fd_writei: "keeps same_fds same_fds (writei i src off)"
  unfolding writei_def Let_def by (auto intro!: fd_inodes fd_writei_loop fd_consolewrite split: driver.splits)

lemma fd_dirlookup: "keeps same_fds same_fds (dirlookup dp name)"
  unfolding dirlookup_def by (auto intro!: fd_inodes fd_readi)

lemma fd_dirlink: "keeps same_fds same_fds (dirlink dp name inum)"
  unfolding dirlink_def Let_def by (auto intro!: fd_inodes fd_readi fd_writei fd_dirlookup)

lemma fd_namex_loop: "keeps same_fds same_fds (namex_loop ip path parent name :: ('x file_state_scheme, nat option \<times> cstr) K)"
proof (induction "length path" arbitrary: ip path name rule: less_induct)
  case less
  have "keeps same_fds same_fds (namex_loop ip path' parent name' :: ('x file_state_scheme, nat option \<times> cstr) K)"
    if "skipelem path name = Some (path', name')" for ip path' name'
    using less skipelem_shorter [OF that] by blast
  then show ?case
    by (subst namex_loop.simps) (auto intro!: fd_inodes fd_dirlookup)
qed

lemma fd_namex: "keeps same_fds same_fds (namex path parent name)"
  unfolding namex_def by (auto intro!: fd_inodes fd_namex_loop)

lemma fd_names: "keeps same_fds same_fds (namei path)" "keeps same_fds same_fds (nameiparent path name)"
  unfolding namei_def nameiparent_def by (auto intro!: fd_inodes fd_namex)

lemmas fd_fs = fd_inodes fd_cprintf fd_readi fd_writei fd_dirlookup fd_dirlink fd_names

subsection \<open>Pipes and files\<close>

lemma fd_pipe: "keeps same_fds same_fds (pipe_mod p f)" "keeps same_fds same_fds (pipe_get p g)" "keeps same_fds same_fds (file_get i h)"
  unfolding pipe_mod_def pipe_get_def file_get_def by (rule fd_kmod, simp) (rule fd.keeps_kgets)+

lemma fd_pipeclose: "keeps same_fds same_fds (pipeclose p w)"
  unfolding pipeclose_def by (auto intro!: fd_procs fd_pipe)

lemma fd_pipewrite_loop: "keeps same_fds same_fds (pipewrite_loop bs p n)"
  by (induction bs) (auto intro!: fd_procs fd_pipe simp del: kbind_kgets kbind_Ok file_ops_run)

lemma fd_pipewrite: "keeps same_fds same_fds (pipewrite p n src)"
  unfolding pipewrite_def by (auto intro!: fd_procs fd_pipewrite_loop)

lemma fd_piperead_copy: "keeps same_fds same_fds (piperead_copy n p)"
  by (induction n) (auto intro!: fd_procs fd_pipe simp del: kbind_kgets kbind_Ok file_ops_run)

lemma fd_piperead: "keeps same_fds same_fds (piperead p n)"
  unfolding piperead_def piperead_loop_def by (auto intro!: fd_procs fd_pipe fd_piperead_copy)

lemmas fd_pipes = fd_fs fd_pipe fd_pipeclose fd_pipewrite fd_piperead

lemma fd_filestat: "keeps same_fds same_fds (filestat f)"
  unfolding filestat_def by (auto intro!: fd_pipes)

lemma fd_file_mod: "(\<And>x. f_ref (g x) = f_ref x) \<Longrightarrow> keeps same_fds same_fds (file_mod f g)"
  unfolding file_mod_def by (rule fd.keeps_kmod) (simp add: same_fds_def list_all2_refl map_upd_at_id Xv6_Sched.ctl_def)

lemma fd_fileread: "keeps same_fds same_fds (fileread f n)"
  unfolding fileread_def by (auto intro!: fd_pipes fd_file_mod split: fdtype.splits)

lemma fd_filewrite_loop: "keeps same_fds same_fds (filewrite_loop f src)"
proof (induction f src rule: filewrite_loop.induct)
  case (1 f src)
  show ?case
    by (subst filewrite_loop.simps) (use 1 in \<open>auto simp: Let_def intro!: fd_pipes fd_file_mod\<close>)
qed

lemma fd_filewrite: "keeps same_fds same_fds (filewrite f n src)"
  unfolding filewrite_def by (auto intro!: fd_pipes fd_filewrite_loop split: fdtype.splits)

lemmas fd_files = fd_pipes fd_file_mod fd_fileread fd_filewrite fd_filestat

section \<open>Exact reference counts\<close>

text \<open>How many descriptors name a file.\<close>

definition fd_refs :: "proc list \<Rightarrow> nat \<Rightarrow> nat" where
  "fd_refs ps f = sum_list (map (\<lambda>p. count_list (p_ofile p) (Some f)) ps)"

text \<open>The count of every file is the number of descriptors that name it, plus the references \<open>M\<close> the kernel holds at
  the moment; a slot without a live process has no descriptors.\<close>

definition fds_wf :: "proc list \<Rightarrow> bool" where
  "fds_wf ps \<longleftrightarrow> length ps = NPROC \<and> (\<forall>p\<in>set ps. length (p_ofile p) = NOFILE \<and> (dead (p_state p) \<longrightarrow> p_ofile p = replicate NOFILE None))"

definition fd_inv :: "nat list \<Rightarrow> 'x file_state_scheme \<Rightarrow> bool" where
  "fd_inv M s \<longleftrightarrow> fds_wf (procs s) \<and>
     (\<forall>f. int (fd_refs (procs s) f + count_list M f) = (if f < length (ftable s) then f_ref (ftable s ! f) else 0))"

lemma quiet_refs: "list_all2 quiet ps qs \<Longrightarrow> fd_refs qs f = fd_refs ps f"
  unfolding fd_refs_def by (induction rule: list_all2_induct) (auto simp: quiet_def)

lemma quiet_wf:
  assumes "list_all2 quiet ps qs" "fds_wf ps"
  shows "fds_wf qs"
proof -
  have l: "length qs = length ps" using assms(1) by (simp add: list_all2_lengthD)
  have "length (p_ofile q) = NOFILE \<and> (dead (p_state q) \<longrightarrow> p_ofile q = replicate NOFILE None)" if "q \<in> set qs" for q
  proof -
    obtain j where j: "j < length qs" "q = qs ! j" using \<open>q \<in> set qs\<close> by (metis in_set_conv_nth)
    then have "quiet (ps ! j) q" "ps ! j \<in> set ps" using assms(1) l by (auto simp: list_all2_conv_all_nth)
    then show ?thesis using assms(2) by (auto simp: fds_wf_def quiet_def)
  qed
  then show ?thesis using assms(2) l by (simp add: fds_wf_def)
qed

lemma same_refs: "map f_ref fs = map f_ref gs \<Longrightarrow> length fs = length gs \<and> (\<forall>f<length gs. f_ref (fs ! f) = f_ref (gs ! f))"
  by (metis length_map nth_map)

lemma same_fds_inv: "same_fds s t \<Longrightarrow> fd_inv M s \<Longrightarrow> fd_inv M t"
  using same_refs [of "ftable t" "ftable s"] quiet_wf [of "procs s" "procs t"] quiet_refs [of "procs s" "procs t"]
  by (auto simp: fd_inv_def same_fds_def)

text \<open>A change of one descriptor.\<close>

definition set_fd :: "nat \<Rightarrow> nat \<Rightarrow> nat option \<Rightarrow> proc list \<Rightarrow> proc list" where
  "set_fd i fd v ps = upd_at i (\<lambda>p. p\<lparr>p_ofile := (p_ofile p)[fd := v]\<rparr>) ps"

lemma count_list_update:
  "k < length xs \<Longrightarrow> count_list (xs[k := v]) x + (if xs ! k = x then 1 else 0) = count_list xs x + (if v = x then 1 else 0)"
proof (induction xs arbitrary: k)
  case (Cons y xs)
  show ?case
  proof (cases k)
    case (Suc j)
    then show ?thesis using Cons.IH [of j] Cons.prems by (cases "xs ! j = x"; cases "v = x") simp_all
  qed simp
qed simp

lemma sum_list_upd_at:
  fixes h :: "'a \<Rightarrow> nat"
  shows "i < length xs \<Longrightarrow> sum_list (map h (upd_at i g xs)) + h (xs ! i) = sum_list (map h xs) + h (g (xs ! i))"
proof (induction xs arbitrary: i)
  case (Cons y xs)
  then show ?case by (cases i) (auto simp: upd_at_def)
qed simp

lemma set_fd_refs:
  assumes "i < length ps" "fd < length (p_ofile (ps ! i))"
  shows "fd_refs (set_fd i fd v ps) f + (if p_ofile (ps ! i) ! fd = Some f then 1 else 0) = fd_refs ps f + (if v = Some f then 1 else 0)"
  using sum_list_upd_at [OF assms(1), of "\<lambda>p. count_list (p_ofile p) (Some f)" "\<lambda>p. p\<lparr>p_ofile := (p_ofile p)[fd := v]\<rparr>"]
    count_list_update [OF assms(2), of v "Some f"]
  unfolding fd_refs_def set_fd_def by (simp split: if_splits)

lemma replicate_update: "(replicate n x)[k := x] = replicate n x"
  by (cases "k < n") (simp_all add: list_update_same_conv list_update_beyond)

lemma set_fd_wf:
  assumes "fds_wf ps" "v = None \<or> \<not> dead (p_state (ps ! i))"
  shows "fds_wf (set_fd i fd v ps)"
proof (cases "i < length ps")
  case True
  have "length (p_ofile p) = NOFILE \<and> (dead (p_state p) \<longrightarrow> p_ofile p = replicate NOFILE None)" if "p \<in> set (set_fd i fd v ps)" for p
  proof -
    note p = that
    have "length (set_fd i fd v ps) = length ps" by (simp add: set_fd_def)
    then obtain j where j: "j < length ps" "p = set_fd i fd v ps ! j" using p unfolding in_set_conv_nth by auto
    then have "ps ! j \<in> set ps" by simp
    then show ?thesis using assms j by (auto simp: fds_wf_def set_fd_def nth_upd_at replicate_update split: if_splits)
  qed
  then show ?thesis using assms(1) by (simp add: fds_wf_def set_fd_def)
next
  case False
  then show ?thesis using assms(1) by (simp add: set_fd_def upd_at_def)
qed

text \<open>A change of one count.\<close>

definition set_ref :: "nat \<Rightarrow> int \<Rightarrow> kfile list \<Rightarrow> kfile list" where
  "set_ref f d fs = upd_at f (\<lambda>x. x\<lparr>f_ref := f_ref x + d\<rparr>) fs"

lemma set_ref_nth: "g < length fs \<Longrightarrow> f_ref (set_ref f d fs ! g) = f_ref (fs ! g) + (if g = f then d else 0)"
  by (simp add: set_ref_def nth_upd_at)

lemma same_fds_cong:
  "same_fds s t \<Longrightarrow> same_fds (s\<lparr>ftable := set_ref f d (ftable s)\<rparr>) (t\<lparr>ftable := set_ref f d (ftable t)\<rparr>)"
proof -
  assume a: "same_fds s t"
  then have r: "length (ftable t) = length (ftable s)" "\<And>g. g < length (ftable s) \<Longrightarrow> f_ref (ftable t ! g) = f_ref (ftable s ! g)"
    using same_refs [of "ftable t" "ftable s"] by (auto simp: same_fds_def)
  have "map f_ref (set_ref f d (ftable t)) = map f_ref (set_ref f d (ftable s))"
    by (rule nth_equalityI) (simp_all add: r set_ref_def nth_upd_at)
  then show ?thesis using a by (simp add: same_fds_def Xv6_Sched.ctl_def)
qed

lemma set_fd_cong: "same_fds s t \<Longrightarrow> same_fds (s\<lparr>procs := set_fd i fd v (procs s)\<rparr>) (t\<lparr>procs := set_fd i fd v (procs t)\<rparr>)"
  by (auto simp: same_fds_def list_all2_conv_all_nth set_fd_def nth_upd_at quiet_def Xv6_Sched.ctl_def)

section \<open>Effects of the file table operations\<close>

lemma acquire_fds: "acquire l s = Ok () t \<Longrightarrow> same_fds s t" and release_fds: "release l s = Ok () t \<Longrightarrow> same_fds s t"
  by (rule keepsD(1) [OF fd.keeps_acquire], assumption) (rule keepsD(1) [OF fd.keeps_release], assumption)

lemma lock_not_Blocked [simp]: "acquire l s \<noteq> Blocked t" "release l s \<noteq> Blocked t"
  using keepsD(2) [OF cf.keeps_acquire] keepsD(2) [OF cf.keeps_release] by blast+

lemma same_fds_refs:
  assumes "map f_ref fs = map f_ref gs"
  shows "same_fds (s\<lparr>ftable := fs\<rparr>) (s\<lparr>ftable := gs\<rparr>)"
  using assms by (simp add: same_fds_def list_all2_refl Xv6_Sched.ctl_def)

lemma filedup_effect:
  assumes "filedup f s = Ok g t"
  shows "g = f \<and> same_fds (s\<lparr>ftable := set_ref f 1 (ftable s)\<rparr>) t"
proof -
  obtain u where u: "acquire FtableLock s = Ok () u" "g = f" "release FtableLock (u\<lparr>ftable := set_ref f 1 (ftable u)\<rparr>) = Ok () t"
    using assms by (auto simp: filedup_def kthen_def kbind_eq_Ok set_ref_def split: if_splits)
  then show ?thesis
    using same_fds_trans [OF same_fds_cong [OF acquire_fds [OF u(1)], of f 1] release_fds [OF u(3)]] by simp
qed

lemma filedup_not_Blocked [simp]: "filedup f s \<noteq> Blocked t"
  by (auto simp: filedup_def kthen_def kbind_eq_Blocked kbind_eq_Ok)

lemma filealloc_effect:
  assumes "filealloc s = Ok r t"
  shows "case r of None \<Rightarrow> same_fds s t
    | Some f \<Rightarrow> f < length (ftable s) \<and> f_ref (ftable s ! f) = 0 \<and> same_fds (s\<lparr>ftable := set_ref f 1 (ftable s)\<rparr>) t"
proof -
  obtain u where u: "acquire FtableLock s = Ok () u" using assms by (auto simp: filealloc_def kthen_def kbind_eq_Ok)
  note su = acquire_fds [OF u]
  show ?thesis
  proof (cases "index_of (\<lambda>x. f_ref x = 0) (ftable u)")
    case None
    then have "r = None" "release FtableLock u = Ok () t" using assms u by (auto simp: filealloc_def kthen_def kbind_eq_Ok)
    then show ?thesis using same_fds_trans [OF su release_fds] by simp
  next
    case (Some f)
    then have f: "f < length (ftable u)" "f_ref (ftable u ! f) = 0" by (auto dest: index_of_SomeD)
    let ?v = "u\<lparr>ftable := upd_at f (\<lambda>x. x\<lparr>f_ref := 1\<rparr>) (ftable u)\<rparr>"
    have t: "r = Some f" "release FtableLock ?v = Ok () t" using assms u Some by (auto simp: filealloc_def kthen_def kbind_eq_Ok)
    have "map f_ref (set_ref f 1 (ftable u)) = map f_ref (upd_at f (\<lambda>x. x\<lparr>f_ref := 1\<rparr>) (ftable u))"
      by (rule nth_equalityI) (use f in \<open>auto simp: set_ref_def nth_upd_at\<close>)
    then have "same_fds (u\<lparr>ftable := set_ref f 1 (ftable u)\<rparr>) ?v" by (rule same_fds_refs)
    then have "same_fds (s\<lparr>ftable := set_ref f 1 (ftable s)\<rparr>) t"
      using same_fds_cong [OF su] release_fds [OF t(2)] same_fds_trans by blast
    then show ?thesis using t(1) f su same_refs [of "ftable u" "ftable s"] by (auto simp: same_fds_def)
  qed
qed

lemma filealloc_not_Blocked [simp]: "filealloc s \<noteq> Blocked t"
  by (auto simp: filealloc_def kthen_def kbind_eq_Blocked kbind_eq_Ok split: option.splits)

text \<open>What \<open>fileclose\<close> does once the lock is released: the last reference closes the pipe end or puts the inode.\<close>

definition fileclose_end :: "kfile \<Rightarrow> ('x file_state_scheme, unit) K" where
  "fileclose_end ff = (case f_type ff of
     FD_PIPE \<Rightarrow> pipeclose (f_pipe ff) (f_writable ff)
   | FD_INODE \<Rightarrow> kdo [begin_op, iput (f_ip ff), end_op]
   | FD_NONE \<Rightarrow> kret ())"

lemma fd_fileclose_end: "keeps same_fds same_fds (fileclose_end ff)"
  unfolding fileclose_end_def by (auto intro!: fd_files split: fdtype.splits)

lemma drop_ref: "upd_at f (\<lambda>x. x\<lparr>f_ref := f_ref x - 1\<rparr>) fs = set_ref f (- 1) fs"
  by (simp add: set_ref_def)

lemma fileclose_effect:
  assumes "fileclose f s = Ok x t \<or> fileclose f s = Blocked t"
  shows "same_fds (s\<lparr>ftable := set_ref f (- 1) (ftable s)\<rparr>) t"
proof -
  obtain u where u: "acquire FtableLock s = Ok () u"
    using assms by (auto simp: fileclose_def kthen_def kbind_eq_Ok kbind_eq_Blocked)
  let ?v = "u\<lparr>ftable := set_ref f (- 1) (ftable u)\<rparr>"
  have v: "same_fds (s\<lparr>ftable := set_ref f (- 1) (ftable s)\<rparr>) ?v" by (rule same_fds_cong [OF acquire_fds [OF u]])
  let ?w = "?v\<lparr>ftable := upd_at f (\<lambda>x. x\<lparr>f_type := FD_NONE\<rparr>) (upd_at f (\<lambda>x. x\<lparr>f_ref := 0\<rparr>) (ftable ?v))\<rparr>"
  have r: "fileclose f s = (if f_ref (ftable u ! f) < 1 then Panic ''fileclose''
      else if f_ref (ftable ?v ! f) > 0 then release FtableLock ?v
      else kbind (release FtableLock) (\<lambda>_. kbind (fileclose_end (ftable ?v ! f)) (\<lambda>_. kret ())) ?w)"
    using u by (simp add: fileclose_def kthen_def fileclose_end_def drop_ref del: upd_at_upd_at)
  have w: "same_fds ?v ?w" if "\<not> f_ref (ftable u ! f) < 1" "\<not> f_ref (ftable ?v ! f) > 0"
  proof -
    have "map f_ref (ftable ?v) = map f_ref (ftable ?w)"
      by (rule nth_equalityI) (use that in \<open>auto simp: nth_upd_at set_ref_def split: if_splits\<close>)
    then show ?thesis by (simp add: same_fds_def list_all2_refl Xv6_Sched.ctl_def)
  qed
  have np: "\<not> f_ref (ftable u ! f) < 1" using assms r by auto
  have "same_fds ?v t"
  proof (cases "f_ref (ftable ?v ! f) > 0")
    case True
    then have "release FtableLock ?v = Ok () t" using assms r np by auto
    then show ?thesis by (rule release_fds)
  next
    case False
    then have "kbind (release FtableLock) (\<lambda>_. kbind (fileclose_end (ftable ?v ! f)) (\<lambda>_. kret ())) ?w = Ok x t
      \<or> kbind (release FtableLock) (\<lambda>_. kbind (fileclose_end (ftable ?v ! f)) (\<lambda>_. kret ())) ?w = Blocked t"
      using assms r np by argo
    then obtain y where y: "release FtableLock ?w = Ok () y" "fileclose_end (ftable ?v ! f) y = Ok () t \<or> fileclose_end (ftable ?v ! f) y = Blocked t"
      unfolding kbind_eq_Ok kbind_eq_Blocked by auto
    have "same_fds y t" using y(2) keepsD [OF fd_fileclose_end] by blast
    then show ?thesis using w [OF np False] release_fds [OF y(1)] same_fds_trans by blast
  qed
  then show ?thesis using v same_fds_trans by blast
qed

section \<open>Effects of the descriptor operations\<close>

text \<open>The running process is alive.\<close>

definition live :: "'x file_state_scheme \<Rightarrow> bool" where
  "live s \<longleftrightarrow> (\<forall>i. running s = Some i \<longrightarrow> i < length (procs s) \<and> \<not> dead (p_state (procs s ! i)))"

lemma running_upd [simp]:
  fixes s :: "'x file_state_scheme"
  shows "running (s\<lparr>ftable := x\<rparr>) = running s" "running (s\<lparr>procs := ps\<rparr>) = running s"
  by (simp_all add: running_def mycpu_index_def split: option.split)

lemma live_ftable [simp]: "live (s\<lparr>ftable := x\<rparr>) = live s"
  by (simp add: live_def)

lemma same_fds_running: "same_fds s t \<Longrightarrow> running t = running s"
  using ctl_running by (auto simp: same_fds_def)

lemma same_fds_live: "same_fds s t \<Longrightarrow> live s \<Longrightarrow> live t"
  using same_fds_running [of s t] by (auto simp: live_def same_fds_def list_all2_conv_all_nth quiet_def)

lemma myproc_fds: "myproc s = Ok p t \<Longrightarrow> same_fds s t"
  by (rule keepsD(1) [OF fd.keeps_myproc])

lemma fdfree_effect:
  assumes "fdfree fd s = Ok x t"
  shows "\<exists>i. running s = Some i \<and> same_fds (s\<lparr>procs := set_fd i fd None (procs s)\<rparr>) t"
proof -
  obtain i u where i: "running s = Some i" "myproc s = Ok (Some i) u" "t = u\<lparr>procs := set_fd i fd None (procs u)\<rparr>"
    using assms by (auto simp: fdfree_def with_myproc_Ok set_fd_def)
  then show ?thesis using set_fd_cong [OF myproc_fds [OF i(2)], of i fd None] by simp
qed

lemma fdfree_not_Blocked [simp]: "fdfree fd s \<noteq> Blocked t"
  by (auto simp: fdfree_def with_myproc_Blocked)

lemma fdalloc_effect:
  assumes "fdalloc f s = Ok r t"
  shows "r = - 1 \<and> same_fds s t \<or> (\<exists>i fd. running s = Some i \<and> r = int fd \<and> fd < NOFILE \<and> p_ofile (procs s ! i) ! fd = None
     \<and> same_fds (s\<lparr>procs := set_fd i fd (Some f) (procs s)\<rparr>) t)"
proof -
  obtain i u where i: "running s = Some i" "myproc s = Ok (Some i) u"
    and b: "kbind (proc_get i (\<lambda>p. index_of (\<lambda>fd. p_ofile p ! fd = None) [0..<NOFILE])) (\<lambda>r. case r of
       None \<Rightarrow> kret (- 1)
     | Some fd \<Rightarrow> kthen [proc_mod i (\<lambda>p. p\<lparr>p_ofile := (p_ofile p)[fd := Some f]\<rparr>)] (kret (int fd))) u = Ok r t"
    using assms by (auto simp only: fdalloc_def with_myproc_Ok)
  have pu: "procs u = procs s" using pframe_myproc [OF i(2)] by (simp add: pframe_def)
  show ?thesis
  proof (cases "index_of (\<lambda>fd. p_ofile (procs s ! i) ! fd = None) [0..<NOFILE]")
    case None
    then have "r = - 1" "t = u" using b pu by simp_all
    then show ?thesis using myproc_fds [OF i(2)] by simp
  next
    case (Some fd)
    then have fd: "fd < NOFILE" "p_ofile (procs s ! i) ! fd = None" using index_of_SomeD [OF Some] by auto
    have "r = int fd" "t = u\<lparr>procs := set_fd i fd (Some f) (procs u)\<rparr>" using b pu Some by (simp_all add: kthen_def set_fd_def)
    then show ?thesis using i(1) fd set_fd_cong [OF myproc_fds [OF i(2)], of i fd "Some f"] by blast
  qed
qed

lemma fdalloc_not_Blocked [simp]: "fdalloc f s \<noteq> Blocked t"
  by (auto simp: fdalloc_def with_myproc_Blocked kthen_def split: option.splits)

subsection \<open>Arguments\<close>

lemma pf_with_myproc: "(\<And>p. keeps pframe (\<lambda>_ _. False) (f p)) \<Longrightarrow> keeps pframe (\<lambda>_ _. False) (with_myproc f)"
  unfolding with_myproc_def by (auto intro!: pf.lock_rules)

lemma pf_proc_get: "keeps pframe (\<lambda>_ _. False) (proc_get i f)"
  unfolding proc_get_def by (rule pf.keeps_kgets)

lemmas pf_rules = pf.lock_rules pf_with_myproc pf_proc_get

lemma pf_load_byte: "keeps pframe (\<lambda>_ _. False) (load_byte a)"
  unfolding load_byte_def by (auto intro!: pf_rules simp del: kbind_kgets)

lemma pf_load_user: "keeps pframe (\<lambda>_ _. False) (load_user n a)"
  by (induction n arbitrary: a) (auto intro!: pf_rules pf_load_byte)

lemma pf_fetchint: "keeps pframe (\<lambda>_ _. False) (fetchint a)"
  unfolding fetchint_def by (auto intro!: pf_rules pf_load_user)

lemma pf_argint: "keeps pframe (\<lambda>_ _. False) (argint n)"
  unfolding argint_def by (auto intro!: pf_rules pf_fetchint)

lemma fd_load_byte: "keeps same_fds same_fds (load_byte a)"
  unfolding load_byte_def by (auto intro!: fd_base simp del: kbind_kgets)

lemma fd_load_user: "keeps same_fds same_fds (load_user n a)"
  by (induction n arbitrary: a) (auto intro!: fd_base fd_load_byte)

lemma fd_store_user: "keeps same_fds same_fds (store_user bs a)"
  by (induction bs arbitrary: a) (auto intro!: fd_base simp del: kbind_kgets)

lemma fd_fetchint: "keeps same_fds same_fds (fetchint a)"
  unfolding fetchint_def by (auto intro!: fd_base fd_load_user)

lemma fd_fetchstr_loop: "keeps same_fds same_fds (fetchstr_loop n a)"
  by (induction n arbitrary: a) (auto intro!: fd_base fd_load_byte)

lemma fd_fetchstr: "keeps same_fds same_fds (fetchstr a)"
  unfolding fetchstr_def by (auto intro!: fd_base fd_fetchstr_loop)

lemma fd_argint: "keeps same_fds same_fds (argint n)"
  unfolding argint_def by (auto intro!: fd_base fd_fetchint)

lemma fd_argptr: "keeps same_fds same_fds (argptr n len)"
  unfolding argptr_def by (auto intro!: fd_base fd_argint)

lemma fd_argstr: "keeps same_fds same_fds (argstr n)"
  unfolding argstr_def by (auto intro!: fd_base fd_argint fd_fetchstr)

lemma fd_argfd: "keeps same_fds same_fds (argfd n)"
  unfolding argfd_def by (auto intro!: fd_base fd_argint)

lemmas fd_args = fd_files fd_load_user fd_store_user fd_fetchint fd_fetchstr fd_argint fd_argptr fd_argstr fd_argfd

lemma argfd_effect:
  assumes "argfd n s = Ok (Some (fd, f)) t"
  shows "\<exists>i. running t = Some i \<and> fd < NOFILE \<and> p_ofile (procs t ! i) ! fd = Some f"
proof -
  obtain r u where r: "argint n s = Ok r u" "(case r of None \<Rightarrow> kret None | Some w \<Rightarrow>
     if cint w < 0 \<or> cint w \<ge> int NOFILE then kret None
     else with_myproc (\<lambda>i. proc_get i (\<lambda>p. map_option (Pair (unat w)) (p_ofile p ! unat w)))) u = Ok (Some (fd, f)) t"
    using assms unfolding argfd_def kbind_eq_Ok by blast
  obtain w where w: "r = Some w" using r(2) by (cases r) auto
  have a: "\<not> (cint w < 0 \<or> cint w \<ge> int NOFILE)"
    using r(2) w by (cases "cint w < 0 \<or> cint w \<ge> int NOFILE") auto
  then have "with_myproc (\<lambda>i. proc_get i (\<lambda>p. map_option (Pair (unat w)) (p_ofile p ! unat w))) u = Ok (Some (fd, f)) t"
    using r(2) w by simp
  then obtain i where i: "running u = Some i" "myproc u = Ok (Some i) t" "p_ofile (procs t ! i) ! unat w = Some f" "fd = unat w"
    by (auto simp: with_myproc_Ok)
  have "int (unat w) = cint w" using a unat_cint [of w] by metis
  then have "fd < NOFILE" using a i(4) by linarith
  then show ?thesis using i ctl_running pframe_myproc [OF i(2)] by (fastforce simp: pframe_def)
qed

section \<open>Keeping the counts\<close>

lemma inv_positive: "fd_inv M s \<Longrightarrow> fd_refs (procs s) f + count_list M f > 0 \<Longrightarrow> f < length (ftable s)"
  unfolding fd_inv_def by (metis gr_implies_not0 of_nat_eq_0_iff)

lemma inv_dup: "fd_inv M s \<Longrightarrow> f < length (ftable s) \<Longrightarrow> fd_inv (f # M) (s\<lparr>ftable := set_ref f 1 (ftable s)\<rparr>)"
  by (auto simp: fd_inv_def set_ref_nth) (auto simp: set_ref_def)

lemma inv_drop:
  assumes "fd_inv (f # M) s"
  shows "fd_inv M (s\<lparr>ftable := set_ref f (- 1) (ftable s)\<rparr>)"
proof -
  have f: "f < length (ftable s)" using inv_positive [OF assms, of f] by simp
  have e: "int (fd_refs (procs s) g + count_list (f # M) g) = (if g < length (ftable s) then f_ref (ftable s ! g) else 0)" for g
    using assms unfolding fd_inv_def by blast
  have "int (fd_refs (procs s) g + count_list M g) = (if g < length (ftable s) then f_ref (set_ref f (- 1) (ftable s) ! g) else 0)" for g
    using e [of g] f by (cases "g = f"; cases "g < length (ftable s)") (simp_all add: set_ref_nth)
  moreover have "length (set_ref f (- 1) (ftable s)) = length (ftable s)" by (simp add: set_ref_def)
  ultimately show ?thesis using assms unfolding fd_inv_def by simp
qed

lemma inv_put:
  assumes "fd_inv (f # M) s" "i < length (procs s)" "fd < NOFILE" "p_ofile (procs s ! i) ! fd = None" "\<not> dead (p_state (procs s ! i))"
  shows "fd_inv M (s\<lparr>procs := set_fd i fd (Some f) (procs s)\<rparr>)"
proof -
  have w: "fds_wf (procs s)" "fd < length (p_ofile (procs s ! i))"
    using assms(1-3) nth_mem [OF assms(2)] by (auto simp: fd_inv_def fds_wf_def)
  have "int (fd_refs (set_fd i fd (Some f) (procs s)) g + count_list M g) = int (fd_refs (procs s) g + count_list (f # M) g)" for g
    using set_fd_refs [OF assms(2) w(2), of "Some f" g] assms(4) by simp
  then show ?thesis using assms(1,5) set_fd_wf [OF w(1)] by (simp add: fd_inv_def del: of_nat_add count_list.simps)
qed

lemma inv_take:
  assumes "fd_inv M s" "i < length (procs s)" "fd < NOFILE" "p_ofile (procs s ! i) ! fd = Some f"
  shows "fd_inv (f # M) (s\<lparr>procs := set_fd i fd None (procs s)\<rparr>)" "f < length (ftable s)"
proof -
  have w: "fds_wf (procs s)" "fd < length (p_ofile (procs s ! i))"
    using assms(1-3) nth_mem [OF assms(2)] by (auto simp: fd_inv_def fds_wf_def)
  have "int (fd_refs (set_fd i fd None (procs s)) g + count_list (f # M) g) = int (fd_refs (procs s) g + count_list M g)" for g
    using set_fd_refs [OF assms(2) w(2), of None g] assms(4) by (simp split: if_splits)
  then show i: "fd_inv (f # M) (s\<lparr>procs := set_fd i fd None (procs s)\<rparr>)"
    using assms(1) set_fd_wf [OF w(1)] by (simp add: fd_inv_def del: of_nat_add count_list.simps)
  show "f < length (ftable s)" using inv_positive [OF i, of f] by simp
qed

text \<open>
  Between kernel operations the counts are exact. Where a process gives up the processor inside one, no count is too
  low: it covers the descriptors of all processes and the references \<open>M\<close> the operation holds.
\<close>

definition fd_exact :: "'x file_state_scheme \<Rightarrow> bool" where
  "fd_exact s \<longleftrightarrow> fd_inv [] s \<and> live s"

definition fd_covered :: "'x file_state_scheme \<Rightarrow> bool" where
  "fd_covered s \<longleftrightarrow> (\<exists>M. fd_inv M s)"

definition fdv :: "('x file_state_scheme \<Rightarrow> bool) \<Rightarrow> ('x file_state_scheme, 'a) K \<Rightarrow> ('a \<Rightarrow> 'x file_state_scheme \<Rightarrow> bool) \<Rightarrow> bool" where
  "fdv P m Q \<longleftrightarrow> (\<forall>s. P s \<longrightarrow> (\<forall>x t. m s = Ok x t \<longrightarrow> Q x t) \<and> (\<forall>t. m s = Blocked t \<longrightarrow> fd_covered t))"

lemma fdvI: "(\<And>s x t. P s \<Longrightarrow> m s = Ok x t \<Longrightarrow> Q x t) \<Longrightarrow> (\<And>s t. P s \<Longrightarrow> m s = Blocked t \<Longrightarrow> fd_covered t) \<Longrightarrow> fdv P m Q"
  by (auto simp: fdv_def)

lemma fdvD: "fdv P m Q \<Longrightarrow> P s \<Longrightarrow> m s = Ok x t \<Longrightarrow> Q x t" "fdv P m Q \<Longrightarrow> P s \<Longrightarrow> m s = Blocked t \<Longrightarrow> fd_covered t"
  by (auto simp: fdv_def)

lemma fdv_bind: "fdv P m R \<Longrightarrow> (\<And>x. fdv (R x) (f x) Q) \<Longrightarrow> fdv P (kbind m f) Q"
  unfolding fdv_def kbind_eq_Ok kbind_eq_Blocked by blast

lemma fdv_pre: "fdv P m Q \<Longrightarrow> (\<And>s. P' s \<Longrightarrow> P s) \<Longrightarrow> fdv P' m Q"
  by (auto simp: fdv_def)

lemma fdv_post: "fdv P m Q \<Longrightarrow> (\<And>x s. Q x s \<Longrightarrow> Q' x s) \<Longrightarrow> fdv P m Q'"
  by (auto simp: fdv_def)

lemma inv_covered: "fd_inv M s \<Longrightarrow> fd_covered s"
  unfolding fd_covered_def by blast

text \<open>What is kept along with the counts by code that leaves descriptors alone.\<close>

definition stable :: "('x file_state_scheme \<Rightarrow> bool) \<Rightarrow> bool" where
  "stable P \<longleftrightarrow> (\<forall>s t. same_fds s t \<longrightarrow> P s \<longrightarrow> P t)"

lemma stable_inv: "stable (\<lambda>s. fd_inv M s \<and> live s)" "stable fd_exact"
  using same_fds_inv same_fds_live by (auto simp: stable_def fd_exact_def)

lemma stable_conj: "stable P \<Longrightarrow> stable Q \<Longrightarrow> stable (\<lambda>s. P s \<and> Q s)"
  by (auto simp: stable_def)

lemma fdv_frame:
  assumes "keeps same_fds same_fds m" "stable P" "\<And>s. P s \<Longrightarrow> \<exists>M. fd_inv M s"
  shows "fdv P m (\<lambda>_. P)"
proof (rule fdvI)
  fix s x t assume "P s" "m s = Ok x t"
  then show "P t" using keepsD(1) [OF assms(1)] assms(2) unfolding stable_def by blast
next
  fix s t assume a: "P s" "m s = Blocked t"
  then have "P t" using keepsD(2) [OF assms(1)] assms(2) unfolding stable_def by blast
  then show "fd_covered t" using assms(3) inv_covered by blast
qed

lemma fdv_keeps: "keeps same_fds same_fds m \<Longrightarrow> fdv fd_exact m (\<lambda>_. fd_exact)"
  by (rule fdv_frame [OF _ stable_inv(2)]) (auto simp: fd_exact_def)

text \<open>Operations that keep the counts exact compose.\<close>

interpretation fx: kframe "\<lambda>s t. fd_exact s \<longrightarrow> fd_exact t" "\<lambda>s t. fd_exact s \<longrightarrow> fd_covered t"
  by unfold_locales auto

definition fd_ok :: "('x file_state_scheme, 'a) K \<Rightarrow> bool" where
  "fd_ok m \<longleftrightarrow> keeps (\<lambda>s t. fd_exact s \<longrightarrow> fd_exact t) (\<lambda>s t. fd_exact s \<longrightarrow> fd_covered t) m"

lemma fd_ok_fdv: "fd_ok m \<longleftrightarrow> fdv fd_exact m (\<lambda>_. fd_exact)"
  by (auto simp: fd_ok_def keeps_def fdv_def)

lemma fd_ok_of: "keeps same_fds same_fds m \<Longrightarrow> fd_ok m"
  by (simp add: fd_ok_fdv fdv_keeps)

lemmas ok_rules = fx.frame_rules [folded fd_ok_def]

lemma ok_with_myproc: "(\<And>p. fd_ok (f p)) \<Longrightarrow> fd_ok (with_myproc f)"
  unfolding with_myproc_def by (intro ok_rules fd_ok_of [OF fd.keeps_myproc]) auto

lemma ok_prod: "(\<And>a b. fd_ok (f a b)) \<Longrightarrow> fd_ok (case x of (a, b) \<Rightarrow> f a b)"
  by (cases x) simp

lemma ok_need: "(\<And>i. fd_ok (f i)) \<Longrightarrow> fd_ok (need e x f)"
  unfolding need_def by (intro ok_rules)

lemma ok_karg: "fd_ok m \<Longrightarrow> (\<And>v. fd_ok (f v)) \<Longrightarrow> fd_ok (karg m f)"
  unfolding karg_def by (intro ok_rules)

subsection \<open>Files\<close>

lemma fdv_fileclose: "fdv (\<lambda>s. fd_inv (f # M) s \<and> live s) (fileclose f) (\<lambda>_ s. fd_inv M s \<and> live s)"
proof -
  have e: "fd_inv M t \<and> live t" if "fd_inv (f # M) s \<and> live s" "same_fds (s\<lparr>ftable := set_ref f (- 1) (ftable s)\<rparr>) t"
    for s t :: "'b file_state_scheme"
  proof -
    let ?u = "s\<lparr>ftable := set_ref f (- 1) (ftable s)\<rparr>"
    have "fd_inv M ?u" using inv_drop that(1) by blast
    moreover have "live ?u" using that(1) by simp
    ultimately show ?thesis using same_fds_inv [OF that(2)] same_fds_live [OF that(2)] by blast
  qed
  show ?thesis
    by (rule fdvI) (use e fileclose_effect inv_covered in blast)+
qed

lemma fdv_filealloc:
  "fdv (\<lambda>s. fd_inv M s \<and> live s) filealloc (\<lambda>r s. (case r of None \<Rightarrow> fd_inv M s | Some f \<Rightarrow> fd_inv (f # M) s) \<and> live s)"
proof (rule fdvI)
  fix s t :: "'b file_state_scheme" and r assume a: "fd_inv M s \<and> live s" "filealloc s = Ok r t"
  show "(case r of None \<Rightarrow> fd_inv M t | Some f \<Rightarrow> fd_inv (f # M) t) \<and> live t"
  proof (cases r)
    case None
    then show ?thesis using a filealloc_effect [OF a(2)] same_fds_inv same_fds_live by auto
  next
    case (Some f)
    let ?u = "s\<lparr>ftable := set_ref f 1 (ftable s)\<rparr>"
    have e: "f < length (ftable s)" "same_fds ?u t" using filealloc_effect [OF a(2)] Some by auto
    have "fd_inv (f # M) ?u" using inv_dup a(1) e(1) by blast
    moreover have "live ?u" using a(1) by simp
    ultimately show ?thesis using same_fds_inv [OF e(2)] same_fds_live [OF e(2)] Some by simp
  qed
qed simp

text \<open>A descriptor of the running process.\<close>

definition names :: "nat \<Rightarrow> nat \<Rightarrow> 'x file_state_scheme \<Rightarrow> bool" where
  "names fd f s \<longleftrightarrow> (\<exists>i. running s = Some i \<and> fd < NOFILE \<and> p_ofile (procs s ! i) ! fd = Some f)"

lemma fdv_fdalloc:
  assumes "stable P"
  shows "fdv (\<lambda>s. (fd_inv (f # M) s \<and> live s) \<and> P s) (fdalloc f)
    (\<lambda>r s. if r < 0 then (fd_inv (f # M) s \<and> live s) \<and> P s else (fd_inv M s \<and> live s) \<and> names (nat r) f s)"
proof (rule fdvI)
  fix s t :: "'a file_state_scheme" and r assume a: "(fd_inv (f # M) s \<and> live s) \<and> P s" "fdalloc f s = Ok r t"
  consider "r = - 1" "same_fds s t" | i fd where "running s = Some i" "r = int fd" "fd < NOFILE" "p_ofile (procs s ! i) ! fd = None"
     "same_fds (s\<lparr>procs := set_fd i fd (Some f) (procs s)\<rparr>) t"
    using fdalloc_effect [OF a(2)] by blast
  then show "if r < 0 then (fd_inv (f # M) t \<and> live t) \<and> P t else (fd_inv M t \<and> live t) \<and> names (nat r) f t"
  proof cases
    case 1
    have "P t" using assms a(1) 1(2) unfolding stable_def by blast
    then show ?thesis using 1 a(1) same_fds_inv same_fds_live by auto
  next
    case 2
    let ?u = "s\<lparr>procs := set_fd i fd (Some f) (procs s)\<rparr>"
    have i: "i < length (procs s)" "\<not> dead (p_state (procs s ! i))" using a(1) 2(1) by (auto simp: live_def)
    have "fd_inv M ?u" by (rule inv_put [OF _ i(1) 2(3,4) i(2)]) (use a(1) in blast)
    moreover have "live ?u" using a(1) i by (auto simp: live_def set_fd_def nth_upd_at)
    moreover have "names fd f t"
    proof -
      have "length (p_ofile (procs s ! i)) = NOFILE" using a(1) i(1) by (auto simp: fd_inv_def fds_wf_def)
      then have "p_ofile (procs ?u ! i) ! fd = Some f" using i(1) 2(3) by (simp add: set_fd_def)
      moreover have "p_ofile (procs t ! i) = p_ofile (procs ?u ! i)"
        using 2(5) i(1) by (auto simp: same_fds_def list_all2_conv_all_nth quiet_def set_fd_def)
      ultimately show ?thesis using 2(1,3) same_fds_running [OF 2(5)] by (auto simp: names_def)
    qed
    ultimately show ?thesis using same_fds_inv [OF 2(5)] same_fds_live [OF 2(5)] 2(2) by simp
  qed
qed simp

lemma stable_names: "stable (\<lambda>s. fd_inv M s \<and> live s \<and> names fd f s)"
proof -
  have "names fd f t" if "same_fds s t" "live s" "names fd f s" for s t :: "'a file_state_scheme"
    using that same_fds_running [OF that(1)] by (auto simp: names_def live_def same_fds_def list_all2_conv_all_nth quiet_def)
  then show ?thesis using same_fds_inv same_fds_live unfolding stable_def by blast
qed

lemma fdv_argfd: "fdv fd_exact (argfd n) (\<lambda>r s. fd_exact s \<and> (\<forall>fd f. r = Some (fd, f) \<longrightarrow> names fd f s))"
proof (rule fdvI)
  fix s t :: "'b file_state_scheme" and r assume a: "fd_exact s" "argfd n s = Ok r t"
  have "fd_exact t" by (rule fdvD(1) [OF fdv_keeps [OF fd_argfd] a])
  then show "fd_exact t \<and> (\<forall>fd f. r = Some (fd, f) \<longrightarrow> names fd f t)"
    using argfd_effect a(2) by (auto simp: names_def)
next
  fix s t :: "'b file_state_scheme" assume "fd_exact s" "argfd n s = Blocked t"
  then show "fd_covered t" by (rule fdvD(2) [OF fdv_keeps [OF fd_argfd]])
qed

lemma ok_argfd:
  assumes "\<And>fd f. fdv (\<lambda>s. fd_exact s \<and> names fd f s) (g (fd, f)) (\<lambda>_. fd_exact)"
  shows "fd_ok (karg (argfd n) g)"
  unfolding fd_ok_fdv karg_def
proof (rule fdv_bind [OF fdv_argfd])
  fix r :: "(nat \<times> nat) option"
  show "fdv (\<lambda>s. fd_exact s \<and> (\<forall>fd f. r = Some (fd, f) \<longrightarrow> names fd f s)) (case r of None \<Rightarrow> kret (- 1) | Some v \<Rightarrow> g v) (\<lambda>_. fd_exact)"
  proof (cases r)
    case None
    then show ?thesis by (simp add: fdv_def)
  next
    case (Some v)
    obtain fd f where "v = (fd, f)" by (cases v)
    then show ?thesis using Some assms [of fd f] by simp
  qed
qed

lemma fdv_fdfree: "fdv (\<lambda>s. (fd_inv M s \<and> live s) \<and> names fd f s) (fdfree fd) (\<lambda>_ s. fd_inv (f # M) s \<and> live s)"
proof (rule fdvI)
  fix s t :: "'b file_state_scheme" and x assume a: "(fd_inv M s \<and> live s) \<and> names fd f s" "fdfree fd s = Ok x t"
  obtain i where i: "running s = Some i" "same_fds (s\<lparr>procs := set_fd i fd None (procs s)\<rparr>) t" using fdfree_effect [OF a(2)] by blast
  let ?u = "s\<lparr>procs := set_fd i fd None (procs s)\<rparr>"
  have l: "i < length (procs s)" "\<not> dead (p_state (procs s ! i))" using a(1) i(1) by (auto simp: live_def)
  have n: "fd < NOFILE" "p_ofile (procs s ! i) ! fd = Some f" using a(1) i(1) by (auto simp: names_def)
  have "fd_inv (f # M) ?u" by (rule inv_take [OF _ l(1) n]) (use a(1) in simp)
  moreover have "live ?u" using i(1) l by (auto simp: live_def set_fd_def nth_upd_at)
  ultimately show "fd_inv (f # M) t \<and> live t" using same_fds_inv [OF i(2)] same_fds_live [OF i(2)] by blast
qed simp

lemma fdv_kret: "(\<And>s. P s \<Longrightarrow> Q x s) \<Longrightarrow> fdv P (kret x) Q" "(\<And>s. P s \<Longrightarrow> Q x s) \<Longrightarrow> fdv P (Ok x) Q"
  by (auto simp: fdv_def)

lemma fdv_kthen1: "fdv P m (\<lambda>_. R) \<Longrightarrow> fdv R (kthen ms n) Q \<Longrightarrow> fdv P (kthen (m # ms) n) Q"
  unfolding kthen_def kdo.simps kbind_assoc by (rule fdv_bind) auto

lemma fdv_kthen0: "fdv P n Q \<Longrightarrow> fdv P (kthen [] n) Q"
  by (simp add: kthen_def)

lemma ok_sys_close: "fd_ok sys_close"
  unfolding sys_close_def
proof (rule ok_argfd)
  fix fd f
  show "fdv (\<lambda>s. fd_exact s \<and> names fd f s) (case (fd, f) of (fd, f) \<Rightarrow> kthen [fdfree fd, fileclose f] (kret 0)) (\<lambda>_. fd_exact)"
    unfolding prod.case fd_exact_def
    by (rule fdv_kthen1 [OF fdv_fdfree fdv_kthen1 [OF fdv_fileclose fdv_kthen0]]) (rule fdv_kret, simp)
qed

lemma upd_commute: "s\<lparr>ftable := x, procs := y\<rparr> = (s\<lparr>procs := y, ftable := x\<rparr> :: 'x file_state_scheme)"
  by (rule file_state.equality) simp_all

lemma fdv_dup: "fdv (\<lambda>s. fd_exact s \<and> names fd f s) (kbind (fdalloc f) (\<lambda>fd. if fd < 0 then kret (- 1) else kbind (filedup f) (\<lambda>_. kret fd))) (\<lambda>_. fd_exact)"
proof (rule fdvI)
  fix s t :: "'b file_state_scheme" and x
  assume a: "fd_exact s \<and> names fd f s" "kbind (fdalloc f) (\<lambda>fd. if fd < 0 then kret (- 1) else kbind (filedup f) (\<lambda>_. kret fd)) s = Ok x t"
  obtain r u where r: "fdalloc f s = Ok r u" "(if r < 0 then kret (- 1) else kbind (filedup f) (\<lambda>_. kret r)) u = Ok x t"
    using a(2) unfolding kbind_eq_Ok by blast
  have e: "fd_inv [] s" "live s" using a(1) by (simp_all add: fd_exact_def)
  consider "r = - 1" "same_fds s u" | i k where "running s = Some i" "r = int k" "k < NOFILE" "p_ofile (procs s ! i) ! k = None"
     "same_fds (s\<lparr>procs := set_fd i k (Some f) (procs s)\<rparr>) u"
    using fdalloc_effect [OF r(1)] by blast
  then show "fd_exact t"
  proof cases
    case 1
    then have "t = u" using r(2) by simp
    then show ?thesis using 1(2) e same_fds_inv same_fds_live by (auto simp: fd_exact_def)
  next
    case 2
    let ?v = "s\<lparr>ftable := set_ref f 1 (ftable s)\<rparr>"
    let ?w = "?v\<lparr>procs := set_fd i k (Some f) (procs ?v)\<rparr>"
    have i: "i < length (procs s)" "\<not> dead (p_state (procs s ! i))" using e(2) 2(1) by (auto simp: live_def)
    have "f < length (ftable s)"
      using a(1) 2(1) inv_take(2) [OF e(1) i(1)] by (auto simp: names_def)
    then have "fd_inv [f] ?v" by (rule inv_dup [OF e(1)])
    then have w: "fd_inv [] ?w" by (rule inv_put) (use i 2 in simp_all)
    have lw: "live ?w" using i 2(1) by (auto simp: live_def set_fd_def nth_upd_at)
    have "filedup f u = Ok f t" using r(2) 2(2) filedup_effect by (auto simp: kbind_eq_Ok)
    then have "same_fds (u\<lparr>ftable := set_ref f 1 (ftable u)\<rparr>) t" using filedup_effect by blast
    moreover have "same_fds ?w (u\<lparr>ftable := set_ref f 1 (ftable u)\<rparr>)" using same_fds_cong [OF 2(5), of f 1] by (simp add: upd_commute)
    ultimately have "same_fds ?w t" using same_fds_trans by blast
    then show ?thesis using w lw same_fds_inv same_fds_live by (auto simp: fd_exact_def)
  qed
next
  fix s t :: "'b file_state_scheme"
  assume "kbind (fdalloc f) (\<lambda>fd. if fd < 0 then kret (- 1) else kbind (filedup f) (\<lambda>_. kret fd)) s = Blocked t"
  then show "fd_covered t" by (auto simp: kbind_eq_Blocked split: if_splits)
qed

lemma ok_sys_dup: "fd_ok sys_dup"
  unfolding sys_dup_def by (rule ok_argfd) (simp add: fdv_dup)

text \<open>The references \<open>M\<close> in flight.\<close>

definition fd_held :: "nat list \<Rightarrow> 'x file_state_scheme \<Rightarrow> bool" where
  "fd_held M s \<longleftrightarrow> fd_inv M s \<and> live s"

lemma fd_held_Nil: "fd_held [] = fd_exact"
  by (auto simp: fd_held_def fd_exact_def)

lemma fd_held_swap: "fd_held (a # b # M) = fd_held (b # a # M)"
proof -
  have "count_list (a # b # M) f = count_list (b # a # M) f" for f by simp
  then show ?thesis by (auto simp: fd_held_def fd_inv_def fun_eq_iff simp del: count_list.simps)
qed

lemma held_frame: "keeps same_fds same_fds m \<Longrightarrow> fdv (fd_held M) m (\<lambda>_. fd_held M)"
  unfolding fd_held_def by (rule fdv_frame [OF _ stable_inv(1)]) auto

lemmas held_fileclose = fdv_fileclose [folded fd_held_def]

definition some_held :: "nat option \<Rightarrow> nat list \<Rightarrow> 'x file_state_scheme \<Rightarrow> bool" where
  "some_held f M = fd_held (case f of None \<Rightarrow> M | Some i \<Rightarrow> i # M)"

lemma some_held_simps [simp]: "some_held (Some f) M = fd_held (f # M)" "some_held None M = fd_held M"
  by (simp_all add: some_held_def)

lemma held_option:
  "fdv (fd_held M) (m None) Q \<Longrightarrow> (\<And>i. fdv (fd_held (i # M)) (m (Some i)) Q) \<Longrightarrow> fdv (some_held f M) (m f) Q"
  by (cases f) simp_all

lemma held_filealloc: "fdv (fd_held M) filealloc (\<lambda>r. some_held r M)"
  using fdv_filealloc [of M] unfolding fd_held_def some_held_def
  by (rule fdv_post) (auto simp: fd_held_def split: option.splits)

lemmas held_fdfree = fdv_fdfree [folded fd_held_def]
lemmas held_fdalloc_names = fdv_fdalloc [folded fd_held_def]

lemma held_fdalloc: "fdv (fd_held (f # M)) (fdalloc f) (\<lambda>r. if r < 0 then fd_held (f # M) else fd_held M)"
proof -
  have "stable (\<lambda>_. True)" by (simp add: stable_def)
  from held_fdalloc_names [OF this] show ?thesis
    by (rule fdv_post [OF fdv_pre]) (auto split: if_splits)
qed

lemma held_fileclose_some: "fdv (some_held f M) (fileclose_some f) (\<lambda>_. fd_held M)"
  unfolding fileclose_some_def some_held_def
  by (cases f) (auto intro!: held_fileclose fdv_kret)

lemma held_keep: "keeps same_fds same_fds m \<Longrightarrow> fdv (fd_held M) n Q \<Longrightarrow> fdv (fd_held M) (kbind m (\<lambda>_. n)) Q"
  by (rule fdv_bind [OF held_frame])

lemma held_then:
  "(\<And>m. m \<in> set ms \<Longrightarrow> keeps same_fds same_fds m) \<Longrightarrow> fdv (fd_held M) n Q \<Longrightarrow> fdv (fd_held M) (kthen ms n) Q"
  unfolding kthen_def by (rule fdv_bind [OF held_frame [OF fd.keeps_kdo]])

lemma held_open:
  assumes bad: "\<And>f. fdv (some_held f []) (bad f) (\<lambda>_. fd_held [])" and good: "\<And>f fd. fdv (fd_held []) (good f fd) (\<lambda>_. fd_held [])"
  shows "fdv (fd_held []) (kbind filealloc (\<lambda>f. kbind (case f of None \<Rightarrow> kret (- 1) | Some f \<Rightarrow> fdalloc f) (\<lambda>fd.
    if fd < 0 then bad f else good f fd))) (\<lambda>_. fd_held [])"
proof (rule fdv_bind [OF held_filealloc], rule fdv_bind)
  fix f :: "nat option" and r :: int
  show "fdv (some_held f []) (case f of None \<Rightarrow> kret (- 1) | Some f \<Rightarrow> fdalloc f) (\<lambda>r. if r < 0 then some_held f [] else fd_held [])"
  proof (cases f)
    case None
    then show ?thesis by (auto intro!: fdv_kret)
  next
    case (Some a)
    show ?thesis unfolding Some option.case some_held_simps by (rule held_fdalloc)
  qed
  show "fdv (if r < 0 then some_held f [] else fd_held []) (if r < 0 then bad f else good f r) (\<lambda>_. fd_held [])"
    using bad good by simp
qed

lemma ok_sys_open_file: "fd_ok (sys_open_file ip omode)"
  unfolding fd_ok_fdv sys_open_file_def fd_held_Nil [symmetric]
proof (rule held_open)
  show "fdv (some_held f []) (kthen [fileclose_some f, iunlockput (Some ip), end_op] (kret (- 1))) (\<lambda>_. fd_held [])" for f
    by (rule fdv_kthen1 [OF held_fileclose_some held_then]) (auto intro: fd_iunlockput fd_end_op intro!: fdv_kret)
qed (rule held_then, auto intro!: fd_files fdv_kret)

text \<open>\<open>pipealloc\<close> hands out a reference for each end, or none.\<close>

definition pipe_held :: "int \<times> nat option \<times> nat option \<Rightarrow> 'x file_state_scheme \<Rightarrow> bool" where
  "pipe_held v s \<longleftrightarrow> (case v of (r, f0, f1) \<Rightarrow>
     if r < 0 then fd_held [] s else (\<exists>i0 i1. f0 = Some i0 \<and> f1 = Some i1 \<and> fd_held [i0, i1] s))"

lemma held_pipealloc_bad: "fdv (\<lambda>s. fd_held ((case f0 of None \<Rightarrow> [] | Some i \<Rightarrow> [i]) @ (case f1 of None \<Rightarrow> [] | Some i \<Rightarrow> [i])) s) (pipealloc_bad f0 f1) pipe_held"
proof -
  have a: "fdv (some_held f0 (case f1 of None \<Rightarrow> [] | Some i \<Rightarrow> [i])) (fileclose_some f0) (\<lambda>_. some_held f1 [])"
    using held_fileclose_some by (cases f1) auto
  have "fdv (some_held f0 (case f1 of None \<Rightarrow> [] | Some i \<Rightarrow> [i])) (pipealloc_bad f0 f1) pipe_held"
    unfolding pipealloc_bad_def
    by (rule fdv_kthen1 [OF a fdv_kthen1 [OF held_fileclose_some fdv_kthen0]]) (rule fdv_kret, simp add: pipe_held_def)
  then show ?thesis by (cases f0; cases f1) simp_all
qed

lemma fd_pipe_end: "keeps same_fds same_fds (pipe_end f p w)"
  unfolding pipe_end_def by (auto intro!: fd_files)

lemma held_pipealloc: "fdv (fd_held [] :: 'x file_state_scheme \<Rightarrow> bool) pipealloc pipe_held"
  unfolding pipealloc_def
proof (rule fdv_bind [OF held_filealloc], rule held_option, unfold option.case)
  show "fdv (fd_held [] :: 'x file_state_scheme \<Rightarrow> bool) (pipealloc_bad None None) pipe_held" using held_pipealloc_bad [of None None] by simp
  fix i0
  show "fdv (fd_held [i0] :: 'x file_state_scheme \<Rightarrow> bool) (kbind filealloc (\<lambda>f1. case f1 of None \<Rightarrow> pipealloc_bad (Some i0) None | Some i1 \<Rightarrow>
     kbind kalloc (\<lambda>p. if p = 0 then pipealloc_bad (Some i0) f1 else
       kthen [pipe_mod p (\<lambda>q. q\<lparr>pi_readopen := True\<rparr>), pipe_mod p (\<lambda>q. q\<lparr>pi_writeopen := True\<rparr>),
              pipe_mod p (\<lambda>q. q\<lparr>pi_nwrite := 0\<rparr>), pipe_mod p (\<lambda>q. q\<lparr>pi_nread := 0\<rparr>), initlock (PipeLock p) ''pipe'',
              pipe_end i0 p False, pipe_end i1 p True] (kret (0, Some i0, f1))))) pipe_held"
  proof (rule fdv_bind [OF held_filealloc], rule held_option, unfold option.case)
    show "fdv (fd_held [i0] :: 'x file_state_scheme \<Rightarrow> bool) (pipealloc_bad (Some i0) None) pipe_held" using held_pipealloc_bad [of "Some i0" None] by simp
    fix i1
    have s: "fd_held [i1, i0] = (fd_held [i0, i1] :: 'x file_state_scheme \<Rightarrow> bool)" by (rule fd_held_swap)
    have bad: "fdv (fd_held [i0, i1] :: 'x file_state_scheme \<Rightarrow> bool) (pipealloc_bad (Some i0) (Some i1)) pipe_held"
      using held_pipealloc_bad [of "Some i0" "Some i1"] by simp
    have "fdv (fd_held [i0, i1] :: 'x file_state_scheme \<Rightarrow> bool) (kthen [pipe_mod p (\<lambda>q. q\<lparr>pi_readopen := True\<rparr>), pipe_mod p (\<lambda>q. q\<lparr>pi_writeopen := True\<rparr>),
              pipe_mod p (\<lambda>q. q\<lparr>pi_nwrite := 0\<rparr>), pipe_mod p (\<lambda>q. q\<lparr>pi_nread := 0\<rparr>), initlock (PipeLock p) ''pipe'',
              pipe_end i0 p False, pipe_end i1 p True] (kret (0, Some i0, Some i1))) pipe_held" for p
      by (rule held_then) (auto intro!: fd_files fd_pipe_end fdv_kret simp: pipe_held_def)
    then show "fdv (fd_held [i1, i0] :: 'x file_state_scheme \<Rightarrow> bool) (kbind kalloc (\<lambda>p. if p = 0 then pipealloc_bad (Some i0) (Some i1) else
       kthen [pipe_mod p (\<lambda>q. q\<lparr>pi_readopen := True\<rparr>), pipe_mod p (\<lambda>q. q\<lparr>pi_writeopen := True\<rparr>),
              pipe_mod p (\<lambda>q. q\<lparr>pi_nwrite := 0\<rparr>), pipe_mod p (\<lambda>q. q\<lparr>pi_nread := 0\<rparr>), initlock (PipeLock p) ''pipe'',
              pipe_end i0 p False, pipe_end i1 p True] (kret (0, Some i0, Some i1)))) pipe_held"
      unfolding s using bad by (intro fdv_bind [OF held_frame [OF fd.keeps_kalloc]]) simp
  qed
qed

lemma held_sys_pipe:
  fixes fd :: addr
  defines "bad \<equiv> \<lambda>rf w fd0. kthen [kwhen (fd0 \<ge> 0) (fdfree (nat fd0)), fileclose rf, fileclose w] (kret (- 1))"
  assumes good: "\<And>fd0 fd1. keeps same_fds same_fds (good fd0 fd1)"
  shows "fdv (fd_held [rf, w]) (kbind (fdalloc rf) (\<lambda>fd0. kbind (if fd0 < 0 then kret (- 1) else fdalloc w) (\<lambda>fd1.
       if fd1 < 0 then bad rf w fd0 else good fd0 fd1))) (\<lambda>_. fd_held [])"
proof -
  let ?R = "\<lambda>fd0 s. if fd0 < 0 then fd_held [rf, w] s else fd_held [w] s \<and> names (nat fd0) rf s"
  have a: "fdv (fd_held [rf, w]) (fdalloc rf) ?R"
  proof -
    have "stable (\<lambda>_. True)" by (simp add: stable_def)
    from held_fdalloc_names [OF this, of rf "[w]"] show ?thesis by (rule fdv_post [OF fdv_pre]) (auto split: if_splits)
  qed
  have b: "fdv (?R fd0) (if fd0 < 0 then kret (- 1) else fdalloc w) (\<lambda>fd1 s. if fd1 < 0 then ?R fd0 s else fd_held [] s)" for fd0
  proof (cases "fd0 < 0")
    case True
    then show ?thesis by (auto intro!: fdv_kret)
  next
    case False
    have h: "fdv (\<lambda>s. fd_held [w] s \<and> (fd_inv [w] s \<and> live s \<and> names (nat fd0) rf s)) (fdalloc w)
       (\<lambda>r s. if r < 0 then fd_held [w] s \<and> (fd_inv [w] s \<and> live s \<and> names (nat fd0) rf s) else fd_held [] s \<and> names (nat r) w s)"
      by (rule held_fdalloc_names [OF stable_names])
    have "fdv (\<lambda>s. fd_held [w] s \<and> names (nat fd0) rf s) (fdalloc w)
       (\<lambda>r s. if r < 0 then fd_held [w] s \<and> names (nat fd0) rf s else fd_held [] s)"
      by (rule fdv_post [OF fdv_pre [OF h]]) (auto simp: fd_held_def split: if_splits)
    then show ?thesis using False by (simp only: if_False)
  qed
  have c: "fdv (?R fd0) (bad rf w fd0) (\<lambda>_. fd_held [])" for fd0
  proof -
    have f: "fdv (fd_held [rf, w]) (kthen [fileclose rf, fileclose w] (kret (- 1))) (\<lambda>_. fd_held [])"
      by (rule fdv_kthen1 [OF held_fileclose fdv_kthen1 [OF held_fileclose fdv_kthen0]]) (rule fdv_kret, simp)
    show ?thesis unfolding bad_def
    proof (rule fdv_kthen1 [OF _ f], cases "fd0 < 0")
      case True
      then show "fdv (?R fd0) (kwhen (fd0 \<ge> 0) (fdfree (nat fd0))) (\<lambda>_. fd_held [rf, w])" by (auto intro!: fdv_kret)
    next
      case False
      then show "fdv (?R fd0) (kwhen (fd0 \<ge> 0) (fdfree (nat fd0))) (\<lambda>_. fd_held [rf, w])" using held_fdfree [of "[w]" "nat fd0" rf] by simp
    qed
  qed
  have d: "fdv (\<lambda>s. if fd1 < 0 then ?R fd0 s else fd_held [] s) (if fd1 < 0 then bad rf w fd0 else good fd0 fd1) (\<lambda>_. fd_held [])" for fd0 fd1
    using c [of fd0] held_frame [OF good, of "[]" fd0 fd1] by (cases "fd1 < 0") simp_all
  show ?thesis by (rule fdv_bind [OF a fdv_bind [OF b d]])
qed

lemma ok_sys_pipe: "fd_ok (sys_pipe :: ('x trap_state_scheme, int) K)"
  unfolding sys_pipe_def
proof (rule ok_karg [OF fd_ok_of [OF fd_argptr]], unfold fd_ok_fdv fd_held_Nil [symmetric], rule fdv_bind [OF held_pipealloc])
  fix fd and v :: "int \<times> nat option \<times> nat option"
  obtain r f0 f1 where v: "v = (r, f0, f1)" by (cases v)
  show "fdv (pipe_held v :: 'x trap_state_scheme \<Rightarrow> bool) (case v of (r, rf, w) \<Rightarrow> if r < 0 then kret (- 1)
     else need ''null file'' rf (\<lambda>rf. need ''null file'' w (\<lambda>w.
       kbind (fdalloc rf) (\<lambda>fd0. kbind (if fd0 < 0 then kret (- 1) else fdalloc w) (\<lambda>fd1.
       if fd1 < 0 then kthen [kwhen (fd0 \<ge> 0) (fdfree (nat fd0)), fileclose rf, fileclose w] (kret (- 1))
       else kthen [store_user (word_bytes (uint_of fd0)) fd, store_user (word_bytes (uint_of fd1)) (fd + 4)] (kret 0)))))) (\<lambda>_. fd_held [])"
  proof (cases "r < 0 \<or> f0 = None \<or> f1 = None")
    case True
    then show ?thesis unfolding v by (auto simp: pipe_held_def fdv_def)
  next
    case False
    then obtain rf w where f: "f0 = Some rf" "f1 = Some w" "\<not> r < 0" by auto
    have "pipe_held v = (fd_held [rf, w] :: 'x trap_state_scheme \<Rightarrow> bool)" unfolding v using f by (auto simp: pipe_held_def fun_eq_iff)
    then show ?thesis unfolding v prod.case need_def f option.case if_not_P [OF f(3)]
      by (simp only:) (rule held_sys_pipe, auto intro!: fd_base fd_store_user)
  qed
qed

section \<open>The file system calls\<close>

lemma fd_karg: "keeps same_fds same_fds m \<Longrightarrow> (\<And>v. keeps same_fds same_fds (f v)) \<Longrightarrow> keeps same_fds same_fds (karg m f)"
  unfolding karg_def by (auto intro!: fd_base)

lemma fd_store_stat: "keeps same_fds same_fds (store_stat st a)"
  unfolding store_stat_def by (auto intro!: fd_args)

lemma fd_sys_read: "keeps same_fds same_fds sys_read"
  unfolding sys_read_def sys_read_end_def by (auto intro!: fd_karg fd_args)

lemma fd_sys_write: "keeps same_fds same_fds sys_write"
  unfolding sys_write_def by (auto intro!: fd_karg fd_args)

lemma fd_sys_fstat: "keeps same_fds same_fds sys_fstat"
  unfolding sys_fstat_def by (auto intro!: fd_karg fd_args fd_store_stat)

lemma fd_sys_link_bad: "keeps same_fds same_fds (sys_link_bad ip)"
  unfolding sys_link_bad_def by (auto intro!: fd_args)

lemma fd_sys_link: "keeps same_fds same_fds sys_link"
  unfolding sys_link_def by (auto intro!: fd_karg fd_args fd_sys_link_bad)

lemma fd_isdirempty: "keeps same_fds same_fds (isdirempty dp)"
  unfolding isdirempty_def by (auto intro!: fd_args)

lemma fd_sys_unlink_bad: "keeps same_fds same_fds (sys_unlink_bad d)"
  unfolding sys_unlink_bad_def by (auto intro!: fd_args)

lemma fd_sys_unlink_entry: "keeps same_fds same_fds (sys_unlink_entry dp ip off)"
  unfolding sys_unlink_entry_def by (auto intro!: fd_args fd_isdirempty fd_sys_unlink_bad)

lemma fd_sys_unlink: "keeps same_fds same_fds sys_unlink"
  unfolding sys_unlink_def by (auto intro!: fd_karg fd_args fd_sys_unlink_bad fd_sys_unlink_entry)

lemma fd_create_dots: "keeps same_fds same_fds (create_dots dp ip)"
  unfolding create_dots_def by (auto intro!: fd_args)

lemma fd_create: "keeps same_fds same_fds (create path ty ma mi)"
  unfolding create_def by (auto intro!: fd_args fd_create_dots)

lemma fd_create_end: "keeps same_fds same_fds m \<Longrightarrow> keeps same_fds same_fds (create_end m)"
  unfolding create_end_def by (auto intro!: fd_args)

lemma fd_sys_mkdir: "keeps same_fds same_fds sys_mkdir"
  unfolding sys_mkdir_def by (auto intro!: fd_create_end fd_args fd_create)

lemma fd_sys_mknod: "keeps same_fds same_fds sys_mknod"
  unfolding sys_mknod_def by (auto intro!: fd_create_end fd_args fd_create)

lemma fd_sys_chdir: "keeps same_fds same_fds sys_chdir"
  unfolding sys_chdir_def by (auto intro!: fd_args)

lemma ok_sys_open: "fd_ok sys_open"
  unfolding sys_open_def
  by (intro ok_karg ok_rules fd_ok_of [OF fd_argstr] fd_ok_of [OF fd_argint] fd_ok_of [OF fd_create] fd_ok_of [OF fd_names(1)])
    (auto intro!: ok_rules ok_sys_open_file fd_ok_of [OF fd_begin_op] fd_ok_of [OF fd_ilock] fd_ok_of [OF fd_ino(2)]
        fd_ok_of [OF fd_end_op] fd_ok_of [OF fd_iunlockput])

lemma fd_okD: "fd_ok m \<Longrightarrow> fd_exact s \<Longrightarrow> m s = Ok r t \<Longrightarrow> fd_exact t" "fd_ok m \<Longrightarrow> fd_exact s \<Longrightarrow> m s = Blocked t \<Longrightarrow> fd_covered t"
  unfolding fd_ok_fdv by (auto dest: fdvD)

lemmas ok_file_calls = ok_sys_dup ok_sys_close ok_sys_open ok_sys_pipe
  fd_ok_of [OF fd_sys_read] fd_ok_of [OF fd_sys_write] fd_ok_of [OF fd_sys_fstat] fd_ok_of [OF fd_sys_link]
  fd_ok_of [OF fd_sys_unlink] fd_ok_of [OF fd_sys_mkdir] fd_ok_of [OF fd_sys_mknod] fd_ok_of [OF fd_sys_chdir]

text \<open>C4: the reference count of every file is the number of descriptors that name it, and every system call on files
  keeps it so on every path by which it returns, the failures included: a descriptor table that is full, no free file,
  no page for a pipe, a bad pointer. Where a call gives up the processor on the way, no count is below the number of
  descriptors that name the file.\<close>

theorem descriptor_counts_exact:
  assumes "m \<in> set [sys_dup, sys_read, sys_write, sys_close, sys_fstat, sys_link, sys_unlink, sys_open, sys_mkdir, sys_mknod,
    sys_chdir, sys_pipe]" "fd_exact s"
  shows "(\<forall>r t. m s = Ok r t \<longrightarrow> fd_exact t) \<and> (\<forall>t. m s = Blocked t \<longrightarrow> fd_covered t)"
proof -
  have "fd_ok m" using assms(1) by (elim set_ConsD [elim_format] disjE) (simp_all only: ok_file_calls list.set empty_iff)
  from fd_okD [OF this assms(2)] show ?thesis by simp
qed

text \<open>A process with one open file, about to call \<open>dup(0)\<close>: the page table maps every page to the physical page at
  \<open>0x01010000\<close>, where the argument lies at offset 8.\<close>

definition dup_mem :: byte_mem where
  "dup_mem = (\<lambda>a. if 0xD810008 \<le> a \<and> a \<le> 0xD81000B then 0 else 1)"

definition fdt_demo :: trap_state where
  "fdt_demo = (let s = file_demo [\<lparr>f_type = FD_INODE, f_ref = 1, f_readable = True, f_writable = False, f_pipe = 0, f_ip = Some 0, f_off = 0\<rparr>] [] in
     thread_state.extend (file_state.extend (s\<lparr>mem := dup_mem, cr3 := 0x2020000,
         procs := upd_at 0 (\<lambda>p. p\<lparr>p_sz := 0x2000, p_tf := (p_tf p)\<lparr>tf_esp := 0x1004\<rparr>, p_ofile := (p_ofile p)[0 := Some 0]\<rparr>) (procs s)\<rparr>)
       \<lparr>fork_first = False\<rparr>) \<lparr>ticks = 0, kbd_shift = 0\<rparr>)"

lemma file_demo_procs: "procs (file_demo fs ips) = procs smp_demo"
  by (simp add: file_demo_def con_demo_def fs_demo_def log_demo_def console_state.defs fs_state.defs
     log_state.defs sl_state.defs sl_demo_ok)

lemma running_curproc: "running s = Some i \<Longrightarrow> curproc s = Some i"
  by (auto simp: running_def curproc_def split: option.splits)

definition dup_proc :: proc where
  "dup_proc = idle_slot\<lparr>p_state := RUNNING, p_pid := 3, p_tid := - 1, p_sz := 0x2000,
     p_tf := (p_tf idle_slot)\<lparr>tf_esp := 0x1004\<rparr>, p_ofile := Some 0 # replicate 15 None\<rparr>"

lemma dup_proc_fields [simp]: "p_ofile dup_proc = Some 0 # replicate 15 None" "p_state dup_proc = RUNNING" "p_tid dup_proc = - 1"
  "p_sz dup_proc = 0x2000" "tf_esp (p_tf dup_proc) = 0x1004"
  by (simp_all add: dup_proc_def)

lemma fdt_demo_procs: "procs fdt_demo = dup_proc
     # idle_slot\<lparr>p_state := RUNNING, p_pid := 3, p_tid := 7, p_parent := Some 0\<rparr> # replicate 62 idle_slot"
proof -
  have "procs fdt_demo = upd_at 0 (\<lambda>p. p\<lparr>p_sz := 0x2000, p_tf := (p_tf p)\<lparr>tf_esp := 0x1004\<rparr>, p_ofile := (p_ofile p)[0 := Some 0]\<rparr>) (procs smp_demo)"
    by (simp add: fdt_demo_def Let_def thread_state.defs file_state.defs file_demo_procs)
  moreover have "(replicate 16 None)[0 := Some 0] = Some 0 # replicate 15 (None :: nat option)"
    using list_update_code(2) [of None "replicate 15 None" "Some (0 :: nat)"] replicate_Suc [of 15 "None :: nat option"] by simp
  ultimately show ?thesis
    by (simp add: smp_demo_def vm_state.defs upd_at_def idle_slot_def dup_proc_def)
qed

lemma fdt_demo_machine: "lk_ok fdt_demo" "held fdt_demo = {}" "curproc fdt_demo = Some 0"
proof -
  let ?s = "file_demo [\<lparr>f_type = FD_INODE, f_ref = 1, f_readable = True, f_writable = False, f_pipe = 0, f_ip = Some 0, f_off = 0\<rparr>] []"
  have "curproc fdt_demo = curproc ?s" "lk_ok fdt_demo = lk_ok ?s" "held fdt_demo = held ?s"
    by (simp_all add: fdt_demo_def Let_def thread_state.defs file_state.defs curproc_def mycpu_index_def lk_ok_def held_def)
  then show "lk_ok fdt_demo" "held fdt_demo = {}" "curproc fdt_demo = Some 0" using file_demo_env by (simp_all add: env_def)
qed

lemma fdt_demo_fields: "ftable fdt_demo = [\<lparr>f_type = FD_INODE, f_ref = 1, f_readable = True, f_writable = False, f_pipe = 0, f_ip = Some 0, f_off = 0\<rparr>]"
  "mem fdt_demo = dup_mem" "cr3 fdt_demo = 0x2020000"
  by (simp_all add: fdt_demo_def Let_def thread_state.defs file_state.defs)

lemma fdt_demo_exact: "fd_exact fdt_demo"
proof -
  have w: "fds_wf (procs fdt_demo)"
    by (auto simp: fds_wf_def fdt_demo_procs idle_slot_def dead_def)
  have n: "count_list (replicate k None) (Some f) = 0" for k f :: nat by (induction k) simp_all
  have z: "sum_list (map g (replicate k (p :: proc))) = k * g p" for g :: "proc \<Rightarrow> nat" and k p by (induction k) simp_all
  have "fd_refs (procs fdt_demo) f = (if f = 0 then 1 else 0)" for f
    unfolding fd_refs_def fdt_demo_procs by (simp add: n z idle_slot_def del: map_replicate)
  then have "fd_inv [] fdt_demo" using w by (auto simp: fd_inv_def fdt_demo_fields)
  moreover have "live fdt_demo"
    using running_curproc [of fdt_demo] fdt_demo_machine(3) by (auto simp: live_def fdt_demo_procs dead_def)
  ultimately show ?thesis by (simp add: fd_exact_def)
qed

lemma dup_load:
  assumes "mem s = dup_mem" "cr3 s = 0x2020000"
  shows "load_user 4 0x1008 s = Ok [0, 0, 0, 0] s"
proof -
  have w: "load32 dup_mem 0xE820000 = 0x1010101" "load32 dup_mem 0xD810004 = 0x1010101"
    "dup_mem 0xD810008 = 0" "dup_mem 0xD810009 = 0" "dup_mem 0xD81000A = 0" "dup_mem 0xD81000B = 0"
    by (simp_all add: load32_def dup_mem_def)
  have "load_byte va s = Ok 0 s" if "va = 0x1008 \<or> va = 0x1009 \<or> va = 0x100A \<or> va = 0x100B" for va
    using that assms w
    by (auto simp: load_byte_def user_pa_def user_pte_def pte_of_def has_tab_def tab_of_def pde_of_def P2V_def PTE_ADDR_def
        PTX_def PDX_def)
  then show ?thesis by (simp add: numeral_eq_Suc)
qed

lemma cr3_probed: "cr3 (probed s) = cr3 (s :: 'x vm_state_scheme)"
  by (simp add: probed_def)

lemma dup_argfd: "argfd 0 fdt_demo = Ok (Some (0, 0)) (probed (probed (probed fdt_demo)))"
proof -
  have l: "load_user 4 0x1008 (probed (probed fdt_demo)) = Ok [0, 0, 0, 0] (probed (probed fdt_demo))"
    by (rule dup_load) (simp_all add: fdt_demo_fields cr3_probed)
  have "argint 0 fdt_demo = Ok (Some 0) (probed (probed fdt_demo))"
    using l fdt_demo_machine by (simp add: argint_def fetchint_def fdt_demo_procs user_top_def get32_def)
  then show ?thesis using fdt_demo_machine by (simp add: argfd_def fdt_demo_procs cint_def)
qed

theorem descriptor_counts_exact_witness:
  "fd_exact fdt_demo \<and> (\<exists>t. sys_dup fdt_demo = Ok 1 t \<and> fd_exact t \<and> f_ref (ftable t ! 0) = 2)"
proof -
  have i: "index_of (\<lambda>fd. (Some 0 # replicate 15 None) ! fd = (None :: nat option)) [0..<16] = Some 1"
    by (simp add: upt_rec [of 0 16] upt_rec [of "Suc 0" 16])
  obtain t where t: "sys_dup fdt_demo = Ok 1 t" "f_ref (ftable t ! 0) = 2"
    using fdt_demo_machine i dup_argfd
    by (auto simp: sys_dup_def karg_def fdalloc_def filedup_def kthen_def fdt_demo_procs fdt_demo_fields)
  then show ?thesis using descriptor_counts_exact [of sys_dup fdt_demo] fdt_demo_exact by auto
qed

end
