(* ===== verification/Xv6_User.thy ===== *)
theory Xv6_User
  imports Xv6_Console
begin

text \<open>
  The user library: ulib.c and printf.c. A user program sees the kernel through its system calls. The state of a
  program is the history of the calls it made, each with the value and the bytes it got back; what the next call
  gives is any function \<open>u_env\<close> of the history and the call, so what is proved holds for whatever the kernel and
  the other processes do. A program that calls \<open>exit\<close> has the outcome \<open>Blocked\<close>: it does not run again. Strings are
  byte lists as in Xv6_String. A loop that ends only when a call says so has a bound on its rounds, and the
  outcome \<open>Spins\<close> when they are used up.
\<close>

section \<open>System calls\<close>

datatype usyscall =
    U_fork | U_exit | U_wait | U_pipe | U_read int int | U_write int cstr | U_close int | U_kill int
  | U_exec cstr "cstr list" | U_open cstr uint | U_mknod cstr int int | U_unlink cstr | U_fstat int
  | U_link cstr cstr | U_mkdir cstr | U_chdir cstr | U_dup int | U_sbrk int | U_sleep int
  | U_clone addr addr uint addr | U_join int | U_gettid | U_tsuspend | U_tresume int

type_synonym uhist = "(usyscall \<times> int \<times> cstr) list"

record ustate =
  u_env :: "uhist \<Rightarrow> usyscall \<Rightarrow> int \<times> cstr"
  u_hist :: uhist

text \<open>The value and the bytes the kernel stored through the pointer argument.\<close>

definition usys :: "usyscall \<Rightarrow> ('x ustate_scheme, int \<times> cstr) K" where
  "usys c = kbind (kgets (\<lambda>s. u_env s (u_hist s) c)) (\<lambda>(r, d). kthen [kmod (\<lambda>s. s\<lparr>u_hist := u_hist s @ [(c, r, d)]\<rparr>)] (kret (r, d)))"

definition ucall :: "usyscall \<Rightarrow> ('x ustate_scheme, int) K" where
  "ucall c = kbind (usys c) (\<lambda>(r, _). kret r)"

definition udo :: "usyscall \<Rightarrow> ('x ustate_scheme, unit) K" where
  "udo c = kbind (usys c) (\<lambda>_. kret ())"

definition uexit :: "('x ustate_scheme, 'a) K" where
  "uexit = kthen [udo U_exit] kblock"

section \<open>ulib.c\<close>

text \<open>\<open>None\<close>: the copy runs past the end of the destination.\<close>

fun strcpy :: "cstr \<Rightarrow> cstr \<Rightarrow> cstr option" where
  "strcpy [] t = None"
| "strcpy (_ # s) t = (if hdc t = 0 then Some (0 # s) else map_option (Cons (hdc t)) (strcpy s (tl t)))"

fun strcmp :: "cstr \<Rightarrow> cstr \<Rightarrow> int" where
  "strcmp [] q = 0 - int (unat (hdc q))"
| "strcmp (c # p) q = (if c \<noteq> 0 \<and> c = hdc q then strcmp p (tl q) else int (unat c) - int (unat (hdc q)))"

fun ustrlen :: "cstr \<Rightarrow> nat" where
  "ustrlen [] = 0"
| "ustrlen (c # s) = (if c \<noteq> 0 then Suc (ustrlen s) else 0)"

definition umemset :: "addr \<Rightarrow> uint \<Rightarrow> nat \<Rightarrow> byte_mem \<Rightarrow> byte_mem" where
  "umemset dst c n m = stosb n dst (ucast c) m"

text \<open>The string from the first \<open>c\<close> on.\<close>

fun strchr :: "cstr \<Rightarrow> uchar \<Rightarrow> cstr option" where
  "strchr [] c = None"
| "strchr (x # s) c = (if x = 0 then None else if x = c then Some (x # s) else strchr s c)"

text \<open>The loop of \<open>gets\<close>, with \<open>n\<close> the room left: the bytes it puts in front of the NUL.\<close>

primrec gets_loop :: "nat \<Rightarrow> ('x ustate_scheme, cstr) K" where
  "gets_loop 0 = kret []"
| "gets_loop (Suc n) = kbind (usys (U_read 0 1)) (\<lambda>(cc, d). let c = hdc d in
     if cc < 1 then kret []
     else if c = 10 \<or> c = 13 then kret [c]
     else kbind (gets_loop n) (\<lambda>cs. kret (c # cs)))"

text \<open>\<open>buf\<close> after the call; for \<open>n \<le> 0\<close> the NUL is stored too.\<close>

definition ugets :: "cstr \<Rightarrow> int \<Rightarrow> ('x ustate_scheme, cstr) K" where
  "ugets buf n = kbind (gets_loop (nat (n - 1))) (\<lambda>cs.
     if length cs < length buf then kret (cs @ 0 # drop (Suc (length cs)) buf) else kpanic ''array bounds'')"

definition ustat :: "cstr \<Rightarrow> ('x ustate_scheme, int \<times> cstr) K" where
  "ustat n = kbind (ucall (U_open n 0)) (\<lambda>fd.
     if fd < 0 then kret (- 1, [])
     else kbind (usys (U_fstat fd)) (\<lambda>r. kthen [udo (U_close fd)] (kret r)))"

fun atoi_loop :: "uint \<Rightarrow> cstr \<Rightarrow> uint" where
  "atoi_loop n [] = n"
| "atoi_loop n (c # s) = (if 48 \<le> c \<and> c \<le> 57 then atoi_loop (n * 10 + ucast c - 48) s else n)"

definition atoi :: "cstr \<Rightarrow> int" where
  "atoi s = cint (atoi_loop 0 s)"

definition umemmove :: "addr \<Rightarrow> addr \<Rightarrow> int \<Rightarrow> byte_mem \<Rightarrow> byte_mem" where
  "umemmove dst src n m = move_up (nat n) dst src m"

section \<open>printf.c\<close>

definition putc :: "int \<Rightarrow> uchar \<Rightarrow> ('x ustate_scheme, unit) K" where
  "putc fd c = udo (U_write fd [c])"

definition udigit :: "nat \<Rightarrow> uchar" where
  "udigit d = bytes_of ''0123456789ABCDEF'' ! d"

function udigits :: "nat \<Rightarrow> nat \<Rightarrow> uchar list" where
  "udigits b x = udigit (x mod b) # (if b < 2 \<or> x div b = 0 then [] else udigits b (x div b))"
  by auto
termination
proof (relation "measure snd")
  show "wf (measure snd)" by simp
  show "((b, x div b), b, x) \<in> measure snd" if "\<not> (b < 2 \<or> x div b = 0)" for b x
    using that by (cases x) (auto intro: div_less_dividend)
qed

declare udigits.simps [simp del]

definition uprintint_buf :: "uint \<Rightarrow> nat \<Rightarrow> bool \<Rightarrow> uchar list" where
  "uprintint_buf xx b sg = (let neg = sg \<and> cint xx < 0; x = if neg then - xx else xx in
     rev (udigits b (unat x) @ (if neg then [45] else [])))"

definition uprintint :: "int \<Rightarrow> uint \<Rightarrow> nat \<Rightarrow> bool \<Rightarrow> ('x ustate_scheme, unit) K" where
  "uprintint fd xx b sg = keach (putc fd) (uprintint_buf xx b sg)"

text \<open>The argument of a conversion; one of the other kind is not defined in C.\<close>

definition uprint_arg :: "int \<Rightarrow> uchar \<Rightarrow> cparg \<Rightarrow> ('x ustate_scheme, unit) K" where
  "uprint_arg fd c a = (case a of
     CInt v \<Rightarrow> if c = 100 then uprintint fd v 10 True
               else if c = 120 \<or> c = 112 then uprintint fd v 16 False
               else if c = 99 then putc fd (ucast v) else kpanic ''printf argument''
   | CStr x \<Rightarrow> if c = 115 then keach (putc fd) (str_of (case x of None \<Rightarrow> bytes_of ''(null)'' | Some y \<Rightarrow> y))
               else kpanic ''printf argument'')"

text \<open>The loop over the format, with the flag that a percent sign was just read.\<close>

fun printf_loop :: "int \<Rightarrow> bool \<Rightarrow> cstr \<Rightarrow> cparg list \<Rightarrow> ('x ustate_scheme, unit) K" where
  "printf_loop fd st [] args = kret ()"
| "printf_loop fd st (c # fmt) args =
     (if c = 0 then kret ()
      else if \<not> st then
        if c = 37 then printf_loop fd True fmt args
        else kbind (putc fd c) (\<lambda>_. printf_loop fd False fmt args)
      else if c = 100 \<or> c = 120 \<or> c = 112 \<or> c = 115 \<or> c = 99 then
        (case args of [] \<Rightarrow> kpanic ''printf argument''
         | a # as \<Rightarrow> kbind (uprint_arg fd c a) (\<lambda>_. printf_loop fd False fmt as))
      else if c = 37 then kbind (putc fd c) (\<lambda>_. printf_loop fd False fmt args)
      else kbind (kdo [putc fd 37, putc fd c]) (\<lambda>_. printf_loop fd False fmt args))"

definition printf :: "int \<Rightarrow> string \<Rightarrow> cparg list \<Rightarrow> ('x ustate_scheme, unit) K" where
  "printf fd fmt args = printf_loop fd False (bytes_of fmt) args"

abbreviation (input) pf_str :: "cstr \<Rightarrow> cparg" where "pf_str x \<equiv> CStr (Some x)"
abbreviation (input) pf_int :: "int \<Rightarrow> cparg" where "pf_int n \<equiv> CInt (uint_of n)"

section \<open>What a program has written\<close>

definition written :: "int \<Rightarrow> uhist \<Rightarrow> cstr" where
  "written fd h = concat (map (\<lambda>(c, _). case c of U_write fd' bs \<Rightarrow> if fd' = fd then bs else [] | _ \<Rightarrow> []) h)"

lemma written_simps [simp]:
  "written fd [] = []" "written fd (h @ g) = written fd h @ written fd g"
  "written fd ((U_write fd' bs, r) # h) = (if fd' = fd then bs else []) @ written fd h"
  "written fd ((U_read fd' n, r) # h) = written fd h"
  by (simp_all add: written_def)

lemma usys_run [simp]: "usys c s = (case u_env s (u_hist s) c of (r, d) \<Rightarrow> Ok (r, d) (s\<lparr>u_hist := u_hist s @ [(c, r, d)]\<rparr>))"
  by (simp add: usys_def kthen_def split: prod.splits)

lemma usys_simps [simp]:
  "ucall c s = (case u_env s (u_hist s) c of (r, d) \<Rightarrow> Ok r (s\<lparr>u_hist := u_hist s @ [(c, r, d)]\<rparr>))"
  "udo c s = (case u_env s (u_hist s) c of (r, d) \<Rightarrow> Ok () (s\<lparr>u_hist := u_hist s @ [(c, r, d)]\<rparr>))"
  "uexit s = (case u_env s (u_hist s) U_exit of (r, d) \<Rightarrow> Blocked (s\<lparr>u_hist := u_hist s @ [(U_exit, r, d)]\<rparr>))"
  by (simp_all add: ucall_def udo_def uexit_def kthen_def split: prod.splits)

text \<open>Code that writes \<open>bs\<close> to descriptor \<open>fd\<close> and does nothing else.\<close>

definition writes :: "int \<Rightarrow> cstr \<Rightarrow> ('x ustate_scheme, unit) K \<Rightarrow> bool" where
  "writes fd bs m \<longleftrightarrow> (\<forall>s. \<exists>h. m s = Ok () (s\<lparr>u_hist := u_hist s @ h\<rparr>) \<and> written fd h = bs \<and> (\<forall>c\<in>set h. \<exists>b r. c = (U_write fd b, r)))"

lemma writes_putc: "writes fd [c] (putc fd c)"
  unfolding writes_def
proof
  fix s :: "'a ustate_scheme"
  obtain r d where "u_env s (u_hist s) (U_write fd [c]) = (r, d)" by (cases "u_env s (u_hist s) (U_write fd [c])")
  then show "\<exists>h. putc fd c s = Ok () (s\<lparr>u_hist := u_hist s @ h\<rparr>) \<and> written fd h = [c] \<and> (\<forall>c\<in>set h. \<exists>b r. c = (U_write fd b, r))"
    by (intro exI [of _ "[(U_write fd [c], r, d)]"]) (simp add: putc_def)
qed

lemma writes_nothing: "writes fd [] (kret ())"
  unfolding writes_def
proof
  fix s :: "'a ustate_scheme"
  show "\<exists>h. kret () s = Ok () (s\<lparr>u_hist := u_hist s @ h\<rparr>) \<and> written fd h = [] \<and> (\<forall>c\<in>set h. \<exists>b r. c = (U_write fd b, r))"
    by (intro exI [of _ "[]"]) simp
qed

lemma writes_then:
  assumes "writes fd bs m" "writes fd cs n"
  shows "writes fd (bs @ cs) (kbind m (\<lambda>_. n))"
  unfolding writes_def
proof
  fix s :: "'a ustate_scheme"
  obtain h where h: "m s = Ok () (s\<lparr>u_hist := u_hist s @ h\<rparr>)" "written fd h = bs" "\<forall>c\<in>set h. \<exists>b r. c = (U_write fd b, r)"
    using assms(1) unfolding writes_def by blast
  let ?t = "s\<lparr>u_hist := u_hist s @ h\<rparr>"
  obtain g where g: "n ?t = Ok () (?t\<lparr>u_hist := u_hist ?t @ g\<rparr>)" "written fd g = cs" "\<forall>c\<in>set g. \<exists>b r. c = (U_write fd b, r)"
    using assms(2) unfolding writes_def by blast
  have "\<forall>c\<in>set (h @ g). \<exists>b r. c = (U_write fd b, r)" using h(3) g(3) by (simp add: ball_Un)
  then show "\<exists>h. kbind m (\<lambda>_. n) s = Ok () (s\<lparr>u_hist := u_hist s @ h\<rparr>) \<and> written fd h = bs @ cs \<and> (\<forall>c\<in>set h. \<exists>b r. c = (U_write fd b, r))"
    using h(1,2) g(1,2) by (intro exI [of _ "h @ g"]) simp
qed

lemma writes_each: "writes fd bs (keach (putc fd) bs)"
  using writes_then [OF writes_putc] writes_nothing by (induction bs) auto

text \<open>The text of a format, when its conversions fit its arguments.\<close>

definition arg_text :: "uchar \<Rightarrow> cparg \<Rightarrow> cstr option" where
  "arg_text c a = (case a of
     CInt v \<Rightarrow> if c = 100 then Some (uprintint_buf v 10 True) else if c = 120 \<or> c = 112 then Some (uprintint_buf v 16 False)
               else if c = 99 then Some [ucast v] else None
   | CStr x \<Rightarrow> if c = 115 then Some (str_of (case x of None \<Rightarrow> bytes_of ''(null)'' | Some y \<Rightarrow> y)) else None)"

lemma writes_arg: "arg_text c a = Some t \<Longrightarrow> writes fd t (uprint_arg fd c a)"
  using writes_each writes_putc
  by (auto simp: arg_text_def uprint_arg_def uprintint_def split: cparg.splits if_splits)

fun format_text :: "bool \<Rightarrow> cstr \<Rightarrow> cparg list \<Rightarrow> cstr option" where
  "format_text st [] args = Some []"
| "format_text st (c # fmt) args =
     (if c = 0 then Some []
      else if \<not> st then if c = 37 then format_text True fmt args else map_option (Cons c) (format_text False fmt args)
      else if c = 100 \<or> c = 120 \<or> c = 112 \<or> c = 115 \<or> c = 99 then
        (case args of [] \<Rightarrow> None | a # as \<Rightarrow> (case (arg_text c a, format_text False fmt as) of (Some x, Some y) \<Rightarrow> Some (x @ y) | _ \<Rightarrow> None))
      else map_option (append (if c = 37 then [c] else [37, c])) (format_text False fmt args))"

lemma writes_printf_loop: "format_text st fmt args = Some t \<Longrightarrow> writes fd t (printf_loop fd st fmt args :: ('x ustate_scheme, unit) K)"
proof (induction st fmt args arbitrary: t rule: format_text.induct)
  case (1 st args)
  then show ?case using writes_nothing by simp
next
  case (2 st c fmt args)
  consider "c = 0" | "c \<noteq> 0" "\<not> st" | "c \<noteq> 0" st "c = 100 \<or> c = 120 \<or> c = 112 \<or> c = 115 \<or> c = 99"
    | "c \<noteq> 0" st "\<not> (c = 100 \<or> c = 120 \<or> c = 112 \<or> c = 115 \<or> c = 99)" by blast
  then show ?case
  proof cases
    case 1
    then show ?thesis using 2 writes_nothing by simp
  next
    case 2
    show ?thesis
    proof (cases "c = 37")
      case True
      then show ?thesis using 2 "2.IH"(1) "2.prems" by simp
    next
      case False
      then obtain u where u: "format_text False fmt args = Some u" "t = c # u" using 2 "2.prems" by auto
      show ?thesis using writes_then [OF writes_putc "2.IH"(2) [OF 2 False u(1)]] 2 False u(2) by simp
    qed
  next
    case 3
    then obtain a as x y where a: "args = a # as" "arg_text c a = Some x" "format_text False fmt as = Some y" "t = x @ y"
      using "2.prems" by (auto split: list.splits option.splits)
    have "writes fd y (printf_loop fd False fmt as :: ('x ustate_scheme, unit) K)" by (rule "2.IH"(3)) (use 3 a in auto)
    then show ?thesis using writes_then [OF writes_arg [OF a(2)]] 3 a by simp
  next
    case 4
    then obtain u where u: "format_text False fmt args = Some u" "t = (if c = 37 then [c] else [37, c]) @ u"
      using "2.prems" by auto
    have w: "writes fd u (printf_loop fd False fmt args :: ('x ustate_scheme, unit) K)" by (rule "2.IH"(4)) (use 4 u in auto)
    have p: "writes fd [37, c] (kdo [putc fd 37, putc fd c] :: ('x ustate_scheme, unit) K)"
      using writes_then [OF writes_putc [of fd 37] writes_then [OF writes_putc [of fd c] writes_nothing]] by simp
    show ?thesis using writes_then [OF writes_putc w, of c] writes_then [OF p w] 4 u(2) by (cases "c = 37") auto
  qed
qed

lemma writes_printf: "format_text False (bytes_of fmt) args = Some t \<Longrightarrow> writes fd t (printf fd fmt args)"
  unfolding printf_def by (rule writes_printf_loop)

section \<open>Numbers read back\<close>

lemma udigits_10: "udigits 10 x = digits 10 x"
proof (induction "10 :: nat" x rule: udigits.induct)
  case (1 x)
  have "udigit d = digit d" if "d < 10" for d
  proof -
    from that have "d \<in> {0, 1, 2, 3, 4, 5, 6, 7, 8, 9}" by auto
    then show ?thesis by (auto simp: udigit_def digit_def bytes_of_def)
  qed
  then show ?case using 1 by (subst udigits.simps, subst digits.simps) simp
qed

lemma digits_10_range: "c \<in> set (digits 10 x) \<Longrightarrow> 48 \<le> unat c \<and> unat c < 58"
proof (induction "10 :: nat" x rule: digits.induct)
  case (1 x)
  have "unat (digit (x mod 10)) = 48 + x mod 10"
    using unat_digit [of "x mod 10"] mod_less_divisor [of 10 x] by (simp add: less_trans [of "x mod 10" 10 16])
  moreover have "x mod 10 < 10" by simp
  ultimately have d: "48 \<le> unat (digit (x mod 10)) \<and> unat (digit (x mod 10)) < 58" by linarith
  from 1(2) have "c = digit (x mod 10) \<or> (x div 10 \<noteq> 0 \<and> c \<in> set (digits 10 (x div 10)))"
    by (subst (asm) digits.simps) (auto split: if_splits)
  then show ?case using d 1(1) by auto
qed

lemma atoi_loop_digits:
  "(\<And>c. c \<in> set cs \<Longrightarrow> 48 \<le> unat c \<and> unat c < 58) \<Longrightarrow>
    atoi_loop (of_nat v) cs = of_nat (fold (\<lambda>c v. 10 * v + digit_value c) cs v)"
proof (induction cs arbitrary: v)
  case (Cons c cs)
  have c: "48 \<le> unat c" "unat c < 58" using Cons.prems by simp_all
  then have r: "48 \<le> c" "c \<le> 57" by (simp_all add: word_le_nat_alt)
  have "ucast c = (of_nat (unat c) :: uint)" by simp
  also have "\<dots> = of_nat (unat c - 48) + 48" using c(1) by (simp add: of_nat_diff)
  finally have e: "of_nat v * 10 + ucast c - 48 = (of_nat (10 * v + digit_value c) :: uint)"
    using c(2) by (simp add: digit_value_def)
  have "atoi_loop (of_nat v) (c # cs) = atoi_loop (of_nat v * 10 + ucast c - 48) cs" using r by simp
  then have "atoi_loop (of_nat v) (c # cs) = atoi_loop (of_nat (10 * v + digit_value c)) cs" unfolding e .
  then show ?case using Cons.IH [of "10 * v + digit_value c"] Cons.prems by simp
qed simp

lemma atoi_digits: "atoi_loop 0 (rev (digits 10 x)) = of_nat x"
proof -
  have "atoi_loop (of_nat 0) (rev (digits 10 x)) = of_nat (number_value 10 (rev (digits 10 x)))"
    unfolding number_value_def by (rule atoi_loop_digits) (auto dest: digits_10_range)
  then show ?thesis using digits_value [of 10 x] by simp
qed



section \<open>Programs that read a file to its end\<close>

text \<open>The successive reads of descriptor \<open>fd\<close> give the pieces \<open>cs\<close> and then the end of the file.\<close>

definition reads :: "int \<Rightarrow> uhist \<Rightarrow> nat" where
  "reads fd h = length (filter (\<lambda>(c, _). case c of U_read fd' _ \<Rightarrow> fd' = fd | _ \<Rightarrow> False) h)"

lemma reads_simps [simp]:
  "reads fd [] = 0" "reads fd (h @ g) = reads fd h + reads fd g"
  "reads fd ((U_read fd n, r) # h) = Suc (reads fd h)" "reads fd ((U_write fd' bs, r) # h) = reads fd h"
  by (simp_all add: reads_def)

definition feeds :: "int \<Rightarrow> cstr list \<Rightarrow> 'x ustate_scheme \<Rightarrow> bool" where
  "feeds fd cs s \<longleftrightarrow> (\<forall>h n. u_env s (u_hist s @ h) (U_read fd n) =
     (if reads fd h < length cs then (int (length (cs ! reads fd h)), cs ! reads fd h) else (0, [])))"

lemma feeds_now:
  "feeds fd (c # cs) s \<Longrightarrow> u_env s (u_hist s) (U_read fd n) = (int (length c), c)"
  "feeds fd [] s \<Longrightarrow> u_env s (u_hist s) (U_read fd n) = (0, [])"
  unfolding feeds_def by (metis append_Nil2 length_greater_0_conv list.discI nth_Cons_0 reads_simps(1), metis append_Nil2 list.size(3) not_less0)

lemma feeds_read: "feeds fd (c # cs) s \<Longrightarrow> feeds fd cs (s\<lparr>u_hist := u_hist s @ [(U_read fd n, r)]\<rparr>)"
  unfolding feeds_def
proof (intro allI)
  fix h m assume a: "\<forall>h n. u_env s (u_hist s @ h) (U_read fd n) =
     (if reads fd h < length (c # cs) then (int (length ((c # cs) ! reads fd h)), (c # cs) ! reads fd h) else (0, []))"
  show "u_env (s\<lparr>u_hist := u_hist s @ [(U_read fd n, r)]\<rparr>) (u_hist (s\<lparr>u_hist := u_hist s @ [(U_read fd n, r)]\<rparr>) @ h) (U_read fd m) =
     (if reads fd h < length cs then (int (length (cs ! reads fd h)), cs ! reads fd h) else (0, []))"
    using a [rule_format, of "(U_read fd n, r) # h" m] by simp
qed

lemma feeds_other: "feeds fd cs s \<Longrightarrow> reads fd g = 0 \<Longrightarrow> feeds fd cs (s\<lparr>u_hist := u_hist s @ g\<rparr>)"
  unfolding feeds_def
proof (intro allI)
  fix h m assume a: "\<forall>h n. u_env s (u_hist s @ h) (U_read fd n) =
     (if reads fd h < length cs then (int (length (cs ! reads fd h)), cs ! reads fd h) else (0, []))" and g: "reads fd g = 0"
  show "u_env (s\<lparr>u_hist := u_hist s @ g\<rparr>) (u_hist (s\<lparr>u_hist := u_hist s @ g\<rparr>) @ h) (U_read fd m) =
     (if reads fd h < length cs then (int (length (cs ! reads fd h)), cs ! reads fd h) else (0, []))"
    using a [rule_format, of "g @ h" m] g by simp
qed

text \<open>A kernel with a file on descriptor 0 that accepts all writes.\<close>

definition feed_demo :: "cstr list \<Rightarrow> ustate" where
  "feed_demo cs = \<lparr>u_env = (\<lambda>h c. case c of
      U_read fd n \<Rightarrow> if fd = 0 \<and> reads 0 h < length cs then (int (length (cs ! reads 0 h)), cs ! reads 0 h) else (0, [])
    | U_write fd bs \<Rightarrow> (int (length bs), []) | _ \<Rightarrow> (0, [])), u_hist = []\<rparr>"

lemma feed_demo_hist [simp]: "u_hist (feed_demo cs) = []"
  by (simp add: feed_demo_def)

lemma feed_demo_feeds: "feeds 0 cs (feed_demo cs)"
  by (simp add: feeds_def feed_demo_def)

end
