(* ===== verification/Xv6_Grep.thy ===== *)
theory Xv6_Grep
  imports Xv6_User
begin

text \<open>
  grep.c: the matcher for patterns with \<open>^ . * $\<close>, its meaning as a set of texts, and the loop that prints the
  matching lines of a file.
\<close>

section \<open>The matcher\<close>

lemma length_tl_hdc: "hdc t \<noteq> 0 \<Longrightarrow> length (tl t) < length t"
  by (cases t) simp_all

function matchhere :: "cstr \<Rightarrow> cstr \<Rightarrow> bool"
  and matchstar :: "uchar \<Rightarrow> cstr \<Rightarrow> cstr \<Rightarrow> bool" where
  "matchhere re tx =
     (if hdc re = 0 then True
      else if hdc (tl re) = 42 then matchstar (hdc re) (drop 2 re) tx
      else if hdc re = 36 \<and> hdc (tl re) = 0 then hdc tx = 0
      else if hdc tx \<noteq> 0 \<and> (hdc re = 46 \<or> hdc re = hdc tx) then matchhere (tl re) (tl tx)
      else False)"
| "matchstar c re tx =
     (if matchhere re tx then True
      else if hdc tx \<noteq> 0 \<and> (hdc tx = c \<or> c = 46) then matchstar c re (tl tx)
      else False)"
  by pat_completeness auto
termination
proof (relation "measure (\<lambda>x. case x of Inl (re, tx) \<Rightarrow> 2 * (length re + length tx) | Inr (c, re, tx) \<Rightarrow> Suc (2 * (length re + length tx)))", goal_cases)
  case (2 re tx)
  then show ?case by (cases re) auto
next
  case (3 re tx)
  then show ?case using length_tl_hdc [of re] length_tl_hdc [of tx] by simp
next
  case (5 c re tx)
  then show ?case using length_tl_hdc [of tx] by simp
qed simp_all

declare matchhere.simps [simp del] matchstar.simps [simp del]

fun match_from :: "cstr \<Rightarrow> cstr \<Rightarrow> bool" where
  "match_from re [] = matchhere re []"
| "match_from re (c # tx) = (if matchhere re (c # tx) then True else if c \<noteq> 0 then match_from re tx else False)"

definition match :: "cstr \<Rightarrow> cstr \<Rightarrow> bool" where
  "match re tx = (if hdc re = 94 then matchhere (tl re) tx else match_from re tx)"

section \<open>The program\<close>

lemma strchr_length: "strchr p c = Some q \<Longrightarrow> length (tl q) < length p \<and> length q \<le> length p"
  by (induction p c rule: strchr.induct) (auto split: if_splits)

text \<open>The inner loop, over the bytes from \<open>p\<close> on: it writes the lines that match and returns the last \<open>p\<close>.\<close>

function grep_lines :: "cstr \<Rightarrow> cstr \<Rightarrow> ('x ustate_scheme, cstr) K" where
  "grep_lines pattern p = (case strchr p 10 of
     None \<Rightarrow> kret p
   | Some q \<Rightarrow> kthen [kwhen (match pattern (take (length p - length q) p)) (udo (U_write 1 (take (length p - length q + 1) p)))]
       (grep_lines pattern (tl q)))"
  by auto
termination
  by (relation "measure (\<lambda>(_, p). length p)") (auto dest: strchr_length)

declare grep_lines.simps [simp del]

text \<open>\<open>buf\<close> holds the bytes \<open>pend\<close> when a round begins.\<close>

primrec grep :: "nat \<Rightarrow> cstr \<Rightarrow> int \<Rightarrow> cstr \<Rightarrow> ('x ustate_scheme, unit) K" where
  "grep 0 pattern fd pend = kspin"
| "grep (Suc k) pattern fd pend = kbind (usys (U_read fd (1024 - int (length pend) - 1))) (\<lambda>(n, d).
     if n > 0 then
       let b = pend @ take (nat n) d in
       if length b \<ge> 1024 then kpanic ''array bounds'' else
       kbind (grep_lines pattern b) (\<lambda>p. grep k pattern fd (if length p = length b then [] else p))
     else kret ())"

definition grep_file :: "nat \<Rightarrow> cstr \<Rightarrow> cstr \<Rightarrow> ('x ustate_scheme, unit) K" where
  "grep_file k pattern f = kbind (ucall (U_open f 0)) (\<lambda>fd.
     if fd < 0 then kdo [printf 1 (''grep: cannot open %s'' @ [CHR 10]) [pf_str f], uexit]
     else kdo [grep k pattern fd [], udo (U_close fd)])"

definition grep_main :: "nat \<Rightarrow> cstr list \<Rightarrow> ('x ustate_scheme, unit) K" where
  "grep_main k argv =
     (if length argv \<le> 1 then kdo [printf 2 (''usage: grep pattern [file ...]'' @ [CHR 10]) [], uexit]
      else if length argv \<le> 2 then kdo [grep k (argv ! 1) 0 [], uexit]
      else kdo [keach (grep_file k (argv ! 1)) (drop 2 argv), uexit])"

section \<open>What a pattern means\<close>

datatype item = One uchar | Many uchar

text \<open>The items of a pattern after an initial \<open>^\<close>, and whether it ends in \<open>$\<close>.\<close>

fun items :: "cstr \<Rightarrow> item list \<times> bool" where
  "items [] = ([], False)"
| "items [c] = (if c = 36 then ([], True) else ([One c], False))"
| "items (c # d # re) =
     (if d = 42 then (let (is, e) = items re in (Many c # is, e))
      else (let (is, e) = items (d # re) in (One c # is, e)))"

definition fits :: "uchar \<Rightarrow> uchar \<Rightarrow> bool" where
  "fits c x \<longleftrightarrow> c = 46 \<or> c = x"

fun item_lang :: "item \<Rightarrow> cstr set" where
  "item_lang (One c) = {[x] | x. fits c x}"
| "item_lang (Many c) = {xs. list_all (fits c) xs}"

fun lang :: "item list \<Rightarrow> cstr set" where
  "lang [] = {[]}"
| "lang (i # is) = {u @ v | u v. u \<in> item_lang i \<and> v \<in> lang is}"

lemma lang_items:
  "u \<in> lang (One c # is) \<longleftrightarrow> (\<exists>x w. u = x # w \<and> fits c x \<and> w \<in> lang is)"
  "u \<in> lang (Many c # is) \<longleftrightarrow> (\<exists>a b. u = a @ b \<and> list_all (fits c) a \<and> b \<in> lang is)"
  by auto (metis append_Cons append_Nil)

definition accepts :: "cstr \<Rightarrow> cstr \<Rightarrow> bool" where
  "accepts re tx \<longleftrightarrow> (\<exists>u v. tx = u @ v \<and> u \<in> lang (fst (items re)) \<and> (snd (items re) \<longrightarrow> v = []))"

lemma accepts_Nil: "accepts [] tx"
  by (auto simp: accepts_def)

lemma accepts_dollar: "accepts [36] tx \<longleftrightarrow> tx = []"
  by (auto simp: accepts_def)

lemma accepts_many: "accepts (c # 42 # re) tx \<longleftrightarrow> (\<exists>u v. tx = u @ v \<and> list_all (fits c) u \<and> accepts re v)"
proof -
  have i: "items (c # 42 # re) = (Many c # fst (items re), snd (items re))" by (simp add: split_beta Let_def)
  show ?thesis
  proof
    assume "accepts (c # 42 # re) tx"
    then show "\<exists>u v. tx = u @ v \<and> list_all (fits c) u \<and> accepts re v"
      unfolding accepts_def i fst_conv snd_conv lang_items by (metis append_assoc)
  next
    assume "\<exists>u v. tx = u @ v \<and> list_all (fits c) u \<and> accepts re v"
    then show "accepts (c # 42 # re) tx"
      unfolding accepts_def i fst_conv snd_conv lang_items by (metis append_assoc)
  qed
qed

lemma accepts_one:
  assumes "hdc re \<noteq> 42" "\<not> (c = 36 \<and> re = [])"
  shows "accepts (c # re) tx \<longleftrightarrow> (\<exists>x v. tx = x # v \<and> fits c x \<and> accepts re v)"
proof -
  have "items (c # re) = (One c # fst (items re), snd (items re))"
    using assms by (cases re) (auto simp: split_beta Let_def)
  then have "accepts (c # re) tx \<longleftrightarrow> (\<exists>u v. tx = u @ v \<and> (\<exists>x w. u = x # w \<and> fits c x \<and> w \<in> lang (fst (items re))) \<and> (snd (items re) \<longrightarrow> v = []))"
    unfolding accepts_def by (simp only: fst_conv snd_conv lang_items)
  also have "\<dots> \<longleftrightarrow> (\<exists>x v. tx = x # v \<and> fits c x \<and> accepts re v)" unfolding accepts_def by (metis append_Cons)
  finally show ?thesis .
qed

lemma star_step: "(\<exists>u v. tx = u @ v \<and> list_all (fits c) u \<and> P v)
  \<longleftrightarrow> P tx \<or> (\<exists>x v. tx = x # v \<and> fits c x \<and> (\<exists>u w. v = u @ w \<and> list_all (fits c) u \<and> P w))"
proof
  assume "\<exists>u v. tx = u @ v \<and> list_all (fits c) u \<and> P v"
  then obtain u v where "tx = u @ v" "list_all (fits c) u" "P v" by blast
  then show "P tx \<or> (\<exists>x v. tx = x # v \<and> fits c x \<and> (\<exists>u w. v = u @ w \<and> list_all (fits c) u \<and> P w))"
    by (cases u) auto
next
  assume "P tx \<or> (\<exists>x v. tx = x # v \<and> fits c x \<and> (\<exists>u w. v = u @ w \<and> list_all (fits c) u \<and> P w))"
  then show "\<exists>u v. tx = u @ v \<and> list_all (fits c) u \<and> P v"
  proof
    assume "P tx"
    then show ?thesis by (intro exI [of _ "[]"] exI [of _ tx]) simp
  next
    assume "\<exists>x v. tx = x # v \<and> fits c x \<and> (\<exists>u w. v = u @ w \<and> list_all (fits c) u \<and> P w)"
    then obtain x u w where "tx = x # u @ w" "fits c x" "list_all (fits c) u" "P w" by blast
    then show ?thesis by (intro exI [of _ "x # u"] exI [of _ w]) simp
  qed
qed

lemma matchhere_matchstar:
  "0 \<notin> set re \<Longrightarrow> 0 \<notin> set tx \<Longrightarrow> matchhere re tx \<longleftrightarrow> accepts re tx"
  "0 \<notin> set re' \<Longrightarrow> 0 \<notin> set tx' \<Longrightarrow> c \<noteq> 0 \<Longrightarrow> matchstar c re' tx' \<longleftrightarrow> (\<exists>u v. tx' = u @ v \<and> list_all (fits c) u \<and> accepts re' v)"
proof (induction re tx and c re' tx' rule: matchhere_matchstar.induct)
  case (1 re tx)
  show ?case
  proof (cases re)
    case Nil
    then show ?thesis by (simp add: matchhere.simps accepts_Nil)
  next
    case (Cons c re')
    have c: "c \<noteq> 0" using 1 Cons by auto
    consider (star) rs where "re' = 42 # rs" | (dollar) "hdc re' \<noteq> 42" "c = 36 \<and> re' = []" | (one) "hdc re' \<noteq> 42" "\<not> (c = 36 \<and> re' = [])"
      by (cases re') auto
    then show ?thesis
    proof cases
      case star
      have "matchhere re tx = matchstar c rs tx" using Cons star c by (subst matchhere.simps) simp
      moreover have "matchstar c rs tx \<longleftrightarrow> (\<exists>u v. tx = u @ v \<and> list_all (fits c) u \<and> accepts rs v)"
        using "1.IH"(1) "1.prems" Cons star c by simp
      ultimately show ?thesis using Cons star accepts_many by simp
    next
      case dollar
      then have "matchhere re tx \<longleftrightarrow> hdc tx = 0" using Cons by (subst matchhere.simps) simp
      also have "\<dots> \<longleftrightarrow> tx = []" using "1.prems"(2) by (cases tx) auto
      finally show ?thesis using dollar Cons by (simp add: accepts_dollar)
    next
      case one
      have h: "\<not> (hdc re = 36 \<and> hdc (tl re) = 0)" using one Cons "1.prems"(1) by (cases re') auto
      show ?thesis
      proof (cases tx)
        case Nil
        then have "\<not> matchhere re tx" using one Cons c h by (subst matchhere.simps) auto
        then show ?thesis using accepts_one [OF one, of tx] Cons Nil by simp
      next
        case t: (Cons x v)
        then have x: "x \<noteq> 0" using "1.prems"(2) by auto
        have m: "matchhere re tx \<longleftrightarrow> fits c x \<and> matchhere re' v"
          using one Cons c h t x by (subst matchhere.simps) (auto simp: fits_def)
        have "fits c x \<Longrightarrow> matchhere re' v \<longleftrightarrow> accepts re' v"
          using "1.IH"(2) "1.prems" Cons one c h t x by (auto simp: fits_def)
        then show ?thesis using m accepts_one [OF one, of tx] Cons t by auto
      qed
    qed
  qed
next
  case (2 c re tx)
  have m: "matchhere re tx \<longleftrightarrow> accepts re tx" using 2 by blast
  have s: "matchstar c re tx \<longleftrightarrow> matchhere re tx \<or> (hdc tx \<noteq> 0 \<and> fits c (hdc tx) \<and> matchstar c re (tl tx))"
    by (subst matchstar.simps) (auto simp: fits_def)
  show ?case
  proof (cases tx)
    case Nil
    then show ?thesis using m s by auto
  next
    case (Cons x v)
    then have x: "x \<noteq> 0" "0 \<notin> set v" using 2 by auto
    have g: "hdc tx = c \<or> c = 46" if "fits c x" using that Cons by (auto simp: fits_def)
    have ih: "matchstar c re v \<longleftrightarrow> (\<exists>u w. v = u @ w \<and> list_all (fits c) u \<and> accepts re w)" if "\<not> matchhere re tx" "fits c x"
      using "2.IH"(2) [OF that(1)] g [OF that(2)] "2.prems" Cons x by simp
    have "matchstar c re tx \<longleftrightarrow> accepts re tx \<or> (fits c x \<and> matchstar c re v)" using s m Cons x by simp
    also have "\<dots> \<longleftrightarrow> accepts re tx \<or> (fits c x \<and> (\<exists>u w. v = u @ w \<and> list_all (fits c) u \<and> accepts re w))"
      using ih m by blast
    also have "\<dots> \<longleftrightarrow> (\<exists>u v. tx = u @ v \<and> list_all (fits c) u \<and> accepts re v)"
      using Cons by (subst star_step [of tx c "accepts re"]) simp
    finally show ?thesis .
  qed
qed

lemma match_from_accepts:
  assumes "0 \<notin> set re" "0 \<notin> set tx"
  shows "match_from re tx \<longleftrightarrow> (\<exists>p v. tx = p @ v \<and> accepts re v)"
  using assms(2)
proof (induction tx)
  case Nil
  then show ?case using matchhere_matchstar(1) [OF assms(1), of "[]"] by simp
next
  case (Cons c tx)
  have "match_from re (c # tx) \<longleftrightarrow> accepts re (c # tx) \<or> (\<exists>p v. tx = p @ v \<and> accepts re v)"
    using Cons matchhere_matchstar(1) [OF assms(1), of "c # tx"] by auto
  also have "\<dots> \<longleftrightarrow> (\<exists>p v. c # tx = p @ v \<and> accepts re v)"
    by (metis append_Cons append_Nil append_eq_Cons_conv)
  finally show ?case .
qed

text \<open>C14: the recursive matcher of grep decides the meaning of its patterns: a text matches when some part of it,
  from the start if the pattern begins with \<open>^\<close> and up to the end if it ends with \<open>$\<close>, is a sequence of the
  characters the items stand for, where a starred item stands for any number of them.\<close>

theorem match_is_pattern_meaning:
  assumes "0 \<notin> set re" "0 \<notin> set tx"
  shows "match re tx \<longleftrightarrow>
    (if hdc re = 94 then accepts (tl re) tx else (\<exists>p v. tx = p @ v \<and> accepts re v))"
proof (cases "hdc re = 94")
  case True
  have "0 \<notin> set (tl re)" using assms(1) by (cases re) auto
  then show ?thesis using True matchhere_matchstar(1) [of "tl re" tx] assms(2) by (simp add: match_def)
next
  case False
  then show ?thesis using match_from_accepts [OF assms] by (simp add: match_def)
qed

theorem match_is_pattern_meaning_witness:
  "match (bytes_of ''b*c$'') (bytes_of ''xbbc'') \<longleftrightarrow>
    (\<exists>p v. bytes_of ''xbbc'' = p @ v \<and> accepts (bytes_of ''b*c$'') v)"
  using match_is_pattern_meaning [of "bytes_of ''b*c$''" "bytes_of ''xbbc''"] by (simp add: bytes_of_def)

section \<open>The lines of a file\<close>

text \<open>The complete lines of a text and what follows the last newline.\<close>

fun split_nl :: "cstr \<Rightarrow> cstr list \<times> cstr" where
  "split_nl [] = ([], [])"
| "split_nl (c # t) = (case split_nl t of (ls, r) \<Rightarrow>
     if c = 10 then ([] # ls, r) else (case ls of [] \<Rightarrow> ([], c # r) | l # ls \<Rightarrow> ((c # l) # ls, r)))"

lemma split_nl_append: "split_nl (a @ b) = (fst (split_nl a) @ fst (split_nl (snd (split_nl a) @ b)), snd (split_nl (snd (split_nl a) @ b)))"
proof (induction a)
  case (Cons c a)
  show ?case
  proof (cases "split_nl a")
    case (Pair ls r)
    then show ?thesis using Cons by (cases ls) (auto split: prod.splits list.splits)
  qed
qed simp

lemma split_nl_line: "10 \<notin> set l \<Longrightarrow> split_nl (l @ 10 # r) = (l # fst (split_nl r), snd (split_nl r))" "10 \<notin> set l \<Longrightarrow> split_nl l = ([], l)"
  by (induction l) (auto split: prod.splits)

lemma strchr_nl:
  assumes "0 \<notin> set p"
  shows "strchr p 10 = None \<Longrightarrow> 10 \<notin> set p" "strchr p 10 = Some q \<Longrightarrow> \<exists>l r. p = l @ 10 # r \<and> q = 10 # r \<and> 10 \<notin> set l"
  using assms
proof (induction p)
  case (Cons x p)
  {
    case 1
    then show ?case using Cons by (auto split: if_splits)
  next
    case 2
    then show ?case using Cons
    proof (cases "x = 10")
      case True
      then show ?thesis using 2 by (intro exI [of _ "[]"] exI [of _ p]) auto
    next
      case False
      then obtain l r where "p = l @ 10 # r" "q = 10 # r" "10 \<notin> set l" using 2 Cons.IH by (auto split: if_splits)
      then show ?thesis using False by (intro exI [of _ "x # l"] exI [of _ r]) auto
    qed
  }
qed simp_all

definition matching :: "cstr \<Rightarrow> cstr list \<Rightarrow> cstr" where
  "matching pattern ls = concat (map (\<lambda>l. l @ [10]) (filter (match pattern) ls))"

lemma grep_lines_run:
  fixes s :: "'x ustate_scheme"
  shows "0 \<notin> set p \<Longrightarrow> \<exists>h. grep_lines pattern p s = Ok (snd (split_nl p)) (s\<lparr>u_hist := u_hist s @ h\<rparr>)
    \<and> written 1 h = matching pattern (fst (split_nl p)) \<and> (\<forall>fd. reads fd h = 0)"
proof (induction pattern p arbitrary: s rule: grep_lines.induct)
  case (1 pattern p)
  show ?case
  proof (cases "strchr p 10")
    case None
    then have "grep_lines pattern p s = Ok p s" "split_nl p = ([], p)"
      using strchr_nl(1) [OF 1(2)] split_nl_line(2) by (simp_all add: grep_lines.simps)
    then show ?thesis by (intro exI [of _ "[]"]) (simp add: matching_def)
  next
    case (Some q)
    then obtain l r where l: "p = l @ 10 # r" "q = 10 # r" "10 \<notin> set l" using strchr_nl(2) [OF 1(2)] by blast
    have p: "split_nl p = (l # fst (split_nl r), snd (split_nl r))" using split_nl_line(1) [OF l(3)] l(1) by simp
    let ?m = "kwhen (match pattern l) (udo (U_write 1 (l @ [10]))) :: ('x ustate_scheme, unit) K"
    have run: "grep_lines pattern p s = kbind ?m (\<lambda>_. grep_lines pattern r) s"
      using Some l(1,2) by (simp add: grep_lines.simps kthen_def kbind_assoc)
    obtain g where g: "?m s = Ok () (s\<lparr>u_hist := u_hist s @ g\<rparr>)" "written 1 g = (if match pattern l then l @ [10] else [])" "\<forall>fd. reads fd g = 0"
    proof (cases "match pattern l")
      case True
      obtain x d where "u_env s (u_hist s) (U_write 1 (l @ [10])) = (x, d)" by (cases "u_env s (u_hist s) (U_write 1 (l @ [10]))")
      then show thesis using that [of "[(U_write 1 (l @ [10]), x, d)]"] True by simp
    next
      case False
      then show thesis using that [of "[]"] by simp
    qed
    let ?t = "s\<lparr>u_hist := u_hist s @ g\<rparr>"
    have "0 \<notin> set (tl q)" using 1(2) l by auto
    from "1.IH" [OF Some this, of ?t] obtain h where h: "grep_lines pattern r ?t = Ok (snd (split_nl r)) (?t\<lparr>u_hist := u_hist ?t @ h\<rparr>)"
      "written 1 h = matching pattern (fst (split_nl r))" "\<forall>fd. reads fd h = 0" using l(2) by auto
    then show ?thesis using run g p by (intro exI [of _ "g @ h"]) (auto simp: matching_def)
  qed
qed

lemma split_nl_size: "length (snd (split_nl p)) \<le> length p" "set (snd (split_nl p)) \<subseteq> set p" "10 \<in> set p \<Longrightarrow> length (snd (split_nl p)) < length p"
  by (induction p) (auto split: prod.splits list.splits)

lemma split_nl_ended: "snd (split_nl (x @ [10])) = [] \<and> fst (split_nl (x @ [10])) \<noteq> []"
  by (induction x) (auto split: prod.splits list.splits)

lemma split_nl_tail: "10 \<notin> set (snd (split_nl p))"
  by (induction p) (auto split: prod.splits list.splits)

lemma split_nl_short: "10 \<in> set b \<Longrightarrow> length (snd (split_nl (a @ b))) < length b"
proof -
  assume "10 \<in> set b"
  then obtain l r where b: "b = l @ 10 # r" by (meson split_list)
  have "snd (split_nl (a @ b)) = snd (split_nl r)"
    using split_nl_append [of "(a @ l) @ [10]" r] split_nl_ended [of "a @ l"] b by simp
  then show ?thesis using split_nl_size(1) [of r] b(1) by simp
qed

lemma grep_run:
  fixes s :: "'x ustate_scheme"
  assumes "feeds fd cs s" "\<And>c. c \<in> set cs \<Longrightarrow> 10 \<in> set c \<and> 0 \<notin> set c \<and> length c \<le> 512" "0 \<notin> set pend" "10 \<notin> set pend" "length pend < 512"
  shows "\<exists>h. grep (Suc (length cs)) pattern fd pend s = Ok () (s\<lparr>u_hist := u_hist s @ h\<rparr>)
    \<and> written 1 h = matching pattern (fst (split_nl (pend @ concat cs)))"
  using assms
proof (induction cs arbitrary: s pend)
  case Nil
  then show ?case using feeds_now(2) [OF Nil(1)] split_nl_line(2) [OF Nil(4)]
    by (intro exI [of _ "[(U_read fd (1024 - int (length pend) - 1), 0, [])]"]) (simp add: matching_def written_def)
next
  case (Cons c cs)
  let ?b = "pend @ c"
  let ?p = "snd (split_nl ?b)"
  let ?rd = "(U_read fd (1024 - int (length pend) - 1), int (length c), c)"
  let ?s1 = "s\<lparr>u_hist := u_hist s @ [?rd]\<rparr>"
  have c: "10 \<in> set c" "0 \<notin> set c" "length c \<le> 512" using Cons.prems(2) by auto
  have b: "0 \<notin> set ?b" "length ?b < 1024" using c Cons.prems(3,5) by auto
  obtain g where g: "grep_lines pattern ?b ?s1 = Ok ?p (?s1\<lparr>u_hist := u_hist ?s1 @ g\<rparr>)"
    "written 1 g = matching pattern (fst (split_nl ?b))" "\<forall>fd. reads fd g = 0" using grep_lines_run [OF b(1)] by blast
  let ?s2 = "?s1\<lparr>u_hist := u_hist ?s1 @ g\<rparr>"
  have "feeds fd cs ?s2" by (rule feeds_other [OF feeds_read [OF Cons.prems(1)]]) (use g(3) in blast)
  moreover have "0 \<notin> set ?p" using b(1) split_nl_size(2) [of ?b] by blast
  moreover have pl: "length ?p < length c" by (rule split_nl_short [OF c(1)])
  ultimately obtain h where h: "grep (Suc (length cs)) pattern fd ?p ?s2 = Ok () (?s2\<lparr>u_hist := u_hist ?s2 @ h\<rparr>)"
    "written 1 h = matching pattern (fst (split_nl (?p @ concat cs)))"
    using Cons.IH [of ?s2 ?p] Cons.prems(2) split_nl_tail c(3) by auto
  have "grep (Suc (length (c # cs))) pattern fd pend s = grep (Suc (length cs)) pattern fd ?p ?s2"
    using feeds_now(1) [OF Cons.prems(1)] c(1) b(2) g(1) pl by (auto simp: Let_def simp del: grep.simps(1))
  moreover have "written 1 ([?rd] @ g @ h) = matching pattern (fst (split_nl (pend @ concat (c # cs))))"
    using g(2) h(2) split_nl_append [of ?b "concat cs"] by (simp add: matching_def)
  ultimately show ?case using h(1) by (intro exI [of _ "[?rd] @ g @ h"]) simp
qed



text \<open>C39: a piece with no newline is dropped, with the part of a line it holds: after it \<open>grep\<close> goes on as if the piece
  had not been in the file. A line that arrives in two pieces, as lines from a pipe or the console do, is matched
  and printed without its beginning.\<close>

theorem grep_drops_partial_line:
  assumes "feeds fd (c # cs) s" "c \<noteq> []" "10 \<notin> set c" "0 \<notin> set c" "length c < 1024"
  shows "grep (Suc k) pattern fd [] s = grep k pattern fd [] (s\<lparr>u_hist := u_hist s @ [(U_read fd 1023, int (length c), c)]\<rparr>)"
proof -
  have "strchr c 10 = None" using strchr_nl(2) [OF assms(4)] assms(3) by (cases "strchr c 10") auto
  then have "grep_lines pattern c t = Ok c t" for t :: "'a ustate_scheme" by (simp add: grep_lines.simps)
  then show ?thesis using feeds_now(1) [OF assms(1)] assms(2,5) by (simp add: Let_def)
qed

theorem grep_drops_partial_line_witness:
  "grep 3 (bytes_of ''a'') 0 [] (feed_demo [bytes_of ''a'', [10]])
    = grep 2 (bytes_of ''a'') 0 [] (feed_demo [bytes_of ''a'', [10]]\<lparr>u_hist := [(U_read 0 1023, 1, bytes_of ''a'')]\<rparr>)"
proof -
  have "bytes_of ''a'' \<noteq> []" "10 \<notin> set (bytes_of ''a'')" "0 \<notin> set (bytes_of ''a'')" "length (bytes_of ''a'') < 1024"
    by (simp_all add: bytes_of_def)
  from grep_drops_partial_line [OF feed_demo_feeds this, of 2 "bytes_of ''a''" "[[10]]"] show ?thesis
    by (simp add: bytes_of_def numeral_3_eq_3 numeral_2_eq_2 del: grep.simps)
qed

end
