(* ===== verification/Xv6_Tools.thy ===== *)
theory Xv6_Tools
  imports Xv6_User
begin

text \<open>
  The small user programs: cat, wc, ls, echo, kill, ln, mkdir, rm, init and zombie, each as the system calls it makes.
  \<open>main\<close> gets the arguments as the list \<open>argv\<close>; the first is the program's name.
\<close>

section \<open>cat.c\<close>

primrec cat :: "nat \<Rightarrow> int \<Rightarrow> ('x ustate_scheme, unit) K" where
  "cat 0 fd = kspin"
| "cat (Suc k) fd = kbind (usys (U_read fd 512)) (\<lambda>(n, d).
     if n > 0 then
       kbind (ucall (U_write 1 (take (nat n) d))) (\<lambda>w.
         if w \<noteq> n then kdo [printf 1 (''cat: write error'' @ [CHR 10]) [], uexit] else cat k fd)
     else kwhen (n < 0) (kdo [printf 1 (''cat: read error'' @ [CHR 10]) [], uexit]))"

definition cat_file :: "nat \<Rightarrow> cstr \<Rightarrow> ('x ustate_scheme, unit) K" where
  "cat_file k f = kbind (ucall (U_open f 0)) (\<lambda>fd.
     if fd < 0 then kdo [printf 1 (''cat: cannot open %s'' @ [CHR 10]) [pf_str f], uexit]
     else kdo [cat k fd, udo (U_close fd)])"

definition cat_main :: "nat \<Rightarrow> cstr list \<Rightarrow> ('x ustate_scheme, unit) K" where
  "cat_main k argv = (if length argv \<le> 1 then kdo [cat k 0, uexit] else kdo [keach (cat_file k) (drop 1 argv), uexit])"

section \<open>wc.c\<close>

text \<open>The counters \<open>l\<close>, \<open>w\<close>, \<open>c\<close> and the flag \<open>inword\<close>.\<close>

definition wc_char :: "uchar \<Rightarrow> uint \<times> uint \<times> uint \<times> bool \<Rightarrow> uint \<times> uint \<times> uint \<times> bool" where
  "wc_char b st = (case st of (l, w, c, inword) \<Rightarrow>
     let c = c + 1; l = (if b = 10 then l + 1 else l) in
     if strchr [32, 13, 9, 10, 11] b \<noteq> None then (l, w, c, False)
     else if \<not> inword then (l, w + 1, c, True) else (l, w, c, inword))"

primrec wc_loop :: "nat \<Rightarrow> int \<Rightarrow> cstr \<Rightarrow> uint \<times> uint \<times> uint \<times> bool \<Rightarrow> ('x ustate_scheme, unit) K" where
  "wc_loop 0 fd name st = kspin"
| "wc_loop (Suc k) fd name st = kbind (usys (U_read fd 512)) (\<lambda>(n, d).
     if n > 0 then wc_loop k fd name (fold wc_char (take (nat n) d) st)
     else if n < 0 then kdo [printf 1 (''wc: read error'' @ [CHR 10]) [], uexit]
     else (case st of (l, w, c, _) \<Rightarrow> printf 1 (''%d %d %d %s'' @ [CHR 10]) [CInt l, CInt w, CInt c, pf_str name]))"

definition wc :: "nat \<Rightarrow> int \<Rightarrow> cstr \<Rightarrow> ('x ustate_scheme, unit) K" where
  "wc k fd name = wc_loop k fd name (0, 0, 0, False)"

definition wc_file :: "nat \<Rightarrow> cstr \<Rightarrow> ('x ustate_scheme, unit) K" where
  "wc_file k f = kbind (ucall (U_open f 0)) (\<lambda>fd.
     if fd < 0 then kdo [printf 1 (''wc: cannot open %s'' @ [CHR 10]) [pf_str f], uexit]
     else kdo [wc k fd f, udo (U_close fd)])"

definition wc_main :: "nat \<Rightarrow> cstr list \<Rightarrow> ('x ustate_scheme, unit) K" where
  "wc_main k argv = (if length argv \<le> 1 then kdo [wc k 0 [], uexit] else kdo [keach (wc_file k) (drop 1 argv), uexit])"

section \<open>ls.c\<close>

definition fmtname :: "cstr \<Rightarrow> cstr" where
  "fmtname path = (let p = rev (takeWhile (\<lambda>c. c \<noteq> 47) (rev (str_of path))) in
     if length p \<ge> 14 then p else p @ replicate (14 - length p) 32)"

text \<open>The fields of the \<open>struct stat\<close> a call stored.\<close>

definition ls_line :: "cstr \<Rightarrow> cstr \<Rightarrow> ('x ustate_scheme, unit) K" where
  "ls_line path st = printf 1 (''%s %d %d %d'' @ [CHR 10])
     [pf_str (fmtname path), pf_int (sint (get16 st 0)), CInt (get32 st 8), CInt (get32 st 16)]"

primrec ls_dir :: "nat \<Rightarrow> int \<Rightarrow> cstr \<Rightarrow> ('x ustate_scheme, unit) K" where
  "ls_dir 0 fd path = kspin"
| "ls_dir (Suc k) fd path = kbind (usys (U_read fd 16)) (\<lambda>(n, de).
     if n \<noteq> 16 then kret ()
     else if get16 de 0 = 0 then ls_dir k fd path
     else let b = str_of path @ [47] @ str_of (take 14 (drop 2 de)) in
       kbind (ustat b) (\<lambda>(r, st).
         kthen [if r < 0 then printf 1 (''ls: cannot stat %s'' @ [CHR 10]) [pf_str b] else ls_line b st]
           (ls_dir k fd path)))"

definition ls :: "nat \<Rightarrow> cstr \<Rightarrow> ('x ustate_scheme, unit) K" where
  "ls k path = kbind (ucall (U_open path 0)) (\<lambda>fd.
     if fd < 0 then printf 2 (''ls: cannot open %s'' @ [CHR 10]) [pf_str path]
     else kbind (usys (U_fstat fd)) (\<lambda>(r, st).
       if r < 0 then kdo [printf 2 (''ls: cannot stat %s'' @ [CHR 10]) [pf_str path], udo (U_close fd)]
       else kdo [if get16 st 0 = 2 then ls_line path st
                 else if get16 st 0 = 1 then
                   if ustrlen path + 1 + 14 + 1 > 512 then printf 1 (''ls: path too long'' @ [CHR 10]) []
                   else ls_dir k fd path
                 else kret (),
                 udo (U_close fd)]))"

definition ls_main :: "nat \<Rightarrow> cstr list \<Rightarrow> ('x ustate_scheme, unit) K" where
  "ls_main k argv = (if length argv < 2 then kdo [ls k (bytes_of ''.''), uexit] else kdo [keach (ls k) (drop 1 argv), uexit])"

section \<open>echo.c, kill.c, ln.c, mkdir.c, rm.c\<close>

fun echo_args :: "cstr list \<Rightarrow> ('x ustate_scheme, unit) K" where
  "echo_args [] = kret ()"
| "echo_args (a # as) = kdo [printf 1 ''%s%s'' [pf_str a, pf_str (if as \<noteq> [] then [32] else [10])], echo_args as]"

definition echo_main :: "cstr list \<Rightarrow> ('x ustate_scheme, unit) K" where
  "echo_main argv = kdo [echo_args (drop 1 argv), uexit]"

definition kill_main :: "cstr list \<Rightarrow> ('x ustate_scheme, unit) K" where
  "kill_main argv = (if length argv < 2 then kdo [printf 2 (''usage: kill pid...'' @ [CHR 10]) [], uexit]
     else kdo [keach (\<lambda>a. udo (U_kill (atoi a))) (drop 1 argv), uexit])"

definition ln_main :: "cstr list \<Rightarrow> ('x ustate_scheme, unit) K" where
  "ln_main argv = (if length argv \<noteq> 3 then kdo [printf 2 (''Usage: ln old new'' @ [CHR 10]) [], uexit]
     else kbind (ucall (U_link (argv ! 1) (argv ! 2))) (\<lambda>r.
       kdo [kwhen (r < 0) (printf 2 (''link %s %s: failed'' @ [CHR 10]) [pf_str (argv ! 1), pf_str (argv ! 2)]), uexit]))"

text \<open>The loop of mkdir and rm, which stops at the first failure.\<close>

definition each_name :: "(cstr \<Rightarrow> usyscall) \<Rightarrow> string \<Rightarrow> cstr list \<Rightarrow> ('x ustate_scheme, unit option) K" where
  "each_name call msg = kfor (\<lambda>a. kbind (ucall (call a)) (\<lambda>r.
     if r < 0 then kthen [printf 2 msg [pf_str a]] (kret (Some ())) else kret None))"

definition mkdir_main :: "cstr list \<Rightarrow> ('x ustate_scheme, unit) K" where
  "mkdir_main argv = (if length argv < 2 then kdo [printf 2 (''Usage: mkdir files...'' @ [CHR 10]) [], uexit]
     else kbind (each_name U_mkdir (''mkdir: %s failed to create'' @ [CHR 10]) (drop 1 argv)) (\<lambda>_. uexit))"

definition rm_main :: "cstr list \<Rightarrow> ('x ustate_scheme, unit) K" where
  "rm_main argv = (if length argv < 2 then kdo [printf 2 (''Usage: rm files...'' @ [CHR 10]) [], uexit]
     else kbind (each_name U_unlink (''rm: %s failed to delete'' @ [CHR 10]) (drop 1 argv)) (\<lambda>_. uexit))"

section \<open>init.c, zombie.c\<close>

primrec init_wait :: "nat \<Rightarrow> int \<Rightarrow> ('x ustate_scheme, unit) K" where
  "init_wait 0 pid = kspin"
| "init_wait (Suc k) pid = kbind (ucall U_wait) (\<lambda>wpid.
     if wpid \<ge> 0 \<and> wpid \<noteq> pid then kdo [printf 1 (''zombie!'' @ [CHR 10]) [], init_wait k pid] else kret ())"

primrec init_loop :: "nat \<Rightarrow> nat \<Rightarrow> ('x ustate_scheme, unit) K" where
  "init_loop 0 k = kspin"
| "init_loop (Suc j) k = kthen [printf 1 (''init: starting sh'' @ [CHR 10]) []] (kbind (ucall U_fork) (\<lambda>pid.
     if pid < 0 then kdo [printf 1 (''init: fork failed'' @ [CHR 10]) [], uexit]
     else if pid = 0 then
       kdo [udo (U_exec (bytes_of ''sh'') [bytes_of ''sh'']), printf 1 (''init: exec sh failed'' @ [CHR 10]) [], uexit]
     else kdo [init_wait k pid, init_loop j k]))"

definition init_main :: "nat \<Rightarrow> nat \<Rightarrow> ('x ustate_scheme, unit) K" where
  "init_main j k = kbind (ucall (U_open (bytes_of ''console'') 2)) (\<lambda>fd.
     kdo [kwhen (fd < 0) (kdo [udo (U_mknod (bytes_of ''console'') 1 1), udo (U_open (bytes_of ''console'') 2)]),
          udo (U_dup 0), udo (U_dup 0), init_loop j k])"

definition zombie_main :: "('x ustate_scheme, unit) K" where
  "zombie_main = kbind (ucall U_fork) (\<lambda>pid. kdo [kwhen (pid > 0) (udo (U_sleep 5)), uexit])"

section \<open>What wc counts\<close>

definition blank :: "uchar \<Rightarrow> bool" where
  "blank b \<longleftrightarrow> b \<in> {32, 13, 9, 10, 11}"

definition word_starts :: "cstr \<Rightarrow> nat list" where
  "word_starts t = filter (\<lambda>i. \<not> blank (t ! i) \<and> (i = 0 \<or> blank (t ! (i - 1)))) [0..<length t]"

lemma strchr_blank: "strchr [32, 13, 9, 10, 11] b \<noteq> None \<longleftrightarrow> blank b"
  by (auto simp: blank_def)

lemma word_starts_snoc:
  "length (word_starts (t @ [b])) = length (word_starts t) + (if \<not> blank b \<and> (t = [] \<or> blank (last t)) then 1 else 0)"
proof -
  have "filter (\<lambda>i. \<not> blank ((t @ [b]) ! i) \<and> (i = 0 \<or> blank ((t @ [b]) ! (i - 1)))) [0..<length t] = word_starts t"
    unfolding word_starts_def by (rule filter_cong) (auto simp: nth_append)
  moreover have "t \<noteq> [] \<Longrightarrow> (t @ [b]) ! (length t - 1) = last t" by (simp add: nth_append last_conv_nth)
  ultimately show ?thesis by (cases "t = []") (simp_all add: word_starts_def)
qed

lemma wc_char_blank: "wc_char b (l, w, c, i) = (if b = 10 then l + 1 else l, if blank b \<or> i then w else w + 1, c + 1, \<not> blank b)"
  unfolding wc_char_def strchr_blank by (simp add: Let_def)

lemma wc_fold:
  "fold wc_char t (0, 0, 0, False) = (of_nat (count_list t 10), of_nat (length (word_starts t)), of_nat (length t), t \<noteq> [] \<and> \<not> blank (last t))"
proof (induction t rule: rev_induct)
  case Nil
  show ?case by (simp add: word_starts_def)
next
  case (snoc b t)
  then have "fold wc_char (t @ [b]) (0, 0, 0, False) = wc_char b (of_nat (count_list t 10), of_nat (length (word_starts t)), of_nat (length t), t \<noteq> [] \<and> \<not> blank (last t))"
    by simp
  then show ?case by (auto simp: wc_char_blank word_starts_snoc)
qed

lemma wc_loop_run:
  fixes s :: "'x ustate_scheme"
  assumes "feeds fd cs s" "\<And>c. c \<in> set cs \<Longrightarrow> c \<noteq> []" "fold wc_char (concat cs) st = (l, w, c, i)"
  shows "\<exists>h. wc_loop (Suc (length cs)) fd name st s = Ok () (s\<lparr>u_hist := u_hist s @ h\<rparr>)
    \<and> Some (written 1 h) = format_text False (bytes_of (''%d %d %d %s'' @ [CHR 10])) [CInt l, CInt w, CInt c, pf_str name]"
  using assms
proof (induction cs arbitrary: s st)
  case Nil
  let ?f = "''%d %d %d %s'' @ [CHR 10]" and ?a = "[CInt l, CInt w, CInt c, pf_str name]"
  let ?rd = "(U_read fd 512, 0, [])"
  obtain t where t: "format_text False (bytes_of ?f) ?a = Some t" by (simp add: bytes_of_def arg_text_def)
  have "writes 1 t (printf 1 ?f ?a :: ('x ustate_scheme, unit) K)" by (rule writes_printf [OF t])
  from this [unfolded writes_def, rule_format, of "s\<lparr>u_hist := u_hist s @ [?rd]\<rparr>"]
  obtain g where g: "printf 1 ?f ?a (s\<lparr>u_hist := u_hist s @ [?rd]\<rparr>) = Ok () (s\<lparr>u_hist := u_hist s @ [?rd] @ g\<rparr>)" "written 1 g = t"
    by (elim exE conjE) simp
  have "wc_loop (Suc (length [])) fd name st s = printf 1 ?f ?a (s\<lparr>u_hist := u_hist s @ [?rd]\<rparr>)"
    using feeds_now(2) [OF Nil(1)] Nil(3) by simp
  then show ?case using g t by (intro exI [of _ "[?rd] @ g"]) (simp del: wc_loop.simps)
next
  case (Cons d cs)
  let ?rd = "(U_read fd 512, int (length d), d)"
  have d: "d \<noteq> []" using Cons.prems(2) by simp
  obtain h where h: "wc_loop (Suc (length cs)) fd name (fold wc_char d st) (s\<lparr>u_hist := u_hist s @ [?rd]\<rparr>) = Ok () (s\<lparr>u_hist := u_hist s @ [?rd] @ h\<rparr>)"
    "Some (written 1 h) = format_text False (bytes_of (''%d %d %d %s'' @ [CHR 10])) [CInt l, CInt w, CInt c, pf_str name]"
    using Cons.IH [OF feeds_read [OF Cons.prems(1), of 512 "(int (length d), d)"], of "fold wc_char d st"] Cons.prems(2,3)
    by (simp del: wc_loop.simps format_text.simps) blast
  have "wc_loop (Suc (length (d # cs))) fd name st s = wc_loop (Suc (length cs)) fd name (fold wc_char d st) (s\<lparr>u_hist := u_hist s @ [?rd]\<rparr>)"
    using feeds_now(1) [OF Cons.prems(1)] d by (simp only: length_Cons) (subst wc_loop.simps(2), simp del: wc_loop.simps)
  then show ?case using h by (intro exI [of _ "[?rd] @ h"]) (simp del: wc_loop.simps format_text.simps)
qed

text \<open>C27: however the kernel cuts a file into pieces, \<open>wc\<close> ends and prints the number of newlines, of words (maximal
  runs of non-blank bytes, a run that goes across pieces counted once) and of bytes of the whole file.\<close>

theorem wc_counts:
  assumes "feeds fd cs s" "\<forall>c\<in>set cs. c \<noteq> []"
  shows "\<exists>h. wc (Suc (length cs)) fd name s = Ok () (s\<lparr>u_hist := u_hist s @ h\<rparr>)
    \<and> Some (written 1 h) = format_text False (bytes_of (''%d %d %d %s'' @ [CHR 10]))
        [CInt (of_nat (count_list (concat cs) 10)), CInt (of_nat (length (word_starts (concat cs)))), CInt (of_nat (length (concat cs))), pf_str name]"
  unfolding wc_def by (rule wc_loop_run [OF assms(1) _ wc_fold]) (use assms(2) in blast)

theorem wc_counts_witness:
  "\<exists>h. wc 3 0 (bytes_of ''f'') (feed_demo [bytes_of ''ab c'', bytes_of ''d'' @ [10]])
      = Ok () (feed_demo [bytes_of ''ab c'', bytes_of ''d'' @ [10]]\<lparr>u_hist := h\<rparr>)
    \<and> Some (written 1 h) = format_text False (bytes_of (''%d %d %d %s'' @ [CHR 10])) [CInt 1, CInt 2, CInt 6, pf_str (bytes_of ''f'')]"
proof -
  let ?cs = "[bytes_of ''ab c'', bytes_of ''d'' @ [10]]"
  have "\<forall>c\<in>set ?cs. c \<noteq> []" by (simp add: bytes_of_def)
  moreover have "count_list (concat ?cs) 10 = 1" "length (word_starts (concat ?cs)) = 2" "length (concat ?cs) = 6"
    by (simp_all add: bytes_of_def word_starts_def blank_def upt_rec)
  ultimately show ?thesis
    using wc_counts [OF feed_demo_feeds, of ?cs "bytes_of ''f''"] by (simp add: numeral_3_eq_3 del: format_text.simps)
qed

end
