(* ===== verification/Xv6_Sh.thy ===== *)
theory Xv6_Sh
  imports Xv6_User
begin

text \<open>
  sh.c. The parser works on the command line \<open>buf\<close>, without its NUL; \<open>sh_ps\<close> is the text from \<open>*ps\<close> up to \<open>es\<close>, and
  a pointer into the line that is kept is its position. \<open>n\<close> is the length of the line. A node of the tree is a
  value of \<open>cmd\<close>; the \<open>EXEC\<close> node whose arguments are still being read while redirections are put round it is
  built with them at the end. The recursion has the bound \<open>k\<close>. A syntax error prints its message and exits.
\<close>

section \<open>The tree\<close>

datatype cmd =
    EXEC "(nat \<times> nat) list"
  | REDIR cmd nat nat uint int
  | PIPE cmd cmd
  | LIST cmd cmd
  | BACK cmd

record shstate = ustate +
  sh_ps :: cstr

abbreviation (input) MAXARGS :: nat where "MAXARGS \<equiv> 10"

definition sh_panic :: "string \<Rightarrow> ('x ustate_scheme, 'a) K" where
  "sh_panic s = kthen [printf 2 (''%s'' @ [CHR 10]) [pf_str (bytes_of s)]] uexit"

definition fork1 :: "('x ustate_scheme, int) K" where
  "fork1 = kbind (ucall U_fork) (\<lambda>pid. if pid = - 1 then sh_panic ''fork'' else kret pid)"

section \<open>Tokens\<close>

definition whitespace :: cstr where
  "whitespace = [32, 9, 13, 10, 11]"

definition symbols :: cstr where
  "symbols = bytes_of ''<|>&;()''"

abbreviation is_ws :: "uchar \<Rightarrow> bool" where "is_ws c \<equiv> strchr whitespace c \<noteq> None"
abbreviation is_sym :: "uchar \<Rightarrow> bool" where "is_sym c \<equiv> strchr symbols c \<noteq> None"

definition skip_ws :: "cstr \<Rightarrow> cstr" where
  "skip_ws s = dropWhile is_ws s"

text \<open>The token at the start of \<open>s\<close> and the text after it.\<close>

definition token :: "cstr \<Rightarrow> uchar \<times> cstr" where
  "token s = (let c = hdc s in
     if c = 0 then (0, s)
     else if c \<in> {124, 40, 41, 59, 38, 60} then (c, tl s)
     else if c = 62 then (if hdc (tl s) = 62 then (43, tl (tl s)) else (c, tl s))
     else (97, dropWhile (\<lambda>c. \<not> is_ws c \<and> \<not> is_sym c) s))"

definition gettoken :: "nat \<Rightarrow> ('x shstate_scheme, uchar \<times> nat \<times> nat) K" where
  "gettoken n = kbind (kgets sh_ps) (\<lambda>ps. let q = skip_ws ps; (ret, eq) = token q in
     kthen [kmod (\<lambda>s. s\<lparr>sh_ps := skip_ws eq\<rparr>)] (kret (ret, n - length q, n - length eq)))"

definition peek :: "string \<Rightarrow> ('x shstate_scheme, bool) K" where
  "peek toks = kthen [kmod (\<lambda>s. s\<lparr>sh_ps := skip_ws (sh_ps s)\<rparr>)]
     (kgets (\<lambda>s. hdc (sh_ps s) \<noteq> 0 \<and> strchr (bytes_of toks) (hdc (sh_ps s)) \<noteq> None))"

section \<open>The parser\<close>

abbreviation (input) WR_CREATE :: uint where "WR_CREATE \<equiv> 0x201"

primrec parseredirs :: "nat \<Rightarrow> nat \<Rightarrow> (nat \<times> nat \<times> uint \<times> int) list \<Rightarrow> ('x shstate_scheme, (nat \<times> nat \<times> uint \<times> int) list) K" where
  "parseredirs 0 n rs = kspin"
| "parseredirs (Suc k) n rs = kbind (peek ''<>'') (\<lambda>b.
     if \<not> b then kret rs
     else kbind (gettoken n) (\<lambda>(tok, _). kbind (gettoken n) (\<lambda>(t, q, eq).
       if t \<noteq> 97 then sh_panic ''missing file for redirection''
       else parseredirs k n (if tok = 60 then rs @ [(q, eq, 0, 0)]
                             else if tok = 62 \<or> tok = 43 then rs @ [(q, eq, WR_CREATE, 1)] else rs))))"

definition redircmds :: "(nat \<times> nat \<times> uint \<times> int) list \<Rightarrow> cmd \<Rightarrow> cmd" where
  "redircmds rs c = fold (\<lambda>(q, eq, mode, fd) c. REDIR c q eq mode fd) rs c"

primrec parseargs :: "nat \<Rightarrow> nat \<Rightarrow> nat \<Rightarrow> (nat \<times> nat) list \<Rightarrow> (nat \<times> nat \<times> uint \<times> int) list \<Rightarrow> ('x shstate_scheme, cmd) K" where
  "parseargs 0 j n argv rs = kspin"
| "parseargs (Suc k) j n argv rs = kbind (peek ''|)&;'') (\<lambda>b.
     if b then kret (redircmds rs (EXEC argv))
     else kbind (gettoken n) (\<lambda>(tok, q, eq).
       if tok = 0 then kret (redircmds rs (EXEC argv))
       else if tok \<noteq> 97 then sh_panic ''syntax''
       else if Suc (length argv) \<ge> MAXARGS then sh_panic ''too many args''
       else kbind (parseredirs j n rs) (\<lambda>rs. parseargs k j n (argv @ [(q, eq)]) rs)))"

primrec parseamps :: "nat \<Rightarrow> nat \<Rightarrow> cmd \<Rightarrow> ('x shstate_scheme, cmd) K" where
  "parseamps 0 n c = kspin"
| "parseamps (Suc k) n c = kbind (peek ''&'') (\<lambda>b.
     if b then kbind (gettoken n) (\<lambda>_. parseamps k n (BACK c)) else kret c)"

fun parseline :: "nat \<Rightarrow> nat \<Rightarrow> ('x shstate_scheme, cmd) K"
  and parsepipe :: "nat \<Rightarrow> nat \<Rightarrow> ('x shstate_scheme, cmd) K"
  and parseexec :: "nat \<Rightarrow> nat \<Rightarrow> ('x shstate_scheme, cmd) K"
  and parseblock :: "nat \<Rightarrow> nat \<Rightarrow> ('x shstate_scheme, cmd) K" where
  "parseline 0 n = kspin"
| "parseline (Suc k) n = kbind (parsepipe k n) (\<lambda>c. kbind (parseamps k n c) (\<lambda>c. kbind (peek '';'') (\<lambda>b.
     if b then kbind (gettoken n) (\<lambda>_. kbind (parseline k n) (\<lambda>r. kret (LIST c r))) else kret c)))"
| "parsepipe 0 n = kspin"
| "parsepipe (Suc k) n = kbind (parseexec k n) (\<lambda>c. kbind (peek ''|'') (\<lambda>b.
     if b then kbind (gettoken n) (\<lambda>_. kbind (parsepipe k n) (\<lambda>r. kret (PIPE c r))) else kret c))"
| "parseexec 0 n = kspin"
| "parseexec (Suc k) n = kbind (peek ''('') (\<lambda>b.
     if b then parseblock k n else kbind (parseredirs k n []) (\<lambda>rs. parseargs k k n [] rs))"
| "parseblock 0 n = kspin"
| "parseblock (Suc k) n = kbind (peek ''('') (\<lambda>b.
     if \<not> b then sh_panic ''parseblock''
     else kbind (gettoken n) (\<lambda>_. kbind (parseline k n) (\<lambda>c. kbind (peek '')'') (\<lambda>b.
       if \<not> b then sh_panic ''syntax - missing )''
       else kbind (gettoken n) (\<lambda>_. kbind (parseredirs k n []) (\<lambda>rs. kret (redircmds rs c)))))))"

text \<open>The positions at which \<open>nulterminate\<close> stores a NUL.\<close>

fun ends :: "cmd \<Rightarrow> nat list" where
  "ends (EXEC argv) = map snd argv"
| "ends (REDIR c q eq mode fd) = ends c @ [eq]"
| "ends (PIPE l r) = ends l @ ends r"
| "ends (LIST l r) = ends l @ ends r"
| "ends (BACK c) = ends c"

definition nulterminate :: "cmd \<Rightarrow> cstr \<Rightarrow> cstr" where
  "nulterminate c b = fold (\<lambda>e b. b[e := 0]) (ends c) b"

text \<open>The tree, and the line, with its NUL, after the call.\<close>

definition parsecmd :: "nat \<Rightarrow> cstr \<Rightarrow> ('x shstate_scheme, cmd \<times> cstr) K" where
  "parsecmd k buf = (let n = length buf in
     kthen [kmod (\<lambda>s. s\<lparr>sh_ps := buf\<rparr>)] (kbind (parseline k n) (\<lambda>c. kbind (peek '''') (\<lambda>_. kbind (kgets sh_ps) (\<lambda>ps.
       if ps \<noteq> [] then kthen [printf 2 (''leftovers: %s'' @ [CHR 10]) [pf_str ps]] (sh_panic ''syntax'')
       else kret (c, nulterminate c (buf @ [0])))))))"

section \<open>Running a command\<close>

definition str_at :: "cstr \<Rightarrow> nat \<Rightarrow> cstr" where
  "str_at b q = str_of (drop q b)"

definition int_at :: "cstr \<Rightarrow> nat \<Rightarrow> int" where
  "int_at d i = cint (get32 d (4 * i))"

fun runcmd :: "cstr \<Rightarrow> cmd \<Rightarrow> ('x ustate_scheme, unit) K" where
  "runcmd b (EXEC []) = uexit"
| "runcmd b (EXEC (a # as)) = kdo [udo (U_exec (str_at b (fst a)) (map (str_at b \<circ> fst) (a # as))),
     printf 2 (''exec %s failed'' @ [CHR 10]) [pf_str (str_at b (fst a))], uexit]"
| "runcmd b (REDIR c q eq mode fd) = kthen [udo (U_close fd)] (kbind (ucall (U_open (str_at b q) mode)) (\<lambda>r.
     if r < 0 then kdo [printf 2 (''open %s failed'' @ [CHR 10]) [pf_str (str_at b q)], uexit]
     else kdo [runcmd b c, uexit]))"
| "runcmd b (LIST l r) = kbind fork1 (\<lambda>pid. kdo [kwhen (pid = 0) (runcmd b l), udo U_wait, runcmd b r, uexit])"
| "runcmd b (PIPE l r) = kbind (usys U_pipe) (\<lambda>(x, d). let p0 = int_at d 0; p1 = int_at d 1 in
     if x < 0 then sh_panic ''pipe''
     else kbind fork1 (\<lambda>pid. kthen
       [kwhen (pid = 0) (kdo [udo (U_close 1), udo (U_dup p1), udo (U_close p0), udo (U_close p1), runcmd b l])]
       (kbind fork1 (\<lambda>pid. kdo
         [kwhen (pid = 0) (kdo [udo (U_close 0), udo (U_dup p0), udo (U_close p0), udo (U_close p1), runcmd b r]),
          udo (U_close p0), udo (U_close p1), udo U_wait, udo U_wait, uexit]))))"
| "runcmd b (BACK c) = kbind fork1 (\<lambda>pid. kdo [kwhen (pid = 0) (runcmd b c), uexit])"

definition getcmd :: "nat \<Rightarrow> ('x ustate_scheme, int \<times> cstr) K" where
  "getcmd nbuf = kthen [printf 2 ''$ '' []] (kbind (ugets (replicate nbuf 0) (int nbuf)) (\<lambda>buf.
     kret (if hdc buf = 0 then (- 1, buf) else (0, buf))))"

text \<open>A line of the main loop; \<open>cd\<close> is run by the shell itself.\<close>

definition sh_line :: "nat \<Rightarrow> cstr \<Rightarrow> ('x shstate_scheme, unit) K" where
  "sh_line k buf =
     (if take 3 buf = bytes_of ''cd '' then
        let d = drop 3 (str_of (buf[ustrlen buf - 1 := 0])) in
        kbind (ucall (U_chdir d)) (\<lambda>r. kwhen (r < 0) (printf 2 (''cannot cd %s'' @ [CHR 10]) [pf_str d]))
      else kbind fork1 (\<lambda>pid. kdo [kwhen (pid = 0) (kbind (parsecmd k (str_of buf)) (\<lambda>(c, b). runcmd b c)), udo U_wait]))"

primrec sh_loop :: "nat \<Rightarrow> nat \<Rightarrow> ('x shstate_scheme, unit) K" where
  "sh_loop 0 k = kspin"
| "sh_loop (Suc j) k = kbind (getcmd 100) (\<lambda>(r, buf). if r < 0 then uexit else kdo [sh_line k buf, sh_loop j k])"

primrec sh_open :: "nat \<Rightarrow> ('x ustate_scheme, unit) K" where
  "sh_open 0 = kspin"
| "sh_open (Suc j) = kbind (ucall (U_open (bytes_of ''console'') 2)) (\<lambda>fd.
     if fd < 0 then kret () else if fd \<ge> 3 then udo (U_close fd) else sh_open j)"

definition sh_main :: "nat \<Rightarrow> nat \<Rightarrow> ('x shstate_scheme, unit) K" where
  "sh_main j k = kdo [sh_open j, sh_loop j k]"

section \<open>Every parse ends\<close>

lemma skip_ws_length: "length (skip_ws s) \<le> length s"
  by (simp add: skip_ws_def length_dropWhile_le)

lemma skip_ws_hdc: "skip_ws s \<noteq> [] \<Longrightarrow> \<not> is_ws (hdc (skip_ws s))"
  using hd_dropWhile [of is_ws s] by (cases "skip_ws s") (auto simp: skip_ws_def)

lemma sym_chars: "is_sym c \<longleftrightarrow> c \<in> {60, 124, 62, 38, 59, 40, 41}"
  by (auto simp: symbols_def bytes_of_def)

lemma ws_chars: "is_ws c \<longleftrightarrow> c \<in> {32, 9, 13, 10, 11}"
  by (auto simp: whitespace_def)

lemma token_length:
  "length (snd (token s)) \<le> length s"
  "hdc s \<noteq> 0 \<Longrightarrow> \<not> is_ws (hdc s) \<Longrightarrow> length (snd (token s)) < length s"
  "fst (token s) = 0 \<longleftrightarrow> hdc s = 0"
proof -
  let ?w = "\<lambda>c. \<not> is_ws c \<and> \<not> is_sym c"
  have le: "length (dropWhile ?w t) \<le> length t" for t by (rule length_dropWhile_le)
  show "length (snd (token s)) \<le> length s" using le [of s] by (auto simp: token_def Let_def simp del: not_None_eq)
  show "fst (token s) = 0 \<longleftrightarrow> hdc s = 0" by (auto simp: token_def Let_def)
  show "length (snd (token s)) < length s" if "hdc s \<noteq> 0" "\<not> is_ws (hdc s)"
  proof (cases s)
    case Nil
    then show ?thesis using that by simp
  next
    case (Cons c r)
    have "c \<notin> {124, 40, 41, 59, 38, 60} \<Longrightarrow> c \<noteq> 62 \<Longrightarrow> ?w c" using that Cons sym_chars [of c] by auto
    then show ?thesis using Cons that(1) le [of r] by (auto simp: token_def Let_def simp del: not_None_eq)
  qed
qed

text \<open>Code that, from a text of at most \<open>L\<close> characters, returns and does not lengthen it, or exits.\<close>

definition short :: "nat \<Rightarrow> ('x shstate_scheme, 'a) outcome \<Rightarrow> bool" where
  "short l r \<longleftrightarrow> (case r of Ok x t \<Rightarrow> length (sh_ps t) \<le> l | Blocked t \<Rightarrow> True | Panic e \<Rightarrow> False | Spins \<Rightarrow> False)"

definition ends_in :: "nat \<Rightarrow> ('x shstate_scheme, 'a) K \<Rightarrow> bool" where
  "ends_in L m \<longleftrightarrow> (\<forall>s. length (sh_ps s) \<le> L \<longrightarrow> short (length (sh_ps s)) (m s))"

lemma short_simps [simp]: "short l (Ok x t) \<longleftrightarrow> length (sh_ps t) \<le> l" "short l (Blocked t)" "\<not> short l (Panic e)" "\<not> short l Spins"
  by (simp_all add: short_def)

lemma endsD: "ends_in L m \<Longrightarrow> length (sh_ps s) \<le> L \<Longrightarrow> length (sh_ps s) \<le> l \<Longrightarrow> short l (m s)"
proof -
  assume a: "ends_in L m" "length (sh_ps s) \<le> L" "length (sh_ps s) \<le> l"
  then have "short (length (sh_ps s)) (m s)" by (simp add: ends_in_def)
  then show ?thesis using a(3) by (cases "m s") auto
qed

lemma ends_bind:
  assumes "ends_in L m" "\<And>x. ends_in L (f x)"
  shows "ends_in L (kbind m f)"
  unfolding ends_in_def
proof (intro allI impI)
  fix s :: "'a shstate_scheme" assume l: "length (sh_ps s) \<le> L"
  show "short (length (sh_ps s)) (kbind m f s)"
  proof (cases "m s")
    case (Ok x t)
    then have t: "length (sh_ps t) \<le> length (sh_ps s)" using endsD [OF assms(1) l order_refl] by simp
    show ?thesis using Ok endsD [OF assms(2) order_trans [OF t l] t] by simp
  qed (use endsD [OF assms(1) l order_refl] in \<open>auto simp: kbind_def\<close>)
qed

lemma ends_ret: "ends_in L (kret x)" "ends_in L (Ok x)"
  by (simp_all add: ends_in_def)

lemma sh_panic_exits: "\<exists>t. sh_panic e s = Blocked t"
proof -
  obtain t where "format_text False (bytes_of (''%s'' @ [CHR 10])) [pf_str (bytes_of e)] = Some t" by (simp add: bytes_of_def arg_text_def)
  from writes_printf [OF this, of 2] obtain h where "printf 2 (''%s'' @ [CHR 10]) [pf_str (bytes_of e)] s = Ok () (s\<lparr>u_hist := u_hist s @ h\<rparr>)"
    unfolding writes_def by blast
  then show ?thesis by (simp add: sh_panic_def kthen_def split: prod.splits)
qed

lemma sh_panic_not_Ok: "sh_panic e s \<noteq> Ok x t"
  using sh_panic_exits by (metis outcome.distinct(3))

lemma ends_panic: "ends_in L (sh_panic e)"
  unfolding ends_in_def using sh_panic_exits by (metis short_simps(2))

lemma ends_mono: "ends_in L m \<Longrightarrow> L' \<le> L \<Longrightarrow> ends_in L' m"
  by (auto simp: ends_in_def)

lemma peek_run: "peek toks s = Ok (hdc (skip_ws (sh_ps s)) \<noteq> 0 \<and> strchr (bytes_of toks) (hdc (skip_ws (sh_ps s))) \<noteq> None) (s\<lparr>sh_ps := skip_ws (sh_ps s)\<rparr>)"
  by (simp add: peek_def kthen_def)

lemmas peek_bind = kbind_Ok [OF peek_run]

lemma gettoken_run: "gettoken n s = Ok (fst (token (skip_ws (sh_ps s))), n - length (skip_ws (sh_ps s)), n - length (snd (token (skip_ws (sh_ps s)))))
    (s\<lparr>sh_ps := skip_ws (snd (token (skip_ws (sh_ps s))))\<rparr>)"
  by (simp add: gettoken_def kthen_def Let_def split_beta)

lemma ends_peek: "ends_in L (peek toks)"
  by (simp add: ends_in_def peek_run skip_ws_length)

lemma ends_gettoken:
  assumes "\<And>q e. ends_in L (f (0, q, e))" "\<And>tok q e. 0 < L \<Longrightarrow> ends_in (L - 1) (f (tok, q, e))"
  shows "ends_in L (kbind (gettoken n) f)"
  unfolding ends_in_def
proof (intro allI impI)
  fix s :: "'a shstate_scheme" assume l: "length (sh_ps s) \<le> L"
  let ?q = "skip_ws (sh_ps s)"
  let ?t = "s\<lparr>sh_ps := skip_ws (snd (token ?q))\<rparr>"
  have run: "kbind (gettoken n) f s = f (fst (token ?q), n - length ?q, n - length (snd (token ?q))) ?t" by (simp add: gettoken_run)
  have t: "length (sh_ps ?t) \<le> length (sh_ps s)"
    using skip_ws_length [of "snd (token ?q)"] token_length(1) [of ?q] skip_ws_length [of "sh_ps s"] by simp
  show "short (length (sh_ps s)) (kbind (gettoken n) f s)"
  proof (cases "hdc ?q = 0")
    case True
    then have "fst (token ?q) = 0" by (simp add: token_length(3))
    then have "ends_in L (f (fst (token ?q), n - length ?q, n - length (snd (token ?q))))" using assms(1) by simp
    then show ?thesis unfolding run using endsD [OF _ order_trans [OF t l] t] by blast
  next
    case False
    then have ne: "?q \<noteq> []" by (cases ?q) auto
    have "length (snd (token ?q)) < length ?q" by (rule token_length(2) [OF False skip_ws_hdc [OF ne]])
    then have lt: "length (sh_ps ?t) < length (sh_ps s)" using skip_ws_length [of "snd (token ?q)"] skip_ws_length [of "sh_ps s"] by simp
    then have "ends_in (L - 1) (f (fst (token ?q), n - length ?q, n - length (snd (token ?q))))" using assms(2) l by simp
    moreover have "length (sh_ps ?t) \<le> L - 1" using lt l by simp
    ultimately show ?thesis unfolding run using endsD t by blast
  qed
qed

text \<open>A token that was seen coming is not the end of the text.\<close>

lemma ends_seen:
  assumes "\<And>x. 0 < L \<Longrightarrow> ends_in (L - 1) (f x)" "ends_in L g"
  shows "ends_in L (kbind (peek toks) (\<lambda>b. if b then kbind (gettoken n) f else g))"
  unfolding ends_in_def
proof (intro allI impI)
  fix s :: "'a shstate_scheme" assume l: "length (sh_ps s) \<le> L"
  let ?q = "skip_ws (sh_ps s)"
  let ?s = "s\<lparr>sh_ps := ?q\<rparr>"
  have q: "length ?q \<le> length (sh_ps s)" by (rule skip_ws_length)
  have qq: "skip_ws ?q = ?q" by (simp add: skip_ws_def)
  let ?m = "if hdc ?q \<noteq> 0 \<and> strchr (bytes_of toks) (hdc ?q) \<noteq> None then kbind (gettoken n) f else g"
  have run: "kbind (peek toks) (\<lambda>b. if b then kbind (gettoken n) f else g) s = ?m ?s" by (simp add: peek_run)
  show "short (length (sh_ps s)) (kbind (peek toks) (\<lambda>b. if b then kbind (gettoken n) f else g) s)"
  proof (cases "hdc ?q \<noteq> 0 \<and> strchr (bytes_of toks) (hdc ?q) \<noteq> None")
    case True
    let ?t = "s\<lparr>sh_ps := skip_ws (snd (token ?q))\<rparr>"
    have ne: "?q \<noteq> []" using True by (cases ?q) auto
    have "length (snd (token ?q)) < length ?q" by (rule token_length(2) [OF _ skip_ws_hdc [OF ne]]) (use True in simp)
    then have lt: "length (sh_ps ?t) < length (sh_ps s)" using skip_ws_length [of "snd (token ?q)"] q by simp
    have r: "kbind (peek toks) (\<lambda>b. if b then kbind (gettoken n) f else g) s = f (fst (token ?q), n - length ?q, n - length (snd (token ?q))) ?t"
      using run True by (simp add: gettoken_run qq)
    have "ends_in (L - 1) (f (fst (token ?q), n - length ?q, n - length (snd (token ?q))))" using assms(1) lt l by simp
    moreover have "length (sh_ps ?t) \<le> L - 1" using lt l by simp
    ultimately show ?thesis unfolding r using endsD less_imp_le [OF lt] by blast
  next
    case False
    then have r: "kbind (peek toks) (\<lambda>b. if b then kbind (gettoken n) f else g) s = g ?s" using run unfolding if_not_P [OF False] by simp
    show ?thesis unfolding r by (rule endsD [OF assms(2)]) (use l q in simp_all)
  qed
qed

lemma ends_if: "ends_in L m \<Longrightarrow> ends_in L n \<Longrightarrow> ends_in L (if b then m else n)"
  by simp

lemma ends_seen_not:
  assumes "\<And>x. 0 < L \<Longrightarrow> ends_in (L - 1) (f x)" "ends_in L g"
  shows "ends_in L (kbind (peek toks) (\<lambda>b. if \<not> b then g else kbind (gettoken n) f))"
proof -
  have "(\<lambda>b. if \<not> b then g else kbind (gettoken n) f) = (\<lambda>b. if b then kbind (gettoken n) f else g)" by auto
  then show ?thesis using ends_seen [OF assms] by (simp only:)
qed

lemma ends_parseredirs: "L < k \<Longrightarrow> ends_in L (parseredirs k n rs :: ('x shstate_scheme, (nat \<times> nat \<times> uint \<times> int) list) K)"
proof (induction k arbitrary: L rs)
  case (Suc k)
  have ih: "ends_in (L - 1) (parseredirs k n rs' :: ('x shstate_scheme, (nat \<times> nat \<times> uint \<times> int) list) K)" if "0 < L" for rs' using Suc that by simp
  have ih': "ends_in (L - 2) (parseredirs k n rs' :: ('x shstate_scheme, (nat \<times> nat \<times> uint \<times> int) list) K)" if "1 < L" for rs'
    by (rule ends_mono [OF ih]) (use that in simp_all)
  show ?case unfolding parseredirs.simps
    by (intro ends_seen_not ends_ret) (auto intro!: ends_gettoken ends_panic ih ih' split: prod.splits simp del: One_nat_def)
qed simp

lemma ends_parseargs: "L < k \<Longrightarrow> L < j \<Longrightarrow> ends_in L (parseargs k j n argv rs :: ('x shstate_scheme, cmd) K)"
proof (induction k arbitrary: L argv rs)
  case (Suc k)
  have ih: "0 < L \<Longrightarrow> ends_in (L - 1) (parseargs k j n argv' rs' :: ('x shstate_scheme, cmd) K)" for argv' rs' using Suc by simp
  have re: "ends_in (L - 1) (parseredirs j n rs' :: ('x shstate_scheme, (nat \<times> nat \<times> uint \<times> int) list) K)" for rs'
    by (rule ends_parseredirs) (use Suc.prems(2) in simp)
  show ?case unfolding parseargs.simps
    by (intro ends_bind ends_peek ends_if ends_ret ends_gettoken) (auto intro!: ends_ret ends_panic ends_bind re ih simp del: One_nat_def)
qed simp

lemma ends_parseamps: "L < k \<Longrightarrow> ends_in L (parseamps k n c)"
proof (induction k arbitrary: L c)
  case (Suc k)
  then show ?case unfolding parseamps.simps by (intro ends_seen ends_ret) simp
qed simp

lemma ends_parse:
  "(4 * L + 4 \<le> k \<longrightarrow> ends_in L (parseline k n :: ('x shstate_scheme, cmd) K))
   \<and> (4 * L + 3 \<le> k \<longrightarrow> ends_in L (parsepipe k n :: ('x shstate_scheme, cmd) K))
   \<and> (4 * L + 2 \<le> k \<longrightarrow> ends_in L (parseexec k n :: ('x shstate_scheme, cmd) K))
   \<and> (4 * L + 1 \<le> k \<longrightarrow> ends_in L (parseblock k n :: ('x shstate_scheme, cmd) K))"
proof (induction k arbitrary: L)
  case (Suc k)
  note l = Suc.IH [THEN conjunct1, rule_format] and p = Suc.IH [THEN conjunct2, THEN conjunct1, rule_format]
    and e = Suc.IH [THEN conjunct2, THEN conjunct2, THEN conjunct1, rule_format] and b = Suc.IH [THEN conjunct2, THEN conjunct2, THEN conjunct2, rule_format]
  have "ends_in L (parseline (Suc k) n :: ('x shstate_scheme, cmd) K)" if "4 * L + 4 \<le> Suc k"
    unfolding parseline.simps using that
    by (intro ends_bind [OF p] ends_bind [OF ends_parseamps] ends_seen ends_bind [OF l] ends_ret) simp_all
  moreover have "ends_in L (parsepipe (Suc k) n :: ('x shstate_scheme, cmd) K)" if "4 * L + 3 \<le> Suc k"
    unfolding parsepipe.simps using that by (intro ends_bind [OF e] ends_seen ends_bind [OF p] ends_ret) simp_all
  moreover have "ends_in L (parseexec (Suc k) n :: ('x shstate_scheme, cmd) K)" if "4 * L + 2 \<le> Suc k"
    unfolding parseexec.simps using that
    by (intro ends_bind [OF ends_peek] ends_if b ends_bind [OF ends_parseredirs] ends_parseargs) simp_all
  moreover have "ends_in L (parseblock (Suc k) n :: ('x shstate_scheme, cmd) K)" if "4 * L + 1 \<le> Suc k"
    unfolding parseblock.simps using that
    by (intro ends_seen_not ends_bind [OF l] ends_bind [OF ends_parseredirs] ends_ret ends_panic) simp_all
  ultimately show ?case by blast
qed simp

text \<open>C13: the recursive-descent parser ends on every line: with a recursion bound of four for each character it returns a
  tree, or reports a syntax error and exits; it never runs on.\<close>

theorem parsecmd_terminates:
  assumes "4 * length buf + 4 \<le> k"
  shows "(\<exists>c b t. parsecmd k buf s = Ok (c, b) t) \<or> (\<exists>t. parsecmd k buf s = Blocked t)"
proof -
  let ?s = "s\<lparr>sh_ps := buf\<rparr>"
  have "ends_in (length buf) (parseline k (length buf) :: ('a shstate_scheme, cmd) K)" using ends_parse [of "length buf" k "length buf"] assms by blast
  then have sh: "short (length buf) (parseline k (length buf) ?s)" by (rule endsD) simp_all
  then show ?thesis
  proof (cases "parseline k (length buf) ?s")
    case (Ok c t)
    let ?t = "t\<lparr>sh_ps := skip_ws (sh_ps t)\<rparr>" and ?a = "[pf_str (skip_ws (sh_ps t))]" and ?f = "''leftovers: %s'' @ [CHR 10]"
    obtain x where "format_text False (bytes_of ?f) ?a = Some x" by (simp add: bytes_of_def arg_text_def)
    from writes_printf [OF this, of 2] obtain h where "printf 2 ?f ?a ?t = Ok () (?t\<lparr>u_hist := u_hist ?t @ h\<rparr>)" unfolding writes_def by blast
    moreover obtain u where "sh_panic ''syntax'' (?t\<lparr>u_hist := u_hist ?t @ h\<rparr>) = (Blocked u :: ('a shstate_scheme, cmd \<times> cstr) outcome)" using sh_panic_exits by blast
    ultimately show ?thesis using Ok by (cases "skip_ws (sh_ps t) = []") (auto simp: parsecmd_def Let_def kthen_def peek_bind)
  qed (auto simp: parsecmd_def Let_def kthen_def kbind_def)
qed

theorem parsecmd_terminates_witness:
  "(\<exists>c b t. parsecmd 20 (bytes_of ''a|b'') \<lparr>u_env = (\<lambda>_ _. (0, [])), u_hist = [], sh_ps = []\<rparr> = Ok (c, b) t)
   \<or> (\<exists>t. parsecmd 20 (bytes_of ''a|b'') \<lparr>u_env = (\<lambda>_ _. (0, [])), u_hist = [], sh_ps = []\<rparr> = Blocked t)"
  by (rule parsecmd_terminates) (simp add: bytes_of_def)

section \<open>The strings of the tree\<close>

fun cmd_words :: "cmd \<Rightarrow> (nat \<times> nat) list" where
  "cmd_words (EXEC argv) = argv"
| "cmd_words (REDIR c q eq mode fd) = cmd_words c @ [(q, eq)]"
| "cmd_words (PIPE l r) = cmd_words l @ cmd_words r"
| "cmd_words (LIST l r) = cmd_words l @ cmd_words r"
| "cmd_words (BACK c) = cmd_words c"

lemma ends_words: "ends c = map snd (cmd_words c)"
  by (induction c) auto

text \<open>A maximal run of characters that are neither blank nor special.\<close>

definition is_word :: "cstr \<Rightarrow> nat \<times> nat \<Rightarrow> bool" where
  "is_word buf w \<longleftrightarrow> (case w of (q, e) \<Rightarrow> q < e \<and> e \<le> length buf \<and> (\<forall>i. q \<le> i \<and> i < e \<longrightarrow> \<not> is_ws (buf ! i) \<and> \<not> is_sym (buf ! i))
     \<and> (e < length buf \<longrightarrow> is_ws (buf ! e) \<or> is_sym (buf ! e)))"

definition in_line :: "cstr \<Rightarrow> 'x shstate_scheme \<Rightarrow> bool" where
  "in_line buf s \<longleftrightarrow> (\<exists>p. buf = p @ sh_ps s)"

definition pv :: "cstr \<Rightarrow> ('x shstate_scheme, 'a) K \<Rightarrow> ('a \<Rightarrow> bool) \<Rightarrow> bool" where
  "pv buf m Q \<longleftrightarrow> (\<forall>s x t. in_line buf s \<longrightarrow> m s = Ok x t \<longrightarrow> in_line buf t \<and> Q x)"

lemma pv_bind: "pv buf m R \<Longrightarrow> (\<And>x. R x \<Longrightarrow> pv buf (f x) Q) \<Longrightarrow> pv buf (kbind m f) Q"
  unfolding pv_def kbind_eq_Ok by blast

lemma pv_ret: "Q x \<Longrightarrow> pv buf (kret x) Q" "Q x \<Longrightarrow> pv buf (Ok x) Q"
  by (simp_all add: pv_def)

lemma pv_panic: "pv buf (sh_panic e) Q"
  unfolding pv_def using sh_panic_exits by (metis outcome.distinct(3))

lemma pv_if: "pv buf m Q \<Longrightarrow> pv buf n Q \<Longrightarrow> pv buf (if b then m else n) Q"
  by simp

lemma skip_ws_suffix: "\<exists>w. s = w @ skip_ws s"
  unfolding skip_ws_def by (rule exI [of _ "takeWhile is_ws s"]) (rule takeWhile_dropWhile_id [symmetric])

lemma token_suffix: "\<exists>w. s = w @ snd (token s)"
proof -
  let ?w = "\<lambda>c. \<not> is_ws c \<and> \<not> is_sym c"
  have d: "\<exists>w. s = w @ dropWhile ?w s" by (rule exI [of _ "takeWhile ?w s"]) (rule takeWhile_dropWhile_id [symmetric])
  have t: "\<exists>w. r = w @ tl r" for r :: cstr by (cases r) auto
  obtain a where a: "s = a @ tl s" using t [of s] by blast
  obtain b where b: "tl s = b @ tl (tl s)" using t [of "tl s"] by blast
  have "s = (a @ b) @ tl (tl s)" using a b by (metis append.assoc)
  then have tt: "\<exists>w. s = w @ tl (tl s)" by blast
  have "snd (token s) = s \<or> snd (token s) = tl s \<or> snd (token s) = tl (tl s) \<or> snd (token s) = dropWhile ?w s"
    by (simp add: token_def Let_def del: not_None_eq)
  then show ?thesis
  proof (elim disjE)
    assume "snd (token s) = s"
    then show ?thesis by simp
  next
    assume "snd (token s) = tl s"
    then show ?thesis using t [of s] by (simp only:)
  next
    assume "snd (token s) = tl (tl s)"
    then show ?thesis using tt by (simp only:)
  next
    assume "snd (token s) = dropWhile ?w s"
    then show ?thesis using d by (simp only:)
  qed
qed

lemma suffix_trans: "\<exists>p. b = p @ s \<Longrightarrow> \<exists>w. s = w @ t \<Longrightarrow> \<exists>p. b = p @ t" for b s t :: "'a list"
  by (elim exE) (metis append.assoc)

lemma pv_peek: "pv buf (peek toks) (\<lambda>_. True)"
proof -
  have "in_line buf t" if "in_line buf s" "peek toks s = Ok x t" for s t :: "'a shstate_scheme" and x
    using that suffix_trans [OF _ skip_ws_suffix] by (auto simp: in_line_def peek_run)
  then show ?thesis by (simp add: pv_def)
qed

lemma token_word:
  assumes "fst (token q) = 97" "q \<noteq> [] \<longrightarrow> \<not> is_ws (hdc q)"
  shows "is_word (p @ q) (length p, length (p @ q) - length (snd (token q)))"
proof -
  let ?w = "\<lambda>c. \<not> is_ws c \<and> \<not> is_sym c"
  have c: "hdc q \<noteq> 0" "hdc q \<notin> {124, 40, 41, 59, 38, 60}" "hdc q \<noteq> 62" using assms(1) by (auto simp: token_def Let_def split: if_splits)
  then have eq: "snd (token q) = dropWhile ?w q" by (auto simp: token_def Let_def)
  obtain x r where q: "q = x # r" using c(1) by (cases q) auto
  have x: "?w x" using c q assms(2) sym_chars [of x] by auto
  let ?t = "takeWhile ?w q"
  have len: "length (p @ q) - length (snd (token q)) = length p + length ?t"
  proof -
    have "length q = length ?t + length (dropWhile ?w q)" by (metis length_append takeWhile_dropWhile_id)
    then show ?thesis unfolding eq by (simp del: not_None_eq)
  qed
  have "0 < length ?t" using x q by (simp del: not_None_eq)
  moreover have "length ?t \<le> length q" by (rule length_takeWhile_le)
  moreover have "?w ((p @ q) ! i)" if "length p \<le> i" "i < length p + length ?t" for i
  proof -
    have "(p @ q) ! i = ?t ! (i - length p)" using that takeWhile_nth [of "i - length p" ?w q] by (simp add: nth_append del: not_None_eq)
    moreover have "?t ! (i - length p) \<in> set ?t" using that by (intro nth_mem) simp
    then have "?w (?t ! (i - length p))" using set_takeWhileD [of _ ?w q] by blast
    ultimately show ?thesis by metis
  qed
  moreover have "\<not> ?w ((p @ q) ! (length p + length ?t))" if "length ?t < length q"
    using nth_length_takeWhile [OF that] by (simp add: nth_append del: not_None_eq)
  ultimately show ?thesis unfolding len is_word_def by (auto simp del: not_None_eq)
qed

lemma pv_gettoken: "pv buf (gettoken (length buf)) (\<lambda>(tok, w). tok = 97 \<longrightarrow> is_word buf w)"
  unfolding pv_def
proof (intro allI impI)
  fix s t :: "'a shstate_scheme" and v assume s: "in_line buf s" "gettoken (length buf) s = Ok v t"
  let ?q = "skip_ws (sh_ps s)"
  obtain p where p: "buf = p @ ?q" using s(1) skip_ws_suffix [of "sh_ps s"] suffix_trans [OF _ skip_ws_suffix] unfolding in_line_def by blast
  have v: "v = (fst (token ?q), length buf - length ?q, length buf - length (snd (token ?q)))" "sh_ps t = skip_ws (snd (token ?q))"
    using s(2) by (auto simp: gettoken_run)
  have "in_line buf t"
    unfolding in_line_def v(2) using p by (intro suffix_trans [OF suffix_trans [OF _ token_suffix] skip_ws_suffix]) blast
  moreover have "length buf - length ?q = length p" using arg_cong [OF p, of length] by simp
  then have "fst (token ?q) = 97 \<Longrightarrow> is_word buf (length buf - length ?q, length buf - length (snd (token ?q)))"
    using token_word [of ?q p] skip_ws_hdc [of "sh_ps s"] p by metis
  ultimately show "in_line buf t \<and> (case v of (tok, w) \<Rightarrow> tok = 97 \<longrightarrow> is_word buf w)" using v(1) by simp
qed

definition words_ok :: "cstr \<Rightarrow> cmd \<Rightarrow> bool" where
  "words_ok buf c \<longleftrightarrow> (\<forall>w\<in>set (cmd_words c). is_word buf w)"

definition redirs_ok :: "cstr \<Rightarrow> (nat \<times> nat \<times> uint \<times> int) list \<Rightarrow> bool" where
  "redirs_ok buf rs \<longleftrightarrow> (\<forall>(q, e, _)\<in>set rs. is_word buf (q, e))"

lemma words_ok_simps [simp]:
  "words_ok buf (EXEC argv) \<longleftrightarrow> (\<forall>w\<in>set argv. is_word buf w)"
  "words_ok buf (PIPE l r) \<longleftrightarrow> words_ok buf l \<and> words_ok buf r" "words_ok buf (LIST l r) \<longleftrightarrow> words_ok buf l \<and> words_ok buf r"
  "words_ok buf (BACK c) \<longleftrightarrow> words_ok buf c" "words_ok buf (REDIR c q e m fd) \<longleftrightarrow> words_ok buf c \<and> is_word buf (q, e)"
  by (auto simp: words_ok_def)

lemma redirs_ok_simps [simp]: "redirs_ok buf []" "redirs_ok buf (rs @ [(q, e, x)]) \<longleftrightarrow> redirs_ok buf rs \<and> is_word buf (q, e)"
  by (auto simp: redirs_ok_def)

lemma words_ok_redirs: "words_ok buf c \<Longrightarrow> redirs_ok buf rs \<Longrightarrow> words_ok buf (redircmds rs c)"
  unfolding redircmds_def by (induction rs arbitrary: c) (auto simp: redirs_ok_def)

lemma pv_parseredirs: "redirs_ok buf rs \<Longrightarrow> pv buf (parseredirs k (length buf) rs) (redirs_ok buf)"
proof (induction k arbitrary: rs)
  case 0
  then show ?case by (simp add: pv_def)
next
  case (Suc k)
  show ?case unfolding parseredirs.simps
    by (intro pv_bind [OF pv_peek] pv_if pv_ret Suc.prems pv_bind [OF pv_gettoken])
      (auto intro!: pv_bind [OF pv_gettoken] pv_panic Suc.IH Suc.prems)
qed

lemma pv_parseargs:
  "(\<forall>w\<in>set argv. is_word buf w) \<Longrightarrow> redirs_ok buf rs \<Longrightarrow> pv buf (parseargs k j (length buf) argv rs) (words_ok buf)"
proof (induction k arbitrary: argv rs)
  case 0
  then show ?case by (simp add: pv_def)
next
  case (Suc k)
  have r: "words_ok buf (redircmds rs (EXEC argv))" by (rule words_ok_redirs) (use Suc.prems in simp_all)
  show ?case unfolding parseargs.simps
    by (intro pv_bind [OF pv_peek] pv_if pv_ret r pv_bind [OF pv_gettoken])
      (auto intro!: pv_ret r pv_panic pv_bind [OF pv_parseredirs] Suc.IH simp: Suc.prems)
qed

lemma pv_parseamps: "words_ok buf c \<Longrightarrow> pv buf (parseamps k (length buf) c) (words_ok buf)"
proof (induction k arbitrary: c)
  case 0
  then show ?case by (simp add: pv_def)
next
  case (Suc k)
  show ?case unfolding parseamps.simps
    by (intro pv_bind [OF pv_peek] pv_if pv_ret Suc.prems pv_bind [OF pv_gettoken] Suc.IH) (simp add: Suc.prems)
qed

lemma pv_parse:
  "pv buf (parseline k (length buf) :: ('x shstate_scheme, cmd) K) (words_ok buf)
   \<and> pv buf (parsepipe k (length buf) :: ('x shstate_scheme, cmd) K) (words_ok buf)
   \<and> pv buf (parseexec k (length buf) :: ('x shstate_scheme, cmd) K) (words_ok buf)
   \<and> pv buf (parseblock k (length buf) :: ('x shstate_scheme, cmd) K) (words_ok buf)"
proof (induction k)
  case 0
  then show ?case by (simp add: pv_def)
next
  case (Suc k)
  note l = Suc.IH [THEN conjunct1] and p = Suc.IH [THEN conjunct2, THEN conjunct1]
    and e = Suc.IH [THEN conjunct2, THEN conjunct2, THEN conjunct1] and b = Suc.IH [THEN conjunct2, THEN conjunct2, THEN conjunct2]
  have "pv buf (parseline (Suc k) (length buf) :: ('x shstate_scheme, cmd) K) (words_ok buf)"
    unfolding parseline.simps
    by (intro pv_bind [OF p] pv_bind [OF pv_parseamps] pv_bind [OF pv_peek] pv_if pv_bind [OF pv_gettoken] pv_bind [OF l] pv_ret) simp_all
  moreover have "pv buf (parsepipe (Suc k) (length buf) :: ('x shstate_scheme, cmd) K) (words_ok buf)"
    unfolding parsepipe.simps
    by (intro pv_bind [OF e] pv_bind [OF pv_peek] pv_if pv_bind [OF pv_gettoken] pv_bind [OF p] pv_ret) simp_all
  moreover have "pv buf (parseexec (Suc k) (length buf) :: ('x shstate_scheme, cmd) K) (words_ok buf)"
    unfolding parseexec.simps
    by (intro pv_bind [OF pv_peek] pv_if b pv_bind [OF pv_parseredirs] pv_parseargs) simp_all
  moreover have "pv buf (parseblock (Suc k) (length buf) :: ('x shstate_scheme, cmd) K) (words_ok buf)"
    unfolding parseblock.simps
    by (intro pv_bind [OF pv_peek] pv_if pv_panic pv_bind [OF pv_gettoken] pv_bind [OF l] pv_bind [OF pv_parseredirs] pv_ret words_ok_redirs) simp_all
  ultimately show ?case by blast
qed

lemma cut_length: "length (fold (\<lambda>e b. b[e := 0]) es b) = length b"
  by (induction es arbitrary: b) auto

lemma cut_nth: "i < length b \<Longrightarrow> fold (\<lambda>e b. b[e := 0]) es b ! i = (if i \<in> set es then 0 else b ! i :: uchar)"
  by (induction es arbitrary: b) (auto simp: nth_list_update)

lemma word_cut:
  assumes "\<And>e. e \<in> set es \<Longrightarrow> \<exists>q. is_word buf (q, e)" "0 \<notin> set buf" "is_word buf (q, e)" "e \<in> set es"
  shows "str_at (fold (\<lambda>e b. b[e := 0]) es (buf @ [0])) q = take (e - q) (drop q buf)"
proof -
  let ?b = "fold (\<lambda>e b. b[e := 0]) es (buf @ [0])"
  have w: "q < e" "e \<le> length buf" "\<And>i. q \<le> i \<Longrightarrow> i < e \<Longrightarrow> \<not> is_ws (buf ! i) \<and> \<not> is_sym (buf ! i)"
    using assms(3) by (auto simp: is_word_def simp del: not_None_eq)
  have inner: "i \<notin> set es" if "q \<le> i" "i < e" for i
  proof
    assume "i \<in> set es"
    then obtain q' where "is_word buf (q', i)" using assms(1) by blast
    then have "is_ws (buf ! i) \<or> is_sym (buf ! i)" using that w(2) by (simp add: is_word_def del: not_None_eq)
    then show False using w(3) [OF that] by blast
  qed
  have len: "length ?b = Suc (length buf)" by (simp add: cut_length)
  have "take (e - q) (drop q ?b) = take (e - q) (drop q buf)"
  proof (rule nth_equalityI)
    show "length (take (e - q) (drop q ?b)) = length (take (e - q) (drop q buf))" using len w(1,2) by simp
    fix i assume "i < length (take (e - q) (drop q ?b))"
    then have i: "q + i < e" using len w(1,2) by auto
    then show "take (e - q) (drop q ?b) ! i = take (e - q) (drop q buf) ! i"
      using len w(1,2) inner [of "q + i"] cut_nth [of "q + i" "buf @ [0]" es] by (simp add: nth_append)
  qed
  moreover have "drop e ?b = 0 # drop (Suc e) ?b"
    using len w(2) assms(4) cut_nth [of e "buf @ [0]" es] by (metis Cons_nth_drop_Suc le_imp_less_Suc length_append_singleton)
  moreover have "drop q ?b = take (e - q) (drop q ?b) @ drop e ?b"
    using w(1) append_take_drop_id [of "e - q" "drop q ?b"] by (simp add: drop_drop)
  ultimately have "drop q ?b = take (e - q) (drop q buf) @ 0 # drop (Suc e) ?b" by simp
  moreover have "c \<noteq> 0" if "c \<in> set (take (e - q) (drop q buf))" for c using that assms(2) by (metis in_set_dropD in_set_takeD)
  ultimately show ?thesis unfolding str_at_def str_of_def by (simp add: takeWhile_append2)
qed


definition sh_demo :: "cstr \<Rightarrow> shstate" where
  "sh_demo ps = \<lparr>u_env = (\<lambda>_ _. (0, [])), u_hist = [], sh_ps = ps\<rparr>"

lemma sh_demo_simps [simp]: "sh_ps (sh_demo ps) = ps" "sh_demo ps\<lparr>sh_ps := x\<rparr> = sh_demo x"
  by (simp_all add: sh_demo_def)

lemma sh_demo_parse:
  "parsecmd 6 [108, 115] (sh_demo []) = Ok (EXEC [(0, 2)], [108, 115, 0]) (sh_demo [])"
proof -
  have sk: "skip_ws [108, 115] = [108, 115]" "skip_ws [] = []" "token [108, 115] = (97, [])" "token [] = (0, [])"
    by (simp_all add: skip_ws_def token_def whitespace_def symbols_def bytes_of_def)
  have pk: "peek toks (sh_demo []) = Ok False (sh_demo [])" for toks by (simp add: peek_run sk)
  have pl: "peek toks (sh_demo [108, 115]) = Ok False (sh_demo [108, 115])" if "strchr (bytes_of toks) 108 = None" for toks
    using that by (simp add: peek_run sk)
  have b0: "kbind (peek toks) f (sh_demo []) = f False (sh_demo [])" for toks and f :: "bool \<Rightarrow> (shstate, 'a) K" by (rule kbind_Ok) (rule pk)
  have bl: "kbind (peek toks) f (sh_demo [108, 115]) = f False (sh_demo [108, 115])" if "strchr (bytes_of toks) 108 = None" for toks and f :: "bool \<Rightarrow> (shstate, 'a) K"
    by (rule kbind_Ok) (rule pl [OF that])
  have g: "gettoken 2 (sh_demo [108, 115]) = Ok (97, 0, 2) (sh_demo [])" "gettoken 2 (sh_demo []) = Ok (0, 2, 2) (sh_demo [])"
    by (simp_all add: gettoken_run sk)
  have r: "parseredirs (Suc k) 2 [] (sh_demo [108, 115]) = Ok [] (sh_demo [108, 115])" for k by (simp add: bl bytes_of_def)
  have r0: "parseredirs (Suc k) 2 [] (sh_demo []) = Ok [] (sh_demo [])" for k by (simp add: b0)
  have a0: "parseargs (Suc k) j 2 argv [] (sh_demo []) = Ok (EXEC argv) (sh_demo [])" for k j argv by (simp add: b0 g redircmds_def)
  have a: "parseargs (Suc (Suc k)) (Suc j) 2 [] [] (sh_demo [108, 115]) = Ok (EXEC [(0, 2)]) (sh_demo [])" for k j
    unfolding parseargs.simps(2) [of "Suc k"] by (simp add: bl bytes_of_def g r0 a0 del: parseredirs.simps parseargs.simps)
  have e: "parseexec (Suc (Suc (Suc k))) 2 (sh_demo [108, 115]) = Ok (EXEC [(0, 2)]) (sh_demo [])" for k
    unfolding parseexec.simps by (simp add: bl bytes_of_def r a del: parseredirs.simps parseargs.simps)
  have p: "parsepipe (Suc (Suc (Suc (Suc k)))) 2 (sh_demo [108, 115]) = Ok (EXEC [(0, 2)]) (sh_demo [])" for k
    unfolding parsepipe.simps by (simp add: e b0 del: parseexec.simps)
  have am: "parseamps (Suc k) 2 c (sh_demo []) = Ok c (sh_demo [])" for k c by (simp add: b0)
  have "parseline (Suc (Suc (Suc (Suc (Suc k))))) 2 (sh_demo [108, 115]) = Ok (EXEC [(0, 2)]) (sh_demo [])" for k
    unfolding parseline.simps by (simp add: p am b0 del: parsepipe.simps parseamps.simps)
  from this [of 1] have "parseline 6 2 (sh_demo [108, 115]) = Ok (EXEC [(0, 2)]) (sh_demo [])" by (simp only: One_nat_def numeral_eq_Suc pred_numeral_simps Num.arith_simps)
  then show ?thesis unfolding parsecmd_def Let_def kthen_def by (simp add: b0 nulterminate_def numeral_2_eq_2 [symmetric])
qed


end
