(* ===== verification/Xv6_Umalloc.thy ===== *)
theory Xv6_Umalloc
  imports Xv6_User
begin

text \<open>
  umalloc.c: the allocator of Kernighan and Ritchie. Free blocks lie on a circular list in address order, through
  the headers in front of them; a header is two words, the unit in which blocks are measured. User addresses are
  below the kernel's, so pointers are numbers; the sizes that come from the caller wrap at 32 bits. \<open>b0\<close> is the
  address of the static header \<open>base\<close>. The walks round the list have a bound \<open>k\<close> on their steps.
\<close>

record mheap = ustate +
  m_ptr :: "nat \<Rightarrow> nat"
  m_size :: "nat \<Rightarrow> nat"
  m_freep :: nat

section \<open>free\<close>

primrec free_find :: "nat \<Rightarrow> nat \<Rightarrow> nat \<Rightarrow> ('x mheap_scheme, nat) K" where
  "free_find 0 bp p = kspin"
| "free_find (Suc k) bp p = kbind (kgets (\<lambda>s. m_ptr s p)) (\<lambda>n.
     if bp > p \<and> bp < n then kret p
     else if p \<ge> n \<and> (bp > p \<or> bp < n) then kret p
     else free_find k bp n)"

definition free_right :: "nat \<Rightarrow> nat \<Rightarrow> 'x mheap_scheme \<Rightarrow> 'x mheap_scheme" where
  "free_right bp p s = (let n = m_ptr s p in
     if bp + 8 * m_size s bp = n then s\<lparr>m_size := (m_size s)(bp := m_size s bp + m_size s n), m_ptr := (m_ptr s)(bp := m_ptr s n)\<rparr>
     else s\<lparr>m_ptr := (m_ptr s)(bp := n)\<rparr>)"

definition free_left :: "nat \<Rightarrow> nat \<Rightarrow> 'x mheap_scheme \<Rightarrow> 'x mheap_scheme" where
  "free_left bp p s =
     (if p + 8 * m_size s p = bp then s\<lparr>m_size := (m_size s)(p := m_size s p + m_size s bp), m_ptr := (m_ptr s)(p := m_ptr s bp)\<rparr>
      else s\<lparr>m_ptr := (m_ptr s)(p := bp)\<rparr>)"

definition ufree :: "nat \<Rightarrow> nat \<Rightarrow> ('x mheap_scheme, unit) K" where
  "ufree k ap = (let bp = ap - 8 in kbind (kgets m_freep) (\<lambda>f. kbind (free_find k bp f) (\<lambda>p.
     kdo [kmod (free_right bp p), kmod (free_left bp p), kmod (\<lambda>s. s\<lparr>m_freep := p\<rparr>)])))"

section \<open>malloc\<close>

definition morecore :: "nat \<Rightarrow> nat \<Rightarrow> ('x mheap_scheme, nat) K" where
  "morecore k nu = (let nu = (if nu < 4096 then 4096 else nu) in
     kbind (ucall (U_sbrk (cint (of_nat (nu * 8))))) (\<lambda>p.
       if p = - 1 then kret 0
       else let hp = nat p in
         kthen [kmod (\<lambda>s. s\<lparr>m_size := (m_size s)(hp := nu)\<rparr>), ufree k (hp + 8)] (kgets m_freep)))"

definition malloc_take :: "nat \<Rightarrow> nat \<Rightarrow> nat \<Rightarrow> ('x mheap_scheme, nat) K" where
  "malloc_take nunits prevp p = kbind (kgets (\<lambda>s. m_size s p)) (\<lambda>sz.
     if sz = nunits then
       kthen [kmod (\<lambda>s. s\<lparr>m_ptr := (m_ptr s)(prevp := m_ptr s p)\<rparr>), kmod (\<lambda>s. s\<lparr>m_freep := prevp\<rparr>)] (kret (p + 8))
     else let q = p + 8 * (sz - nunits) in
       kthen [kmod (\<lambda>s. s\<lparr>m_size := (m_size s)(p := sz - nunits)\<rparr>), kmod (\<lambda>s. s\<lparr>m_size := (m_size s)(q := nunits)\<rparr>),
              kmod (\<lambda>s. s\<lparr>m_freep := prevp\<rparr>)] (kret (q + 8)))"

primrec malloc_loop :: "nat \<Rightarrow> nat \<Rightarrow> nat \<Rightarrow> nat \<Rightarrow> nat \<Rightarrow> ('x mheap_scheme, nat) K" where
  "malloc_loop 0 j nunits prevp p = kspin"
| "malloc_loop (Suc k) j nunits prevp p = kbind (kgets id) (\<lambda>s.
     if m_size s p \<ge> nunits then malloc_take nunits prevp p
     else if p = m_freep s then
       kbind (morecore j nunits) (\<lambda>p. if p = 0 then kret 0 else kbind (kgets (\<lambda>s. m_ptr s p)) (\<lambda>n. malloc_loop k j nunits p n))
     else malloc_loop k j nunits p (m_ptr s p))"

definition malloc_units :: "nat \<Rightarrow> nat" where
  "malloc_units nbytes = ((nbytes + 8 - 1) mod 2 ^ 32) div 8 + 1"

definition malloc :: "nat \<Rightarrow> nat \<Rightarrow> nat \<Rightarrow> nat \<Rightarrow> ('x mheap_scheme, nat) K" where
  "malloc b0 k j nbytes = (let nunits = malloc_units nbytes in
     kthen [kbind (kgets m_freep) (\<lambda>f. kwhen (f = 0) (kdo [kmod (\<lambda>s. s\<lparr>m_ptr := (m_ptr s)(b0 := b0), m_freep := b0\<rparr>),
              kmod (\<lambda>s. s\<lparr>m_size := (m_size s)(b0 := 0)\<rparr>)]))]
       (kbind (kgets m_freep) (\<lambda>prevp. kbind (kgets (\<lambda>s. m_ptr s prevp)) (\<lambda>p. malloc_loop k j nunits prevp p))))"

section \<open>The free list\<close>

primrec path :: "(nat \<Rightarrow> nat) \<Rightarrow> nat list \<Rightarrow> nat \<Rightarrow> bool" where
  "path f [] x = True"
| "path f (w # ws) x = (f w = hd (ws @ [x]) \<and> path f ws x)"

lemma path_append: "path f (us @ vs) x \<longleftrightarrow> path f us (hd (vs @ [x])) \<and> path f vs x"
  by (induction us) (auto simp: hd_append)

lemma path_upd: "a \<notin> set ws \<Longrightarrow> path (f(a := b)) ws x = path f ws x"
  by (induction ws) auto

definition mring :: "'x mheap_scheme \<Rightarrow> nat list \<Rightarrow> bool" where
  "mring s bs \<longleftrightarrow> bs \<noteq> [] \<and> path (m_ptr s) bs (hd bs) \<and> sorted_wrt (\<lambda>a b. a + 8 * m_size s a < b) bs
     \<and> m_size s (hd bs) = 0 \<and> (\<forall>b\<in>set (tl bs). 0 < m_size s b) \<and> m_freep s \<in> set bs"

definition mfree :: "'x mheap_scheme \<Rightarrow> nat list \<Rightarrow> nat set" where
  "mfree s bs = (\<Union>b\<in>set bs. {b..<b + 8 * m_size s b})"

text \<open>Where the walk of \<open>free\<close> stops.\<close>

definition stops :: "(nat \<Rightarrow> nat) \<Rightarrow> nat \<Rightarrow> nat \<Rightarrow> bool" where
  "stops f bp p \<longleftrightarrow> bp > p \<and> bp < f p \<or> p \<ge> f p \<and> (bp > p \<or> bp < f p)"

lemma free_find_walk:
  "path (m_ptr s) ws x \<Longrightarrow> (\<And>w. w \<in> set ws \<Longrightarrow> \<not> stops (m_ptr s) bp w) \<Longrightarrow>
    free_find (length ws + k) bp (hd (ws @ [x])) s = free_find k bp x s"
proof (induction ws)
  case (Cons w ws)
  have "\<not> stops (m_ptr s) bp w" using Cons.prems(2) by simp
  then have "free_find (length (w # ws) + k) bp w s = free_find (length ws + k) bp (m_ptr s w) s"
    by (auto simp: stops_def)
  then show ?case using Cons by simp
qed simp

lemma free_find_stop: "stops (m_ptr s) bp p \<Longrightarrow> 0 < k \<Longrightarrow> free_find k bp p s = Ok p s"
  by (cases k) (auto simp: stops_def)

lemma sorted_less: "sorted_wrt (\<lambda>a b. a + 8 * m a < b) (us @ q # vs) \<Longrightarrow> a \<in> set us \<Longrightarrow> a < q"
    "sorted_wrt (\<lambda>a b. a + 8 * m a < b) (us @ q # vs) \<Longrightarrow> a \<in> set vs \<Longrightarrow> q < a" for m :: "nat \<Rightarrow> nat"
  by (fastforce simp: sorted_wrt_append)+

lemma walk_stops:
  assumes "mring s bs" "bs = us @ p # vs" "p < bp" "\<And>v. v \<in> set vs \<Longrightarrow> bp < v"
  shows "stops (m_ptr s) bp p" "q \<in> set us \<or> q \<in> set vs \<Longrightarrow> \<not> stops (m_ptr s) bp q"
proof -
  have p: "path (m_ptr s) us p" "m_ptr s p = hd (vs @ [hd bs])" "path (m_ptr s) vs (hd bs)"
    using assms(1,2) by (simp_all add: mring_def path_append)
  have sw: "sorted_wrt (\<lambda>a b. a + 8 * m_size s a < b) (us @ p # vs)" using assms(1,2) by (simp add: mring_def)
  have le: "hd bs \<le> p" using sorted_less(1) [OF sw, of "hd us"] assms(2) by (cases us) auto
  show "stops (m_ptr s) bp p"
    using p(2) le assms(3,4) by (cases vs) (auto simp: stops_def)
  show "\<not> stops (m_ptr s) bp q" if "q \<in> set us \<or> q \<in> set vs"
    using that
  proof
    assume "q \<in> set us"
    then obtain as cs where u: "us = as @ q # cs" by (meson split_list)
    then have n: "m_ptr s q = hd (cs @ [p])" using p(1) by (simp add: path_append)
    then have "m_ptr s q \<in> set (cs @ [p])" by (metis append_is_Nil_conv hd_in_set list.discI)
    moreover have "sorted_wrt (\<lambda>a b. a + 8 * m_size s a < b) (as @ q # (cs @ p # vs))" using sw u by simp
    then have "\<And>c. c \<in> set (cs @ [p]) \<Longrightarrow> q < c" using sorted_less(2) by fastforce
    moreover have "c \<le> p" if "c \<in> set (cs @ [p])" for c using sorted_less(1) [OF sw, of c] that u by auto
    ultimately have "q < m_ptr s q" "m_ptr s q \<le> p" by blast+
    then show ?thesis using assms(3) by (simp add: stops_def)
  next
    assume q: "q \<in> set vs"
    then obtain as cs where v: "vs = as @ q # cs" by (meson split_list)
    then have n: "m_ptr s q = hd (cs @ [hd bs])" using p(3) by (simp add: path_append)
    have "q < m_ptr s q" if "cs \<noteq> []"
    proof -
      have "sorted_wrt (\<lambda>a b. a + 8 * m_size s a < b) ((us @ p # as) @ q # cs)" using sw v by simp
      then show ?thesis using sorted_less(2) that n by (metis hd_append2 hd_in_set)
    qed
    moreover have "m_ptr s q \<le> p" if "cs = []" using n le that by simp
    ultimately show ?thesis using assms(3,4) q by (fastforce simp: stops_def)
  qed
qed

lemma free_find_correct:
  assumes "mring s bs" "bs = us @ p # vs" "p < bp" "\<And>v. v \<in> set vs \<Longrightarrow> bp < v" "length bs \<le> k"
  shows "free_find k bp (m_freep s) s = Ok p s"
proof -
  have p: "path (m_ptr s) us p" "path (m_ptr s) vs (hd bs)" using assms(1,2) by (simp_all add: mring_def path_append)
  note st = walk_stops [OF assms(1-4)]
  have run: "free_find k bp (hd (ws @ [p])) s = Ok p s" if w: "path (m_ptr s) ws p" "set ws \<subseteq> set us \<union> set vs" "length ws < k" for ws
  proof -
    have "free_find (length ws + (k - length ws)) bp (hd (ws @ [p])) s = free_find (k - length ws) bp p s"
      by (rule free_find_walk [OF w(1)]) (use w(2) st(2) in blast)
    then show ?thesis using free_find_stop [OF st(1), of "k - length ws"] w(3) by simp
  qed
  have "m_freep s \<in> set (us @ [p]) \<or> m_freep s \<in> set vs" using assms(1,2) by (auto simp: mring_def)
  then show ?thesis
  proof
    assume "m_freep s \<in> set (us @ [p])"
    then consider "m_freep s = p" | as cs where "us = as @ m_freep s # cs" using split_list by (cases "m_freep s = p") fastforce+
    then show ?thesis
    proof cases
      case 1
      then show ?thesis using run [of "[]"] assms(2,5) by simp
    next
      case (2 as cs)
      have "path (m_ptr s) (as @ (m_freep s # cs)) p" using p(1) 2 by metis
      then have "path (m_ptr s) (m_freep s # cs) p" by (simp only: path_append)
      moreover have "set (m_freep s # cs) \<subseteq> set us \<union> set vs" using arg_cong [OF 2, of set] by auto
      moreover have "length (m_freep s # cs) < k" using arg_cong [OF 2, of length] assms(2,5) by simp
      ultimately show ?thesis using run [of "m_freep s # cs"] by simp
    qed
  next
    assume "m_freep s \<in> set vs"
    then obtain as cs where v: "vs = as @ m_freep s # cs" by (meson split_list)
    have "path (m_ptr s) (as @ (m_freep s # cs)) (hd bs)" using p(2) v by metis
    then have "path (m_ptr s) (m_freep s # cs) (hd bs)" by (simp only: path_append)
    moreover have "hd bs = hd (us @ [p])" using assms(2) by (cases us) auto
    ultimately have "path (m_ptr s) ((m_freep s # cs) @ us) p" using p(1) unfolding path_append by simp
    moreover have "set ((m_freep s # cs) @ us) \<subseteq> set us \<union> set vs" using arg_cong [OF v, of set] by auto
    moreover have "length ((m_freep s # cs) @ us) < k" using arg_cong [OF v, of length] assms(2,5) by simp
    ultimately show ?thesis using run [of "(m_freep s # cs) @ us"] by simp
  qed
qed

subsection \<open>Putting a block back\<close>

text \<open>A list of free blocks and one more block \<open>bp\<close> that goes between \<open>p\<close> and what follows.\<close>

definition between :: "'x mheap_scheme \<Rightarrow> nat list \<Rightarrow> nat \<Rightarrow> nat \<Rightarrow> nat list \<Rightarrow> bool" where
  "between s us p bp vs \<longleftrightarrow> mring s (us @ p # vs) \<and> 0 < m_size s bp \<and> p < bp \<and> p + 8 * m_size s p \<le> bp
     \<and> (\<forall>v\<in>set vs. bp + 8 * m_size s bp \<le> v)"

lemma mfree_append [simp]: "mfree s (us @ vs) = mfree s us \<union> mfree s vs"
  by (auto simp: mfree_def)

lemma mfree_Cons [simp]: "mfree s (b # bs) = {b..<b + 8 * m_size s b} \<union> mfree s bs" "mfree s [] = {}"
  by (auto simp: mfree_def)

lemma mfree_cong: "(\<And>b. b \<in> set bs \<Longrightarrow> m_size t b = m_size s b) \<Longrightarrow> mfree t bs = mfree s bs"
  by (simp add: mfree_def)

lemma intervals_apart:
  fixes b bp :: nat
  assumes "{bp..<bp + 8 * m} \<inter> {b..<b + 8 * n} = {}" "0 < m" "b < bp \<or> 0 < n"
  shows "b + 8 * n \<le> bp \<or> bp + 8 * m \<le> b"
proof (rule ccontr)
  assume "\<not> ?thesis"
  then have "bp \<in> {bp..<bp + 8 * m} \<inter> {b..<b + 8 * n} \<or> b \<in> {bp..<bp + 8 * m} \<inter> {b..<b + 8 * n}" using assms(2,3) by auto
  then show False using assms(1) by blast
qed

lemma mring_split:
  assumes "mring s bs" "0 < m_size s bp" "hd bs < bp" "{bp..<bp + 8 * m_size s bp} \<inter> mfree s bs = {}"
  shows "\<exists>us p vs. bs = us @ p # vs \<and> between s us p bp vs"
proof -
  have m: "bs \<noteq> []" "sorted_wrt (\<lambda>a b. a + 8 * m_size s a < b) bs" "\<And>b. b \<in> set (tl bs) \<Longrightarrow> 0 < m_size s b" using assms(1) by (auto simp: mring_def)
  let ?us = "takeWhile (\<lambda>b. b < bp) bs" and ?vs = "dropWhile (\<lambda>b. b < bp) bs"
  have ne: "?us \<noteq> []" using m(1) assms(3) by (cases bs) auto
  then obtain us p where u: "?us = us @ [p]" by (metis rev_exhaust)
  have bs: "bs = us @ p # ?vs" using takeWhile_dropWhile_id [of "\<lambda>b. b < bp" bs] u by simp
  have p: "p < bp" using u set_takeWhileD [of p "\<lambda>b. b < bp" bs] by simp
  have apart: "b + 8 * m_size s b \<le> bp \<or> bp + 8 * m_size s bp \<le> b" if b: "b \<in> set bs" for b
  proof -
    have "{b..<b + 8 * m_size s b} \<subseteq> mfree s bs" using b by (auto simp: mfree_def)
    then have i: "{bp..<bp + 8 * m_size s bp} \<inter> {b..<b + 8 * m_size s b} = {}" using assms(4) by blast
    have "b < bp \<or> 0 < m_size s b" using m(1) m(3) [of b] b assms(3) by (cases bs) auto
    then show ?thesis by (rule intervals_apart [OF i assms(2)])
  qed
  have "p \<in> set bs" by (subst bs) simp
  then have "p + 8 * m_size s p \<le> bp" using apart [of p] p by linarith
  moreover have "bp + 8 * m_size s bp \<le> v" if v: "v \<in> set ?vs" for v
  proof -
    obtain w ws where w: "?vs = w # ws" using v by (cases ?vs) auto
    then have "\<not> w < bp" using hd_dropWhile [of "\<lambda>b. b < bp" bs] by simp
    moreover have "sorted_wrt (\<lambda>a b. a + 8 * m_size s a < b) ((us @ [p]) @ w # ws)" using m(2) bs w by simp
    then have "w < x" if "x \<in> set ws" for x using sorted_less(2) that by blast
    then have "w \<le> v" using v w by (auto intro: less_imp_le)
    ultimately have "\<not> v < bp" by simp
    moreover have "v \<in> set bs" by (rule set_dropWhileD [OF v])
    moreover have "v \<noteq> bp" using apart [OF \<open>v \<in> set bs\<close>] assms(2) by auto
    ultimately show ?thesis using apart [of v] by auto
  qed
  ultimately have "between s us p bp ?vs" using assms(1,2) bs p by (metis between_def)
  then show ?thesis using bs by blast
qed

text \<open>After the first half of \<open>free\<close> the block \<open>bp\<close> leads on to the rest of the list.\<close>

definition joined :: "'x mheap_scheme \<Rightarrow> nat list \<Rightarrow> nat \<Rightarrow> nat \<Rightarrow> nat list \<Rightarrow> bool" where
  "joined s us p bp vs \<longleftrightarrow> path (m_ptr s) us p \<and> path (m_ptr s) (bp # vs) (hd (us @ [p]))
     \<and> sorted_wrt (\<lambda>a b. a + 8 * m_size s a < b) (us @ [p]) \<and> sorted_wrt (\<lambda>a b. a + 8 * m_size s a < b) (us @ bp # vs)
     \<and> p + 8 * m_size s p \<le> bp \<and> p < bp
     \<and> m_size s (hd (us @ [p])) = 0 \<and> (\<forall>b\<in>set (tl (us @ [p]) @ bp # vs). 0 < m_size s b)"

lemma sorted_size_cong:
  "(\<And>a. a \<in> set us \<Longrightarrow> m' a = m a) \<Longrightarrow> sorted_wrt (\<lambda>a b. a + 8 * m' a < b) us = sorted_wrt (\<lambda>a b. a + 8 * m a < b) us" for m m' :: "nat \<Rightarrow> nat"
  by (induction us) auto

lemma free_right_joined:
  assumes "between s us p bp vs"
  shows "\<exists>vs'. joined (free_right bp p s) us p bp vs' \<and> length vs' \<le> length vs
    \<and> mfree (free_right bp p s) (us @ p # bp # vs') = mfree s (us @ p # vs) \<union> {bp..<bp + 8 * m_size s bp}"
proof -
  let ?h = "hd (us @ [p])" and ?R = "\<lambda>a b. a + 8 * m_size s a < b"
  have h: "hd (us @ p # vs) = ?h" by (cases us) auto
  have m: "path (m_ptr s) us p" "m_ptr s p = hd (vs @ [?h])" "path (m_ptr s) vs ?h" "sorted_wrt ?R (us @ p # vs)" "m_size s ?h = 0"
    "\<And>b. b \<in> set (tl (us @ [p]) @ vs) \<Longrightarrow> 0 < m_size s b" "0 < m_size s bp" "p < bp" "p + 8 * m_size s p \<le> bp" "\<And>v. v \<in> set vs \<Longrightarrow> bp + 8 * m_size s bp \<le> v"
    using assms h by (auto simp: between_def mring_def path_append tl_append split: list.splits)
  have lt: "a < p" if "a \<in> set us" for a using sorted_less(1) [OF m(4) that] .
  have up: "a + 8 * m_size s a < bp" if "a \<in> set us" for a using m(4,8) that by (fastforce simp: sorted_wrt_append)
  have new: "bp \<notin> set us" "bp \<noteq> p" "bp \<notin> set vs" using lt m(7,8) m(10) [of bp] by fastforce+
  have hb: "?h < bp" using lt m(8) by (cases us) fastforce+
  have hn: "?h \<noteq> bp" using hb by simp
  show ?thesis
  proof (cases "bp + 8 * m_size s bp = m_ptr s p")
    case True
    then have "vs \<noteq> []" using m(2) hb by auto
    then obtain v ws where v: "vs = v # ws" by (cases vs) auto
    then have vv: "v = bp + 8 * m_size s bp" using True m(2) by simp
    let ?t = "free_right bp p s"
    have t: "m_size ?t = (m_size s)(bp := m_size s bp + m_size s v)" "m_ptr ?t = (m_ptr s)(bp := m_ptr s v)"
      using True v m(2) by (simp_all add: free_right_def Let_def)
    have vw: "v + 8 * m_size s v < w" if "w \<in> set ws" for w using m(4) v that by (simp add: sorted_wrt_append)
    have "joined ?t us p bp ws"
      unfolding joined_def
    proof (intro conjI)
      show "path (m_ptr ?t) us p" using m(1) new(1) t(2) by (simp add: path_upd)
      show "path (m_ptr ?t) (bp # ws) ?h" using m(3) new(3) v t(2) by (simp add: path_upd)
      show "sorted_wrt (\<lambda>a b. a + 8 * m_size ?t a < b) (us @ [p])"
        by (subst sorted_size_cong [of _ _ "m_size s"]) (use m(4) new t(1) in \<open>auto simp: sorted_wrt_append\<close>)
      have "sorted_wrt (\<lambda>a b. a + 8 * m_size ?t a < b) us"
        by (subst sorted_size_cong [of _ _ "m_size s"]) (use m(4) new t(1) in \<open>auto simp: sorted_wrt_append\<close>)
      moreover have "sorted_wrt (\<lambda>a b. a + 8 * m_size ?t a < b) ws"
        by (subst sorted_size_cong [of _ _ "m_size s"]) (use m(4) new v t(1) in \<open>auto simp: sorted_wrt_append\<close>)
      moreover have "a + 8 * m_size ?t a < w" if "a \<in> set us" "w \<in> set ws" for a w
        using m(4) v that new(1) t(1) by (auto simp: sorted_wrt_append)
      moreover have "bp + 8 * m_size ?t bp < w" if "w \<in> set ws" for w using vw [OF that] vv t(1) by simp
      moreover have "a + 8 * m_size ?t a < bp" if "a \<in> set us" for a using up [OF that] that new(1) t(1) by auto
      ultimately show "sorted_wrt (\<lambda>a b. a + 8 * m_size ?t a < b) (us @ bp # ws)" by (simp add: sorted_wrt_append)
      show "p + 8 * m_size ?t p \<le> bp" "p < bp" "m_size ?t ?h = 0" using m(5,8,9) new(2) hn t(1) by simp_all
      show "\<forall>b\<in>set (tl (us @ [p]) @ bp # ws). 0 < m_size ?t b" using m(6,7) v t(1) by auto
    qed
    moreover have "mfree ?t us = mfree s us" "mfree ?t ws = mfree s ws" "{p..<p + 8 * m_size ?t p} = {p..<p + 8 * m_size s p}"
      using new v t(1) by (auto intro!: mfree_cong)
    then have "mfree ?t (us @ p # bp # ws) = mfree s (us @ p # vs) \<union> {bp..<bp + 8 * m_size s bp}"
      using v vv t(1) by auto
    ultimately show ?thesis using v by (intro exI [of _ ws]) simp
  next
    case False
    let ?t = "free_right bp p s"
    have t: "m_size ?t = m_size s" "m_ptr ?t = (m_ptr s)(bp := m_ptr s p)" using False by (simp_all add: free_right_def Let_def)
    have vw: "bp + 8 * m_size s bp < w" if w: "w \<in> set vs" for w
    proof -
      obtain v ws where v: "vs = v # ws" using w by (cases vs) auto
      have "bp + 8 * m_size s bp < v" using False m(2) m(10) [of v] v by simp
      moreover have "v \<le> w" using sorted_less(2) [of "m_size s" "us @ [p]" v ws w] m(4) v w by auto
      ultimately show ?thesis by simp
    qed
    have "joined ?t us p bp vs"
      unfolding joined_def t(1)
    proof (intro conjI)
      show "path (m_ptr ?t) us p" using m(1) new(1) t(2) by (simp add: path_upd)
      show "path (m_ptr ?t) (bp # vs) ?h" using m(2,3) new(3) t(2) by (simp add: path_upd)
      show "sorted_wrt ?R (us @ [p])" using m(4) by (simp add: sorted_wrt_append)
      show "sorted_wrt ?R (us @ bp # vs)" using m(4) vw up by (simp add: sorted_wrt_append)
      show "\<forall>b\<in>set (tl (us @ [p]) @ bp # vs). 0 < m_size s b" using m(6,7) by auto
    qed (use m in simp_all)
    moreover have "mfree ?t (us @ p # bp # vs) = mfree s (us @ p # vs) \<union> {bp..<bp + 8 * m_size s bp}"
      using t(1) by (auto simp: mfree_def)
    ultimately show ?thesis by (intro exI [of _ vs]) simp
  qed
qed

lemma free_left_ring:
  assumes "joined s us p bp vs"
  shows "\<exists>bs. mring ((free_left bp p s)\<lparr>m_freep := p\<rparr>) bs \<and> hd bs = hd (us @ [p]) \<and> length bs \<le> length (us @ p # bp # vs)
    \<and> mfree ((free_left bp p s)\<lparr>m_freep := p\<rparr>) bs = mfree s (us @ p # bp # vs)"
proof -
  let ?h = "hd (us @ [p])" and ?R = "\<lambda>a b. a + 8 * m_size s a < b"
  let ?t = "(free_left bp p s)\<lparr>m_freep := p\<rparr>"
  have j: "path (m_ptr s) us p" "m_ptr s bp = hd (vs @ [?h])" "path (m_ptr s) vs ?h" "sorted_wrt ?R (us @ [p])" "sorted_wrt ?R (us @ bp # vs)"
    "p + 8 * m_size s p \<le> bp" "p < bp" "m_size s ?h = 0" "\<And>b. b \<in> set (tl (us @ [p]) @ bp # vs) \<Longrightarrow> 0 < m_size s b"
    using assms by (auto simp: joined_def)
  have lt: "a < p" if "a \<in> set us" for a using sorted_less(1) [of "m_size s" us p "[]"] j(4) that by simp
  have gt: "bp + 8 * m_size s bp < v" if "v \<in> set vs" for v using j(5) that by (simp add: sorted_wrt_append)
  have new: "p \<notin> set us" "p \<notin> set vs" "bp \<notin> set us" "bp \<notin> set vs" using lt gt j(7) by fastforce+
  have hd: "hd (us @ p # ws) = ?h" for ws by (cases us) auto
  have tl: "set (tl (us @ p # ws)) = set (tl (us @ [p])) \<union> set ws" for ws by (cases us) auto
  show ?thesis
  proof (cases "p + 8 * m_size s p = bp")
    case True
    have t: "m_size ?t = (m_size s)(p := m_size s p + m_size s bp)" "m_ptr ?t = (m_ptr s)(p := m_ptr s bp)" "m_freep ?t = p"
      using True by (simp_all add: free_left_def)
    have ph: "p \<noteq> ?h"
    proof
      assume "p = ?h"
      then have "m_size s p = 0" using j(8) by metis
      then show False using True j(7) by simp
    qed
    have "mring ?t (us @ p # vs)"
      unfolding mring_def hd [of vs]
    proof (intro conjI)
      show "path (m_ptr ?t) (us @ p # vs) ?h" using j(1-3) new t(2) by (simp add: path_append path_upd)
      have "sorted_wrt (\<lambda>a b. a + 8 * m_size ?t a < b) us"
        by (subst sorted_size_cong [of _ _ "m_size s"]) (use j(4) new t(1) in \<open>auto simp: sorted_wrt_append\<close>)
      moreover have "sorted_wrt (\<lambda>a b. a + 8 * m_size ?t a < b) vs"
        by (subst sorted_size_cong [of _ _ "m_size s"]) (use j(5) new t(1) in \<open>auto simp: sorted_wrt_append\<close>)
      moreover have "a + 8 * m_size ?t a < b" if "a \<in> set us" "b = p \<or> b \<in> set vs" for a b
        using j(4,5) that new(1) t(1) by (auto simp: sorted_wrt_append)
      moreover have "p + 8 * m_size ?t p < b" if "b \<in> set vs" for b using gt [OF that] True t(1) by simp
      ultimately show "sorted_wrt (\<lambda>a b. a + 8 * m_size ?t a < b) (us @ p # vs)" by (simp add: sorted_wrt_append)
      show "m_size ?t ?h = 0" using j(8) ph t(1) by simp
      show "\<forall>b\<in>set (tl (us @ p # vs)). 0 < m_size ?t b" unfolding tl [of vs] using j(9) t(1) by auto
      show "m_freep ?t \<in> set (us @ p # vs)" using t(3) by simp
    qed simp
    moreover have "mfree ?t us = mfree s us" "mfree ?t vs = mfree s vs" using new t(1) by (auto intro!: mfree_cong)
    then have "mfree ?t (us @ p # vs) = mfree s (us @ p # bp # vs)" using True t(1) by auto
    ultimately show ?thesis using hd [of vs] by (intro exI [of _ "us @ p # vs"]) simp
  next
    case False
    have t: "m_size ?t = m_size s" "m_ptr ?t = (m_ptr s)(p := bp)" "m_freep ?t = p" using False by (simp_all add: free_left_def)
    have pb: "p + 8 * m_size s p < bp" using False j(6) by simp
    have "mring ?t (us @ p # bp # vs)"
      unfolding mring_def hd [of "bp # vs"] t(1)
    proof (intro conjI)
      show "path (m_ptr ?t) (us @ p # bp # vs) ?h" using j(1-3,7) new t(2) by (simp add: path_append path_upd)
      show "sorted_wrt ?R (us @ p # bp # vs)" using j(4,5) pb gt by (fastforce simp: sorted_wrt_append)
      show "m_size s ?h = 0" by (rule j(8))
      show "\<forall>b\<in>set (tl (us @ p # bp # vs)). 0 < m_size s b" unfolding tl [of "bp # vs"] using j(9) by auto
      show "m_freep ?t \<in> set (us @ p # bp # vs)" using t(3) by simp
    qed simp
    moreover have "mfree ?t (us @ p # bp # vs) = mfree s (us @ p # bp # vs)" using t(1) by (simp add: mfree_def)
    ultimately show ?thesis using hd [of "bp # vs"] by (intro exI [of _ "us @ p # bp # vs"]) simp
  qed
qed

lemma free_keeps: "u_env (free_left bp p s) = u_env s" "u_hist (free_left bp p s) = u_hist s" "u_env (free_right bp p s) = u_env s" "u_hist (free_right bp p s) = u_hist s"
  "x \<noteq> p \<Longrightarrow> m_size (free_left bp p s) x = m_size s x" "x \<noteq> bp \<Longrightarrow> m_size (free_right bp p s) x = m_size s x"
  by (simp_all add: free_left_def free_right_def Let_def)

lemma ufree_ring:
  assumes "mring s bs" "0 < m_size s bp" "hd bs < bp" "{bp..<bp + 8 * m_size s bp} \<inter> mfree s bs = {}" "length bs \<le> k"
  shows "\<exists>t cs. ufree k (bp + 8) s = Ok () t \<and> mring t cs \<and> hd cs = hd bs \<and> length cs \<le> Suc (length bs) \<and> mfree t cs = mfree s bs \<union> {bp..<bp + 8 * m_size s bp}
    \<and> u_env t = u_env s \<and> u_hist t = u_hist s \<and> (\<forall>x. x \<notin> set bs \<and> x \<noteq> bp \<longrightarrow> m_size t x = m_size s x)"
proof -
  obtain us p vs where b: "bs = us @ p # vs" "between s us p bp vs" using mring_split [OF assms(1-4)] by blast
  have "bp < v" if "v \<in> set vs" for v using b(2) that by (fastforce simp: between_def)
  then have f: "free_find k bp (m_freep s) s = Ok p s"
    using free_find_correct [OF assms(1) b(1), of bp k] b(2) assms(5) by (simp add: between_def)
  let ?r = "free_right bp p s"
  let ?t = "(free_left bp p ?r)\<lparr>m_freep := p\<rparr>"
  have run: "ufree k (bp + 8) s = Ok () ?t" using f by (simp add: ufree_def)
  obtain ws where w: "joined ?r us p bp ws" "length ws \<le> length vs" "mfree ?r (us @ p # bp # ws) = mfree s (us @ p # vs) \<union> {bp..<bp + 8 * m_size s bp}"
    using free_right_joined [OF b(2)] by blast
  obtain cs where c: "mring ?t cs" "hd cs = hd (us @ [p])" "length cs \<le> length (us @ p # bp # ws)" "mfree ?t cs = mfree ?r (us @ p # bp # ws)" using free_left_ring [OF w(1)] by blast
  have "hd cs = hd bs" using c(2) b(1) by (cases us) auto
  moreover have "mfree ?t cs = mfree s bs \<union> {bp..<bp + 8 * m_size s bp}" using c(4) w(3) b(1) by simp
  moreover have "length cs \<le> Suc (length bs)" using c(3) w(2) b(1) by simp
  moreover have "m_size ?t x = m_size s x" if "x \<notin> set bs" "x \<noteq> bp" for x using that b(1) by (simp add: free_keeps)
  ultimately show ?thesis using run c(1) by (intro exI [of _ ?t] exI [of _ cs]) (simp add: free_keeps)
qed

subsection \<open>Taking a block\<close>

lemma sorted_apart:
  fixes m :: "nat \<Rightarrow> nat"
  assumes "sorted_wrt (\<lambda>a b. a + 8 * m a < b) bs" "a \<in> set bs" "b \<in> set bs" "a \<noteq> b"
  shows "a + 8 * m a < b \<or> b + 8 * m b < a"
  using assms by (induction bs) auto

lemma sorted_distinct: "sorted_wrt (\<lambda>a b. a + 8 * m a < b) bs \<Longrightarrow> distinct bs" for m :: "nat \<Rightarrow> nat"
  by (induction bs) auto

lemma fit_of_region:
  assumes "sorted_wrt (\<lambda>a b. a + 8 * m_size s a < b) bs" "{x..<x + 8 * n} \<subseteq> mfree s bs" "0 < n"
  shows "\<exists>b\<in>set bs. n \<le> m_size s b"
proof -
  have "x \<in> mfree s bs" using assms(2,3) by auto
  then obtain b where b: "b \<in> set bs" "b \<le> x" "x < b + 8 * m_size s b" by (auto simp: mfree_def)
  have "x + 8 * n \<le> b + 8 * m_size s b"
  proof (rule ccontr)
    assume "\<not> ?thesis"
    then have "b + 8 * m_size s b \<in> mfree s bs" using assms(2) b(3) by (auto simp: subset_eq)
    then obtain c where c: "c \<in> set bs" "c \<le> b + 8 * m_size s b" "b + 8 * m_size s b < c + 8 * m_size s c" by (auto simp: mfree_def)
    then have "c \<noteq> b" by auto
    then show False using sorted_apart [OF assms(1) c(1) b(1)] c by auto
  qed
  then show ?thesis using b by (intro bexI [of _ b]) simp_all
qed

text \<open>What \<open>malloc\<close> gives: a block of \<open>n\<close> units out of the bytes \<open>G\<close>, which keeps the rest.\<close>

definition took :: "nat \<Rightarrow> nat \<Rightarrow> nat set \<Rightarrow> nat \<Rightarrow> 'x mheap_scheme \<Rightarrow> bool" where
  "took n h G ap t \<longleftrightarrow> (\<exists>cs q. ap = q + 8 \<and> mring t cs \<and> hd cs = h \<and> m_size t q = n
     \<and> {q..<q + 8 * n} \<subseteq> G \<and> mfree t cs = G - {q..<q + 8 * n})"

lemma malloc_take_exact:
  assumes "mring s (us @ a # p # vs)" "m_size s p = n"
  shows "\<exists>t. malloc_take n a p s = Ok (p + 8) t \<and> took n (hd (us @ [a])) (mfree s (us @ a # p # vs)) (p + 8) t"
proof -
  let ?bs = "us @ a # p # vs" and ?cs = "us @ a # vs" and ?h = "hd (us @ [a])"
  let ?t = "s\<lparr>m_ptr := (m_ptr s)(a := m_ptr s p), m_freep := a\<rparr>"
  have hd: "hd ?bs = ?h" "hd ?cs = ?h" by (cases us; simp)+
  have m: "path (m_ptr s) us a" "m_ptr s p = hd (vs @ [?h])" "path (m_ptr s) vs ?h" "sorted_wrt (\<lambda>a b. a + 8 * m_size s a < b) ?bs"
    "m_size s ?h = 0" "\<And>b. b \<in> set (tl ?bs) \<Longrightarrow> 0 < m_size s b"
    using assms(1) hd(1) by (auto simp: mring_def path_append)
  have d: "distinct ?bs" by (rule sorted_distinct [OF m(4)])
  have "mring ?t ?cs"
    unfolding mring_def hd
  proof (intro conjI)
    show "path (m_ptr ?t) ?cs ?h" using m(1-3) d by (simp add: path_append path_upd)
    show "sorted_wrt (\<lambda>a b. a + 8 * m_size ?t a < b) ?cs" using m(4) by (simp add: sorted_wrt_append)
    show "\<forall>b\<in>set (tl ?cs). 0 < m_size ?t b" using m(6) by (cases us) auto
  qed (use m(5) in simp_all)
  moreover have "mfree ?t ?cs = mfree s ?bs - {p..<p + 8 * n}"
  proof -
    have "{b..<b + 8 * m_size s b} \<inter> {p..<p + 8 * n} = {}" if "b \<in> set ?cs" for b
    proof -
      have "b \<in> set ?bs" "b \<noteq> p" using that d by auto
      then show ?thesis using sorted_apart [OF m(4), of b p] assms(2) by auto
    qed
    then have "mfree s ?cs \<inter> {p..<p + 8 * n} = {}" by (fastforce simp only: mfree_def)
    moreover have "mfree s ?bs = mfree s ?cs \<union> {p..<p + 8 * n}" using assms(2) by auto
    moreover have "mfree ?t ?cs = mfree s ?cs" by (simp add: mfree_def)
    ultimately show ?thesis by blast
  qed
  moreover have "{p..<p + 8 * n} \<subseteq> mfree s ?bs" using assms(2) by auto
  moreover have "malloc_take n a p s = Ok (p + 8) ?t" using assms(2) by (simp add: malloc_take_def kthen_def)
  ultimately show ?thesis unfolding took_def using hd(2) assms(2) by (intro exI [of _ ?t] conjI exI [of _ ?cs] exI [of _ p]) simp_all
qed

lemma malloc_take_split:
  assumes "mring s bs" "p \<in> set bs" "a \<in> set bs" "0 < n" "n < m_size s p"
  shows "\<exists>ap t. malloc_take n a p s = Ok ap t \<and> took n (hd bs) (mfree s bs) ap t"
proof -
  let ?r = "m_size s p - n"
  let ?q = "p + 8 * ?r"
  let ?t = "s\<lparr>m_size := (m_size s)(p := ?r, ?q := n), m_freep := a\<rparr>"
  have m: "bs \<noteq> []" "path (m_ptr s) bs (hd bs)" "sorted_wrt (\<lambda>a b. a + 8 * m_size s a < b) bs" "m_size s (hd bs) = 0" "\<And>b. b \<in> set (tl bs) \<Longrightarrow> 0 < m_size s b"
    using assms(1) by (auto simp: mring_def)
  have q: "?q \<noteq> b" if "b \<in> set bs" for b using sorted_apart [OF m(3) that assms(2)] assms(4,5) by (cases "b = p") auto
  have sz: "m_size ?t b = (if b = p then ?r else m_size s b)" if "b \<in> set bs" for b using q [OF that] by auto
  have "mring ?t bs"
    unfolding mring_def
  proof (intro conjI)
    show "bs \<noteq> []" "path (m_ptr ?t) bs (hd bs)" "m_freep ?t \<in> set bs" using m assms(3) by simp_all
    show "sorted_wrt (\<lambda>a b. a + 8 * m_size ?t a < b) bs"
      by (rule sorted_wrt_mono_rel [OF _ m(3)]) (use sz in \<open>auto split: if_splits\<close>)
    have "hd bs \<noteq> p" using m(4) assms(5) by auto
    then show "m_size ?t (hd bs) = 0" using sz [of "hd bs"] m(1,4) by simp
    show "\<forall>b\<in>set (tl bs). 0 < m_size ?t b" using m(1,5) assms(4,5) by (auto dest: list.set_sel(2))
  qed
  moreover have "mfree ?t bs = mfree s bs - {?q..<?q + 8 * n}" "{?q..<?q + 8 * n} \<subseteq> mfree s bs"
  proof -
    have e: "?q + 8 * n = p + 8 * m_size s p" using assms(5) by simp
    show "{?q..<?q + 8 * n} \<subseteq> mfree s bs" unfolding e mfree_def by (rule subsetI, rule UN_I [OF assms(2)]) simp
    have b: "{b..<b + 8 * m_size ?t b} = {b..<b + 8 * m_size s b} - {?q..<?q + 8 * n}" if "b \<in> set bs" for b
    proof (cases "b = p")
      case True
      then show ?thesis unfolding e using sz [OF that] by auto
    next
      case False
      then show ?thesis unfolding e using sz [OF that] sorted_apart [OF m(3) that assms(2) False] by auto
    qed
    have "mfree ?t bs = (\<Union>b\<in>set bs. {b..<b + 8 * m_size s b} - {?q..<?q + 8 * n})" unfolding mfree_def by (rule SUP_cong [OF refl b])
    then show "mfree ?t bs = mfree s bs - {?q..<?q + 8 * n}" unfolding mfree_def by blast
  qed
  moreover have "malloc_take n a p s = Ok (?q + 8) ?t" using assms(5) by (simp add: malloc_take_def kthen_def Let_def)
  ultimately show ?thesis unfolding took_def by (intro exI [of _ "?q + 8"] exI [of _ ?t] conjI exI [of _ bs] exI [of _ ?q]) simp_all
qed

lemma malloc_take_ring:
  assumes "mring s bs" "p \<in> set bs" "a \<in> set bs" "m_ptr s a = p" "0 < n" "n \<le> m_size s p"
  shows "\<exists>ap t. malloc_take n a p s = Ok ap t \<and> took n (hd bs) (mfree s bs) ap t"
proof (cases "m_size s p = n")
  case False
  then show ?thesis using malloc_take_split [OF assms(1-3,5)] assms(6) by simp
next
  case True
  have p: "p \<noteq> hd bs" using assms(1,5,6) by (auto simp: mring_def)
  obtain us ys where a: "bs = us @ a # ys" using assms(3) by (meson split_list)
  have "m_ptr s a = hd (ys @ [hd bs])" using assms(1) a by (simp add: mring_def path_append)
  then obtain vs where "ys = p # vs" using p assms(4) by (cases ys) auto
  then have b: "bs = us @ a # p # vs" using a by simp
  moreover have "hd bs = hd (us @ [a])" using a by (cases us) auto
  ultimately show ?thesis using malloc_take_exact [OF assms(1) [unfolded b] True] by auto
qed

subsection \<open>The search\<close>

lemma malloc_scan:
  "path (m_ptr s) (a # ws) x \<Longrightarrow> (\<And>w. w \<in> set ws \<Longrightarrow> m_size s w < n \<and> w \<noteq> m_freep s) \<Longrightarrow>
    malloc_loop (length ws + k) j n a (hd (ws @ [x])) s = malloc_loop k j n (last (a # ws)) x s"
proof (induction ws arbitrary: a)
  case (Cons w ws)
  have w: "m_size s w < n" "w \<noteq> m_freep s" using Cons.prems(2) by simp_all
  have "malloc_loop (length (w # ws) + k) j n a w s = malloc_loop (length ws + k) j n w (m_ptr s w) s" using w by simp
  then show ?case using Cons by simp
qed simp

lemma ring_from: "mring s bs \<Longrightarrow> bs = us @ m_freep s # vs \<Longrightarrow> path (m_ptr s) (m_freep s # vs @ us) (m_freep s)"
proof -
  assume a: "mring s bs" "bs = us @ m_freep s # vs"
  have "path (m_ptr s) us (m_freep s)" "path (m_ptr s) (m_freep s # vs) (hd bs)"
    using a(1) by (simp_all add: mring_def a(2) path_append)
  moreover have "hd bs = hd (us @ [m_freep s])" by (subst a(2)) (cases us; simp)
  ultimately have "path (m_ptr s) ((m_freep s # vs) @ us) (m_freep s)" unfolding path_append by simp
  then show ?thesis by simp
qed

lemma path_step: "path f (ws @ [x]) y \<Longrightarrow> f x = y"
  by (induction ws) auto

lemma malloc_fits:
  assumes "mring s bs" "\<exists>b\<in>set bs. n \<le> m_size s b" "0 < n" "length bs \<le> k"
  shows "\<exists>ap t. malloc_loop k j n (m_freep s) (m_ptr s (m_freep s)) s = Ok ap t \<and> took n (hd bs) (mfree s bs) ap t"
proof -
  let ?f = "m_freep s"
  obtain us vs where b: "bs = us @ ?f # vs" using assms(1) by (metis mring_def split_list)
  have ring: "path (m_ptr s) (?f # vs @ us) ?f" by (rule ring_from [OF assms(1) b])
  have st: "set bs = set (vs @ us @ [?f])" "length bs = length (vs @ us @ [?f])" using arg_cong [OF b, of set] arg_cong [OF b, of length] by auto
  have "\<exists>w\<in>set (vs @ us @ [?f]). n \<le> m_size s w" using assms(2) st(1) by simp
  then obtain ws p zs where w: "vs @ us @ [?f] = ws @ p # zs" "n \<le> m_size s p" "\<And>w. w \<in> set ws \<Longrightarrow> \<not> n \<le> m_size s w"
    using split_list_first_prop [of "vs @ us @ [?f]" "\<lambda>w. n \<le> m_size s w"] by blast
  have "distinct bs" using assms(1) sorted_distinct by (auto simp: mring_def)
  then have "distinct (us @ ?f # vs)" using b by metis
  then have nf: "?f \<notin> set (vs @ us)" by simp
  have sub: "\<exists>zs'. vs @ us = ws @ zs'" using w(1) by (metis append.assoc append_eq_append_conv2 append_Nil2 butlast_append butlast_snoc list.distinct(1))
  then obtain zs' where z: "vs @ us = ws @ zs'" by blast
  then have "?f \<notin> set ws" using nf by (metis Un_iff set_append)
  moreover have p: "hd (zs' @ [?f]) = p" using w(1) z by (metis append.assoc list.sel(1) same_append_eq)
  have "path (m_ptr s) ((?f # ws) @ zs') ?f" using ring z by simp
  then have pw: "path (m_ptr s) (?f # ws) p" unfolding path_append p by simp
  have len: "length ws < k" using st(2) w(1) assms(4) by simp
  have sc: "malloc_loop (length ws + (k - length ws)) j n ?f (hd (ws @ [p])) s = malloc_loop (k - length ws) j n (last (?f # ws)) p s"
    by (rule malloc_scan [OF pw]) (use w(3) \<open>?f \<notin> set ws\<close> in \<open>auto simp: not_le\<close>)
  obtain k' where k': "k - length ws = Suc k'" using len by (metis Suc_diff_Suc)
  have tk: "malloc_loop (Suc k') j n (last (?f # ws)) p s = malloc_take n (last (?f # ws)) p s" using w(2) by simp
  have "m_ptr s ?f = hd (ws @ [p])" using pw by simp
  moreover have "length ws + (k - length ws) = k" using len by simp
  ultimately have run: "malloc_loop k j n ?f (m_ptr s ?f) s = malloc_take n (last (?f # ws)) p s" using sc tk k' by metis
  have "m_ptr s (last (?f # ws)) = p" using path_step [of "m_ptr s" "butlast (?f # ws)" "last (?f # ws)" p] pw
    by (simp only: append_butlast_last_id list.distinct not_False_eq_True)
  moreover have "p \<in> set bs" using st(1) w(1) by simp
  moreover have "last (?f # ws) \<in> set bs"
  proof -
    have "last (?f # ws) \<in> set (?f # ws)" by (rule last_in_set) simp
    moreover have "set (?f # ws) \<subseteq> set bs" using st(1) arg_cong [OF z, of set] by auto
    ultimately show ?thesis by blast
  qed
  ultimately show ?thesis using malloc_take_ring [OF assms(1) _ _ _ assms(3) w(2)] run by simp
qed

lemma malloc_none:
  assumes "mring s bs" "\<not> (\<exists>b\<in>set bs. n \<le> m_size s b)"
  shows "malloc_loop (length bs + k) j n (m_freep s) (m_ptr s (m_freep s)) s =
    kbind (morecore j n) (\<lambda>p. if p = 0 then kret 0 else kbind (kgets (\<lambda>s. m_ptr s p)) (\<lambda>x. malloc_loop k j n p x)) s"
proof -
  let ?f = "m_freep s"
  obtain us vs where b: "bs = us @ ?f # vs" using assms(1) by (metis mring_def split_list)
  have ring: "path (m_ptr s) (?f # vs @ us) ?f" by (rule ring_from [OF assms(1) b])
  have st: "set bs = set (vs @ us @ [?f])" "length bs = Suc (length (vs @ us))" using arg_cong [OF b, of set] arg_cong [OF b, of length] by auto
  have "distinct bs" using assms(1) sorted_distinct by (auto simp: mring_def)
  then have "distinct (us @ ?f # vs)" using b by metis
  then have nf: "?f \<notin> set (vs @ us)" by simp
  have "malloc_loop (length (vs @ us) + Suc k) j n ?f (hd ((vs @ us) @ [?f])) s = malloc_loop (Suc k) j n (last (?f # vs @ us)) ?f s"
    by (rule malloc_scan [OF ring]) (use assms(2) st(1) nf in \<open>auto simp: not_le\<close>)
  moreover have "m_ptr s ?f = hd ((vs @ us) @ [?f])" using ring by simp
  moreover have "\<not> n \<le> m_size s ?f" using assms(2) st(1) by auto
  ultimately show ?thesis using st(2) by simp
qed

subsection \<open>More memory\<close>

definition more_units :: "nat \<Rightarrow> nat" where
  "more_units n = (if n < 4096 then 4096 else n)"

lemma morecore_ring:
  fixes s :: "'x mheap_scheme"
  assumes "mring s bs" "length bs \<le> j" "u_env s (u_hist s) (U_sbrk (cint (of_nat (more_units n * 8)))) = (int hp, d)"
    "hd bs < hp" "{hp..<hp + 8 * more_units n} \<inter> mfree s bs = {}"
  shows "\<exists>t cs. morecore j n s = Ok (m_freep t) t \<and> mring t cs \<and> hd cs = hd bs \<and> length cs \<le> Suc (length bs)
    \<and> mfree t cs = mfree s bs \<union> {hp..<hp + 8 * more_units n}"
proof -
  let ?nu = "more_units n"
  let ?s1 = "s\<lparr>u_hist := u_hist s @ [(U_sbrk (cint (of_nat (?nu * 8))), int hp, d)]\<rparr>"
  let ?s2 = "?s1\<lparr>m_size := (m_size s)(hp := ?nu)\<rparr>"
  have nu: "0 < ?nu" by (simp add: more_units_def)
  have m: "bs \<noteq> []" "path (m_ptr s) bs (hd bs)" "sorted_wrt (\<lambda>a b. a + 8 * m_size s a < b) bs" "m_size s (hd bs) = 0"
    "\<And>b. b \<in> set (tl bs) \<Longrightarrow> 0 < m_size s b" "m_freep s \<in> set bs" using assms(1) by (auto simp: mring_def)
  have fresh: "hp \<notin> set bs"
  proof
    assume h: "hp \<in> set bs"
    then have "hp \<in> set (tl bs)" using m(1) assms(4) by (cases bs) auto
    then have "hp \<in> mfree s bs" using m(5) h by (fastforce simp: mfree_def)
    moreover have "hp \<in> {hp..<hp + 8 * more_units n}" using nu by simp
    ultimately show False using assms(5) by blast
  qed
  have sz: "m_size ?s2 b = m_size s b" if "b \<in> set bs" for b using that fresh by auto
  have "sorted_wrt (\<lambda>a b. a + 8 * m_size ?s2 a < b) bs" using sorted_size_cong [of bs "m_size ?s2" "m_size s"] sz m(3) by blast
  moreover have "m_size ?s2 (hd bs) = 0" using sz [of "hd bs"] m(1,4) by simp
  moreover have "\<forall>b\<in>set (tl bs). 0 < m_size ?s2 b" using m(5) nu by simp
  ultimately have r: "mring ?s2 bs" using m(1,2,6) by (simp add: mring_def)
  have f: "mfree ?s2 bs = mfree s bs" by (rule mfree_cong) (rule sz)
  obtain t cs where t: "ufree j (hp + 8) ?s2 = Ok () t" "mring t cs" "hd cs = hd bs" "length cs \<le> Suc (length bs)" "mfree t cs = mfree s bs \<union> {hp..<hp + 8 * ?nu}"
    using ufree_ring [OF r, of hp j] assms(2,4,5) nu f by auto
  have "morecore j n s = Ok (m_freep t) t" using assms(3) t(1) by (simp add: morecore_def more_units_def [symmetric] Let_def kthen_def)
  then show ?thesis using t by blast
qed

lemma morecore_fails:
  "u_env s (u_hist s) (U_sbrk (cint (of_nat (more_units n * 8)))) = (- 1, d) \<Longrightarrow>
    morecore j n s = Ok 0 (s\<lparr>u_hist := u_hist s @ [(U_sbrk (cint (of_nat (more_units n * 8))), - 1, d)]\<rparr>)"
  by (simp add: morecore_def more_units_def [symmetric] Let_def)

lemma malloc_units_pos: "0 < malloc_units n" by (simp add: malloc_units_def)

lemma malloc_started: "m_freep s \<noteq> 0 \<Longrightarrow> malloc b0 k j nbytes s = malloc_loop k j (malloc_units nbytes) (m_freep s) (m_ptr s (m_freep s)) s"
  by (simp add: malloc_def kthen_def Let_def)

text \<open>The first call makes the ring of \<open>base\<close> alone and goes on.\<close>

lemma malloc_first:
  assumes "m_freep s = 0" "0 < b0"
  defines "t \<equiv> s\<lparr>m_ptr := (m_ptr s)(b0 := b0), m_freep := b0, m_size := (m_size s)(b0 := 0)\<rparr>"
  shows "malloc b0 k j nbytes s = malloc b0 k j nbytes t" "mring t [b0]" "mfree t [b0] = {}"
  using assms by (simp_all add: malloc_def kthen_def Let_def mring_def mfree_def)

text \<open>A request near the end of the range wraps round and is given one unit.\<close>

lemma malloc_units_wrap: "malloc_units 4294967295 = 1"
  by (simp add: malloc_units_def)

lemma ring_positive: "mring s bs \<Longrightarrow> 0 < hd bs \<Longrightarrow> 0 < m_freep s"
proof -
  assume a: "mring s bs" "0 < hd bs"
  then obtain b cs where "bs = b # cs" by (cases bs) (auto simp: mring_def)
  then show ?thesis using a by (auto simp: mring_def)
qed

section \<open>Properties\<close>

text \<open>C6: \<open>free\<close> returns, and gives exactly the bytes of the block back: the free list stays a ring in address order
  with gaps between its blocks, so that neighbours are always joined, and the free bytes are those before and those
  of the block. The headers of other blocks that are in use are not touched.\<close>

theorem free_correct:
  assumes "mring s bs" "0 < m_size s bp" "hd bs < bp" "{bp..<bp + 8 * m_size s bp} \<inter> mfree s bs = {}" "length bs \<le> k"
  shows "\<exists>t cs. ufree k (bp + 8) s = Ok () t \<and> mring t cs \<and> mfree t cs = mfree s bs \<union> {bp..<bp + 8 * m_size s bp}
    \<and> (\<forall>x. x \<notin> set bs \<and> x \<noteq> bp \<longrightarrow> m_size t x = m_size s x)"
  using ufree_ring [OF assms] by blast

text \<open>A heap with one free block of four units at 64 and the block of two units at 32 in use.\<close>

definition heap_demo :: mheap where
  "heap_demo = \<lparr>u_env = (\<lambda>_ _. (- 1, [])), u_hist = [], m_ptr = (\<lambda>a. if a = 8 then 64 else 8), m_size = (\<lambda>a. if a = 64 then 4 else if a = 32 then 2 else 0), m_freep = 8\<rparr>"

lemma heap_demo_ring: "mring heap_demo [8, 64]" "mfree heap_demo [8, 64] = {64..<96}"
  by (auto simp: mring_def mfree_def heap_demo_def)

theorem free_correct_witness:
  "\<exists>t cs. ufree 2 40 heap_demo = Ok () t \<and> mring t cs \<and> mfree t cs = {64..<96} \<union> {32..<48}"
proof -
  have "0 < m_size heap_demo 32" "hd [8, 64] < (32 :: nat)" "{32..<32 + 8 * m_size heap_demo 32} \<inter> mfree heap_demo [8, 64] = {}" "length [8 :: nat, 64] \<le> 2"
    by (simp_all add: heap_demo_ring) (auto simp: heap_demo_def)
  from free_correct [OF heap_demo_ring(1) this] show ?thesis by (auto simp: heap_demo_ring(2)) (auto simp: heap_demo_def)
qed



end
