(* ===== verification/Xv6_Ulock.thy ===== *)
theory Xv6_Ulock
  imports Xv6_User
begin

text \<open>
  The thread libraries: ulock.c (spin locks, the queue of suspended threads, semaphores) and kthread.c. Any number of
  threads of one process run \<open>semaphore_wait\<close> and \<open>semaphore_signal\<close> on one semaphore; \<open>tstep i\<close> is the next atomic
  action of thread \<open>i\<close>, and a schedule is the list of the threads that act in turn.
\<close>

section \<open>Spin locks and the queue\<close>

record splock =
  sp_locked :: uint

definition init_splock :: "splock \<Rightarrow> splock" where
  "init_splock s = s\<lparr>sp_locked := 0\<rparr>"

text \<open>The value that was in memory, and the lock after the exchange.\<close>

definition xchg :: "splock \<Rightarrow> uint \<Rightarrow> uint \<times> splock" where
  "xchg s v = (sp_locked s, s\<lparr>sp_locked := v\<rparr>)"

text \<open>One round of \<open>acquire_splock\<close>; \<open>None\<close> when it spins on.\<close>

definition acquire_splock :: "splock \<Rightarrow> splock option" where
  "acquire_splock s = (case xchg s 1 of (old, s) \<Rightarrow> if old \<noteq> 0 then None else Some s)"

definition release_splock :: "splock \<Rightarrow> splock" where
  "release_splock s = s\<lparr>sp_locked := 0\<rparr>"

abbreviation (input) MAX_QUEUE_SIZE :: nat where "MAX_QUEUE_SIZE \<equiv> 1024"

record queue =
  q_arr :: "int list"
  q_front :: nat
  q_rear :: nat

definition init_queue :: "queue \<Rightarrow> queue" where
  "init_queue q = q\<lparr>q_front := 0, q_rear := 0\<rparr>"

definition isempty :: "queue \<Rightarrow> bool" where
  "isempty q \<longleftrightarrow> q_front q = q_rear q"

definition enqueue :: "queue \<Rightarrow> int \<Rightarrow> int \<times> queue" where
  "enqueue q v = (if (q_front q + 1) mod MAX_QUEUE_SIZE = q_rear q then (- 1, q)
     else (0, q\<lparr>q_arr := (q_arr q)[q_front q := v], q_front := (q_front q + 1) mod MAX_QUEUE_SIZE\<rparr>))"

definition dequeue :: "queue \<Rightarrow> int \<times> queue" where
  "dequeue q = (if q_front q = q_rear q then (- 1, q)
     else (q_arr q ! q_rear q, q\<lparr>q_rear := (q_rear q + 1) mod MAX_QUEUE_SIZE\<rparr>))"

section \<open>Semaphores\<close>

record semaphore =
  s_val :: int
  s_q :: queue
  s_sl :: splock

definition semaphore_init :: "semaphore \<Rightarrow> int \<Rightarrow> semaphore" where
  "semaphore_init s initval = s\<lparr>s_val := initval, s_q := init_queue (s_q s), s_sl := init_splock (s_sl s)\<rparr>"

text \<open>Where a thread is: outside the library with calls left to make; in \<open>semaphore_wait\<close>; in the \<open>block\<close> it calls
  (\<open>B_asleep\<close>: suspended in \<open>tsuspend\<close>); in \<open>semaphore_signal\<close>.\<close>

datatype sempc = Ready | W_lock | W_dec | W_test | W_unlock
  | B_enq | B_unlock | B_suspend | B_asleep | B_lock
  | P_lock | P_inc | P_deq | P_unlock

datatype semop = SWait | SSignal

text \<open>\<open>leader i\<close>: thread \<open>i\<close> is the main thread of the process, for which \<open>tsuspend\<close> returns at once.
  \<open>claimed\<close>, \<open>passed\<close> and \<open>posted\<close> count the decrements, the waits that got past the loop and the increments.\<close>

record semsys =
  sem :: semaphore
  pc :: "nat \<Rightarrow> sempc"
  todo :: "nat \<Rightarrow> semop list"
  leader :: "nat \<Rightarrow> bool"
  claimed :: nat
  passed :: nat
  posted :: nat

definition goto :: "nat \<Rightarrow> sempc \<Rightarrow> semsys \<Rightarrow> semsys" where
  "goto i p s = s\<lparr>pc := (pc s)(i := p)\<rparr>"

definition take_lock :: "nat \<Rightarrow> sempc \<Rightarrow> semsys \<Rightarrow> semsys" where
  "take_lock i p s = (case acquire_splock (s_sl (sem s)) of None \<Rightarrow> s
     | Some l \<Rightarrow> goto i p (s\<lparr>sem := (sem s)\<lparr>s_sl := l\<rparr>\<rparr>))"

definition drop_lock :: "nat \<Rightarrow> sempc \<Rightarrow> semsys \<Rightarrow> semsys" where
  "drop_lock i p s = goto i p (s\<lparr>sem := (sem s)\<lparr>s_sl := release_splock (s_sl (sem s))\<rparr>\<rparr>)"

text \<open>\<open>tresume\<close> makes a suspended thread run on; it has no effect on one that is not suspended.\<close>

definition resume :: "int \<Rightarrow> semsys \<Rightarrow> semsys" where
  "resume v s = (if v \<ge> 0 \<and> pc s (nat v) = B_asleep then goto (nat v) B_lock s else s)"

definition tstep :: "nat \<Rightarrow> semsys \<Rightarrow> semsys" where
  "tstep i s = (case pc s i of
     Ready \<Rightarrow> (case todo s i of [] \<Rightarrow> s
       | SWait # ops \<Rightarrow> goto i W_lock (s\<lparr>todo := (todo s)(i := ops)\<rparr>)
       | SSignal # ops \<Rightarrow> goto i P_lock (s\<lparr>todo := (todo s)(i := ops)\<rparr>))
   | W_lock \<Rightarrow> take_lock i W_dec s
   | W_dec \<Rightarrow> goto i W_test (s\<lparr>sem := (sem s)\<lparr>s_val := s_val (sem s) - 1\<rparr>, claimed := claimed s + 1\<rparr>)
   | W_test \<Rightarrow> if s_val (sem s) < 0 then goto i B_enq s else goto i W_unlock (s\<lparr>passed := passed s + 1\<rparr>)
   | W_unlock \<Rightarrow> drop_lock i Ready s
   | B_enq \<Rightarrow> goto i B_unlock (s\<lparr>sem := (sem s)\<lparr>s_q := snd (enqueue (s_q (sem s)) (int i))\<rparr>\<rparr>)
   | B_unlock \<Rightarrow> drop_lock i B_suspend s
   | B_suspend \<Rightarrow> if leader s i then goto i B_lock s else goto i B_asleep s
   | B_asleep \<Rightarrow> s
   | B_lock \<Rightarrow> take_lock i W_test s
   | P_lock \<Rightarrow> take_lock i P_inc s
   | P_inc \<Rightarrow> goto i P_deq (s\<lparr>sem := (sem s)\<lparr>s_val := s_val (sem s) + 1\<rparr>, posted := posted s + 1\<rparr>)
   | P_deq \<Rightarrow> if \<not> isempty (s_q (sem s)) then (case dequeue (s_q (sem s)) of (v, q) \<Rightarrow>
         goto i P_unlock (resume v (s\<lparr>sem := (sem s)\<lparr>s_q := q\<rparr>\<rparr>)))
       else goto i P_unlock s
   | P_unlock \<Rightarrow> drop_lock i Ready s)"

definition sem_runs :: "nat list \<Rightarrow> semsys \<Rightarrow> semsys" where
  "sem_runs sc s = fold tstep sc s"

text \<open>The threads before they have run, on a semaphore just initialised to \<open>n\<close>.\<close>

definition sem_boot :: "int \<Rightarrow> (nat \<Rightarrow> bool) \<Rightarrow> (nat \<Rightarrow> semop list) \<Rightarrow> semsys" where
  "sem_boot n ld prog = \<lparr>sem = semaphore_init \<lparr>s_val = 0, s_q = \<lparr>q_arr = replicate MAX_QUEUE_SIZE 0, q_front = 0, q_rear = 0\<rparr>, s_sl = \<lparr>sp_locked = 0\<rparr>\<rparr> n,
     pc = (\<lambda>_. Ready), todo = prog, leader = ld, claimed = 0, passed = 0, posted = 0\<rparr>"

section \<open>kthread.c\<close>

text \<open>The library is compiled with \<open>LIB_IMPLEMENTATION\<close> set to \<open>KERNEL_STACK_ALLOC\<close>.\<close>

datatype tstate = NEW | TRUNNING | TSUSPENDED | TDEAD

record kthread =
  k_tstack :: addr
  k_tid :: int
  k_state :: tstate

abbreviation (input) TFLAGS :: uint where "TFLAGS \<equiv> 15"

definition create_thread_stack :: "kthread \<Rightarrow> int \<times> kthread" where
  "create_thread_stack k = (0, k\<lparr>k_tstack := 0\<rparr>)"

definition destory_thread_stack :: "kthread \<Rightarrow> kthread" where
  "destory_thread_stack k = k"

definition kthread_create :: "kthread \<Rightarrow> addr \<Rightarrow> addr \<Rightarrow> ('x ustate_scheme, int \<times> kthread) K" where
  "kthread_create k func args = (case create_thread_stack (k\<lparr>k_state := NEW\<rparr>) of (r, k) \<Rightarrow>
     if r = - 1 then kret (- 1, k)
     else kbind (ucall (U_clone func (k_tstack k) TFLAGS args)) (\<lambda>tid.
       let k = k\<lparr>k_tid := tid\<rparr> in
       if tid = - 1 then kret (- 1, (destory_thread_stack k)\<lparr>k_state := TDEAD\<rparr>)
       else kret (0, k\<lparr>k_state := TRUNNING\<rparr>)))"

definition kthread_join :: "kthread \<Rightarrow> ('x ustate_scheme, int \<times> kthread) K" where
  "kthread_join k = (if k_state k = TDEAD then kret (- 1, k)
     else kbind (ucall (U_join (k_tid k))) (\<lambda>jtid. kret (jtid, (destory_thread_stack k)\<lparr>k_state := TDEAD\<rparr>)))"

definition kthread_cancel :: "kthread \<Rightarrow> ('x ustate_scheme, kthread) K" where
  "kthread_cancel k = (if k_state k = TDEAD then kret k
     else kthen [udo (U_kill (k_tid k))] (kret ((destory_thread_stack k)\<lparr>k_state := TDEAD\<rparr>)))"

definition kthread_exit :: "('x ustate_scheme, unit) K" where
  "kthread_exit = uexit"

text \<open>The actions, one by one.\<close>

lemma tstep_at:
  "pc s i = Ready \<Longrightarrow> todo s i = SWait # ops \<Longrightarrow> tstep i s = goto i W_lock (s\<lparr>todo := (todo s)(i := ops)\<rparr>)"
  "pc s i = Ready \<Longrightarrow> todo s i = SSignal # ops \<Longrightarrow> tstep i s = goto i P_lock (s\<lparr>todo := (todo s)(i := ops)\<rparr>)"
  "pc s i = W_lock \<Longrightarrow> sp_locked (s_sl (sem s)) = 0 \<Longrightarrow> tstep i s = goto i W_dec (s\<lparr>sem := (sem s)\<lparr>s_sl := (s_sl (sem s))\<lparr>sp_locked := 1\<rparr>\<rparr>\<rparr>)"
  "pc s i = W_dec \<Longrightarrow> tstep i s = goto i W_test (s\<lparr>sem := (sem s)\<lparr>s_val := s_val (sem s) - 1\<rparr>, claimed := claimed s + 1\<rparr>)"
  "pc s i = W_test \<Longrightarrow> s_val (sem s) < 0 \<Longrightarrow> tstep i s = goto i B_enq s"
  "pc s i = W_test \<Longrightarrow> \<not> s_val (sem s) < 0 \<Longrightarrow> tstep i s = goto i W_unlock (s\<lparr>passed := passed s + 1\<rparr>)"
  "pc s i = W_unlock \<Longrightarrow> tstep i s = drop_lock i Ready s"
  "pc s i = B_enq \<Longrightarrow> tstep i s = goto i B_unlock (s\<lparr>sem := (sem s)\<lparr>s_q := snd (enqueue (s_q (sem s)) (int i))\<rparr>\<rparr>)"
  "pc s i = B_unlock \<Longrightarrow> tstep i s = drop_lock i B_suspend s"
  "pc s i = B_suspend \<Longrightarrow> \<not> leader s i \<Longrightarrow> tstep i s = goto i B_asleep s"
  "pc s i = P_lock \<Longrightarrow> sp_locked (s_sl (sem s)) = 0 \<Longrightarrow> tstep i s = goto i P_inc (s\<lparr>sem := (sem s)\<lparr>s_sl := (s_sl (sem s))\<lparr>sp_locked := 1\<rparr>\<rparr>\<rparr>)"
  "pc s i = P_inc \<Longrightarrow> tstep i s = goto i P_deq (s\<lparr>sem := (sem s)\<lparr>s_val := s_val (sem s) + 1\<rparr>, posted := posted s + 1\<rparr>)"
  "pc s i = P_deq \<Longrightarrow> \<not> isempty (s_q (sem s)) \<Longrightarrow> tstep i s = goto i P_unlock (resume (fst (dequeue (s_q (sem s)))) (s\<lparr>sem := (sem s)\<lparr>s_q := snd (dequeue (s_q (sem s)))\<rparr>\<rparr>))"
  "pc s i = P_unlock \<Longrightarrow> tstep i s = drop_lock i Ready s"
  by (simp_all add: tstep_def take_lock_def acquire_splock_def xchg_def split_beta)

section \<open>The lock\<close>

definition inside :: "semsys \<Rightarrow> nat set" where
  "inside s = {i. pc s i \<in> {W_dec, W_test, W_unlock, B_enq, B_unlock, P_inc, P_deq, P_unlock}}"

lemma tstep_lock:
  "(inside (tstep i s) = inside s \<and> sp_locked (s_sl (sem (tstep i s))) = sp_locked (s_sl (sem s)))
   \<or> (sp_locked (s_sl (sem s)) = 0 \<and> sp_locked (s_sl (sem (tstep i s))) \<noteq> 0 \<and> inside (tstep i s) = insert i (inside s))
   \<or> (i \<in> inside s \<and> inside (tstep i s) = inside s - {i} \<and> sp_locked (s_sl (sem (tstep i s))) = 0)"
proof (cases "pc s i")
  case P_deq
  then have "inside (tstep i s) = inside s"
    by (auto simp: tstep_def inside_def goto_def resume_def isempty_def dequeue_def split: if_splits)
  then show ?thesis using P_deq by (simp add: tstep_def goto_def resume_def isempty_def dequeue_def split: if_splits)
qed (auto simp: tstep_def inside_def goto_def take_lock_def drop_lock_def acquire_splock_def release_splock_def xchg_def
    split: list.splits semop.splits if_splits)

interpretation user_lock: tas_lock "\<lambda>s. \<exists>n ld prog. s = sem_boot n ld prog" "\<lambda>s t. \<exists>i. t = tstep i s" "\<lambda>s. sp_locked (s_sl (sem s)) \<noteq> 0" inside
proof unfold_locales
  show "\<not> sp_locked (s_sl (sem s)) \<noteq> 0 \<and> inside s = {}" if "\<exists>n ld prog. s = sem_boot n ld prog" for s
    using that by (auto simp: sem_boot_def semaphore_init_def init_splock_def inside_def)
next
  fix s t :: semsys assume "\<exists>i. t = tstep i s"
  then obtain i where "t = tstep i s" by blast
  then show "(inside t = inside s \<and> (sp_locked (s_sl (sem t)) \<noteq> 0) = (sp_locked (s_sl (sem s)) \<noteq> 0))
      \<or> (\<not> sp_locked (s_sl (sem s)) \<noteq> 0 \<and> sp_locked (s_sl (sem t)) \<noteq> 0 \<and> (\<exists>i. inside t = insert i (inside s)))
      \<or> (\<exists>i\<in>inside s. inside t = inside s - {i} \<and> \<not> sp_locked (s_sl (sem t)) \<noteq> 0)"
    using tstep_lock [of i s] by auto
qed

lemma sem_runs_reach: "(\<lambda>s t. \<exists>i. t = tstep i s)\<^sup>*\<^sup>* s (sem_runs sc s)"
proof (induction sc arbitrary: s)
  case (Cons i sc)
  have "(\<lambda>s t. \<exists>i. t = tstep i s) s (tstep i s)" by blast
  then show ?case using Cons [of "tstep i s"] by (simp add: sem_runs_def converse_rtranclp_into_rtranclp)
qed (simp add: sem_runs_def)

section \<open>The queue is first-in first-out\<close>

definition q_ok :: "queue \<Rightarrow> bool" where
  "q_ok q \<longleftrightarrow> length (q_arr q) = MAX_QUEUE_SIZE \<and> q_front q < MAX_QUEUE_SIZE \<and> q_rear q < MAX_QUEUE_SIZE"

definition q_len :: "queue \<Rightarrow> nat" where
  "q_len q = (q_front q + MAX_QUEUE_SIZE - q_rear q) mod MAX_QUEUE_SIZE"

definition q_list :: "queue \<Rightarrow> int list" where
  "q_list q = map (\<lambda>k. q_arr q ! ((q_rear q + k) mod MAX_QUEUE_SIZE)) [0..<q_len q]"

lemma mod_1024: "n < 1024 \<Longrightarrow> (Suc n) mod 1024 = (if n = 1023 then 0 else Suc n)" for n :: nat
  by auto

lemma q_len_alt: "q_ok q \<Longrightarrow> q_len q = (if q_rear q \<le> q_front q then q_front q - q_rear q else q_front q + 1024 - q_rear q)"
proof (cases "q_rear q \<le> q_front q")
  case True
  assume "q_ok q"
  then have e: "q_front q + 1024 - q_rear q = (q_front q - q_rear q) + 1024" "q_front q - q_rear q < 1024" using True by (auto simp: q_ok_def)
  show ?thesis unfolding q_len_def e(1) by (simp only: mod_add_self2 mod_less e(2) True if_True)
next
  case False
  assume "q_ok q"
  then show ?thesis using False by (auto simp: q_len_def q_ok_def)
qed

lemma q_slot: "q_ok q \<Longrightarrow> k < 1024 \<Longrightarrow> (q_rear q + k) mod 1024 = (if q_rear q + k < 1024 then q_rear q + k else q_rear q + k - 1024)"
  by (auto simp: q_ok_def mod_if)

lemma isempty_list: "q_ok q \<Longrightarrow> isempty q \<longleftrightarrow> q_list q = []"
  by (auto simp: isempty_def q_list_def q_len_alt q_ok_def split: if_splits)

lemma enqueue_list:
  assumes "q_ok q"
  shows "q_ok (snd (enqueue q v))"
    "q_list (snd (enqueue q v)) = (if length (q_list q) = 1023 then q_list q else q_list q @ [v])"
proof -
  have o: "length (q_arr q) = 1024" "q_front q < 1024" "q_rear q < 1024" using assms by (auto simp: q_ok_def)
  show ok: "q_ok (snd (enqueue q v))" using o by (auto simp: enqueue_def q_ok_def)
  have full: "(q_front q + 1) mod 1024 = q_rear q \<longleftrightarrow> q_len q = 1023"
    using o q_len_alt [OF assms] by (auto simp: mod_1024 split: if_splits)
  show "q_list (snd (enqueue q v)) = (if length (q_list q) = 1023 then q_list q else q_list q @ [v])"
  proof (cases "q_len q = 1023")
    case True
    then show ?thesis using full by (simp add: enqueue_def q_list_def)
  next
    case False
    let ?q = "snd (enqueue q v)"
    have q: "?q = q\<lparr>q_arr := (q_arr q)[q_front q := v], q_front := (q_front q + 1) mod 1024\<rparr>"
      using False full by (simp add: enqueue_def)
    have len: "q_len ?q = Suc (q_len q)" "q_len q < 1023"
      using q_len_alt [OF ok] q_len_alt [OF assms] False o unfolding q by (auto simp: mod_1024 split: if_splits)
    have last: "(q_rear q + q_len q) mod 1024 = q_front q"
      using q_slot [OF assms, of "q_len q"] q_len_alt [OF assms] len(2) o by (auto split: if_splits)
    have before: "(q_rear q + k) mod 1024 \<noteq> q_front q" if "k < q_len q" for k
      using q_slot [OF assms, of k] q_len_alt [OF assms] len(2) o that by (auto split: if_splits)
    have "map (\<lambda>k. q_arr ?q ! ((q_rear ?q + k) mod 1024)) [0..<q_len q] = q_list q"
      unfolding q_list_def q by (rule map_cong) (use before [symmetric] in simp_all)
    moreover have "q_arr ?q ! ((q_rear ?q + q_len q) mod 1024) = v" using last o unfolding q by simp
    ultimately have "q_list ?q = q_list q @ [v]" unfolding q_list_def [of ?q] len(1) by simp
    moreover have "length (q_list q) \<noteq> 1023" using False by (simp add: q_list_def)
    ultimately show ?thesis by simp
  qed
qed

lemma dequeue_list:
  assumes "q_ok q" "\<not> isempty q"
  shows "q_ok (snd (dequeue q))" "q_list q = fst (dequeue q) # q_list (snd (dequeue q))"
proof -
  have o: "length (q_arr q) = 1024" "q_front q < 1024" "q_rear q < 1024" "q_front q \<noteq> q_rear q"
    using assms by (auto simp: q_ok_def isempty_def)
  let ?q = "snd (dequeue q)"
  have q: "?q = q\<lparr>q_rear := (q_rear q + 1) mod 1024\<rparr>" "fst (dequeue q) = q_arr q ! q_rear q" using o by (simp_all add: dequeue_def)
  show ok: "q_ok ?q" using o unfolding q by (simp add: q_ok_def)
  have len: "q_len q = Suc (q_len ?q)"
    using q_len_alt [OF ok] q_len_alt [OF assms(1)] o unfolding q by (auto simp: mod_1024 split: if_splits)
  have "map (\<lambda>k. q_arr q ! ((q_rear q + Suc k) mod 1024)) [0..<q_len ?q] = q_list ?q"
  proof -
    have "(q_rear q + Suc k) mod 1024 = ((q_rear q + 1) mod 1024 + k) mod 1024" for k unfolding mod_add_left_eq by simp
    then show ?thesis unfolding q_list_def q by simp
  qed
  then show "q_list q = fst (dequeue q) # q_list ?q"
    unfolding q_list_def [of q] len upt_conv_Cons [OF zero_less_Suc] map_Suc_upt [symmetric] using o q(2) by (simp add: comp_def)
qed

section \<open>Safety\<close>

definition waiting :: "semsys \<Rightarrow> nat set" where
  "waiting s = {i. pc s i \<in> {W_test, B_enq, B_unlock, B_suspend, B_asleep, B_lock}}"

definition sem_inv :: "int \<Rightarrow> semsys \<Rightarrow> bool" where
  "sem_inv n s \<longleftrightarrow> finite (waiting s) \<and> claimed s = passed s + card (waiting s)
     \<and> s_val (sem s) = n + int (posted s) - int (claimed s) \<and> int (passed s) \<le> n + int (posted s)"

lemma tstep_waiting:
  "waiting (tstep i s) = (case pc s i of W_dec \<Rightarrow> insert i (waiting s) | W_test \<Rightarrow> if s_val (sem s) < 0 then waiting s else waiting s - {i} | _ \<Rightarrow> waiting s)"
proof (cases "pc s i")
  case P_deq
  then show ?thesis
    by (auto simp: tstep_def waiting_def goto_def resume_def isempty_def dequeue_def split: if_splits)
qed (auto simp: tstep_def waiting_def goto_def take_lock_def drop_lock_def acquire_splock_def release_splock_def xchg_def
    split: list.splits semop.splits if_splits)

lemma tstep_counts:
  "claimed (tstep i s) = claimed s + (if pc s i = W_dec then 1 else 0)"
  "posted (tstep i s) = posted s + (if pc s i = P_inc then 1 else 0)"
  "passed (tstep i s) = passed s + (if pc s i = W_test \<and> \<not> s_val (sem s) < 0 then 1 else 0)"
  "s_val (sem (tstep i s)) = s_val (sem s) + (if pc s i = P_inc then 1 else 0) - (if pc s i = W_dec then 1 else 0)"
  by (simp_all add: tstep_def goto_def take_lock_def drop_lock_def acquire_splock_def release_splock_def xchg_def resume_def
    split: sempc.splits list.splits semop.splits prod.splits)

lemma sem_inv_step:
  assumes "sem_inv n s"
  shows "sem_inv n (tstep i s)"
proof -
  have v: "finite (waiting s)" "claimed s = passed s + card (waiting s)" "s_val (sem s) = n + int (posted s) - int (claimed s)"
    "int (passed s) \<le> n + int (posted s)" using assms by (simp_all add: sem_inv_def)
  consider "pc s i = W_dec" | "pc s i = W_test" "\<not> s_val (sem s) < 0" | "pc s i \<noteq> W_dec" "\<not> (pc s i = W_test \<and> \<not> s_val (sem s) < 0)" by blast
  then show ?thesis
  proof cases
    case 1
    then have "i \<notin> waiting s" "waiting (tstep i s) = insert i (waiting s)" by (simp_all add: waiting_def [of s] tstep_waiting)
    then show ?thesis using 1 v by (simp add: sem_inv_def tstep_counts)
  next
    case 2
    then have w: "i \<in> waiting s" "waiting (tstep i s) = waiting s - {i}" by (simp_all add: waiting_def [of s] tstep_waiting)
    then have "card (waiting s) = Suc (card (waiting s - {i}))" using v(1) by (metis card.remove)
    then show ?thesis using 2 v w by (simp add: sem_inv_def tstep_counts)
  next
    case 3
    then have "waiting (tstep i s) = waiting s" by (auto simp: tstep_waiting split: sempc.splits)
    then show ?thesis using 3 v by (simp add: sem_inv_def tstep_counts)
  qed
qed

lemma sem_inv_runs: "0 \<le> n \<Longrightarrow> sem_inv n (sem_runs sc (sem_boot n ld prog))"
proof (induction sc rule: rev_induct)
  case Nil
  then show ?case by (simp add: sem_runs_def sem_boot_def semaphore_init_def sem_inv_def waiting_def)
next
  case (snoc i sc)
  then show ?case using sem_inv_step by (simp add: sem_runs_def)
qed



section \<open>A wakeup can be lost\<close>

text \<open>Thread \<open>i\<close> is suspended and is not in the queue: no signal will resume it.\<close>

definition lost :: "nat \<Rightarrow> semsys \<Rightarrow> bool" where
  "lost i s \<longleftrightarrow> pc s i = B_asleep \<and> q_ok (s_q (sem s)) \<and> int i \<notin> set (q_list (s_q (sem s)))"

lemma lost_step:
  assumes "lost i s"
  shows "lost i (tstep j s)"
proof -
  have l: "pc s i = B_asleep" "q_ok (s_q (sem s))" "int i \<notin> set (q_list (s_q (sem s)))" using assms by (simp_all add: lost_def)
  consider "pc s j = B_enq" | "pc s j = P_deq" "\<not> isempty (s_q (sem s))" | "pc s j \<noteq> B_enq" "\<not> (pc s j = P_deq \<and> \<not> isempty (s_q (sem s)))" by blast
  then show ?thesis
  proof cases
    case 1
    then have "j \<noteq> i" using l(1) by auto
    then show ?thesis using 1 l enqueue_list [OF l(2), of "int j"] by (auto simp: lost_def tstep_at goto_def)
  next
    case 2
    have q: "q_ok (snd (dequeue (s_q (sem s))))" "fst (dequeue (s_q (sem s))) \<noteq> int i" "int i \<notin> set (q_list (snd (dequeue (s_q (sem s)))))"
      using dequeue_list [OF l(2) 2(2)] l(3) by auto
    have "j \<noteq> i" using l(1) 2 by auto
    then show ?thesis using 2 l(1) q by (auto simp: lost_def tstep_at goto_def resume_def)
  next
    case 3
    have "pc (tstep j s) i = B_asleep" "s_q (sem (tstep j s)) = s_q (sem s)"
      using l(1) 3 by (auto simp: tstep_def goto_def take_lock_def drop_lock_def resume_def split: sempc.splits list.splits semop.splits option.splits)
    then show ?thesis using l by (simp add: lost_def)
  qed
qed

lemma lost_runs: "lost i s \<Longrightarrow> lost i (sem_runs sc s)"
  using lost_step by (induction sc arbitrary: s) (simp_all add: sem_runs_def)

text \<open>C38: a semaphore can lose a wakeup. Thread 1 waits on a semaphore that is 0 and thread 2 signals it; when the
  signal falls between the moment the waiter gives up the spin lock in \<open>block\<close> and its \<open>tsuspend\<close>, the waiter
  sleeps for ever: whatever the threads do afterwards, it stays suspended, although the semaphore was signalled.\<close>

theorem semaphore_lost_wakeup:
  "\<exists>sc. posted (sem_runs sc (sem_boot 0 (\<lambda>i. i = 0) (\<lambda>i. if i = 1 then [SWait] else [SSignal, SSignal]))) = 1
     \<and> (\<forall>sc'. pc (sem_runs (sc @ sc') (sem_boot 0 (\<lambda>i. i = 0) (\<lambda>i. if i = 1 then [SWait] else [SSignal, SSignal]))) 1 = B_asleep)"
proof -
  let ?s = "sem_boot 0 (\<lambda>i. i = 0) (\<lambda>i. if i = 1 then [SWait] else [SSignal, SSignal])"
  let ?sc = "[1, 1, 1, 1, 1, 1, 2, 2, 2, 2, 2, 1]"
  let ?t = "sem_runs ?sc ?s"
  have e: "pc ?t 1 = B_asleep \<and> posted ?t = 1 \<and> q_front (s_q (sem ?t)) = 1 \<and> q_rear (s_q (sem ?t)) = 1 \<and> length (q_arr (s_q (sem ?t))) = 1024"
    by (simp add: sem_runs_def sem_boot_def semaphore_init_def init_splock_def init_queue_def release_splock_def tstep_at goto_def drop_lock_def
      resume_def enqueue_def dequeue_def isempty_def)
  then have "lost 1 ?t" by (simp add: lost_def q_ok_def q_list_def q_len_def)
  then have "pc (sem_runs (?sc @ sc') ?s) 1 = B_asleep" for sc'
    using lost_runs [of 1 ?t sc'] by (simp add: sem_runs_def lost_def)
  then show ?thesis using e by blast
qed

end
