(* ===== verification/Spec2Isabelle.thy ===== *)
theory Spec2Isabelle
  imports Xv6_Fdt Xv6_Uvm Xv6_Grep Xv6_Tools Xv6_Sh Xv6_Umalloc Xv6_Ulock
begin

text \<open>
  A verification of xv6 with kernel threads: the teaching operating system xv6 for x86, extended with threads
  (\<open>clone\<close>, \<open>join\<close>, \<open>tkill\<close>, \<open>tgkill\<close>, \<open>tsuspend\<close>, \<open>tresume\<close>), a thread library and semaphores. The sources are
  under src/. The kernel is modelled from the spin locks up to the trap handler, and above the system calls the user
  library, the shell and the other user programs.

  \<^bold>\<open>How code is written here.\<close> Kernel code is a function from states to outcomes (\<open>Xv6_Prelude\<close>): \<open>Ok x s\<close> returns
  \<open>x\<close>; \<open>Panic msg\<close> is a call of \<open>panic\<close> or a use of a null pointer; \<open>Blocked s\<close> is a switch to the scheduler, in state
  \<open>s\<close>; \<open>Spins\<close> is a loop that does not end, as \<open>acquire\<close> of a lock that another processor holds. \<open>kbind\<close>, \<open>kdo\<close>,
  \<open>kthen\<close>, \<open>kfor\<close> compose it. The state is one record, extended theory by theory in the order of the layers:
  \<open>mach\<close> (processors, locks, memory), \<open>kmem_state\<close>, \<open>vm_state\<close>, \<open>proc_state\<close>, \<open>sl_state\<close>, \<open>buf_state\<close>, \<open>log_state\<close>,
  \<open>fs_state\<close>, \<open>console_state\<close>, \<open>file_state\<close>, \<open>thread_state\<close>, \<open>trap_state\<close>. It is the state one processor sees; a
  \<open>uint\<close> or a kernel address is a 32-bit word and wraps as in C, an \<open>int\<close> that cannot overflow is an \<open>int\<close>. A pointer
  into a kernel table is an index, the null pointer \<open>None\<close>. A function of the source that sleeps in the middle is split
  there: \<open>f\<close> ends \<open>Blocked\<close>, and \<open>f_resume\<close> is the rest, run when the process is scheduled again in whatever state
  the others have left.

  \<^bold>\<open>Locks and memory.\<close> \<open>Xv6_Param\<close> holds the layout of addresses (param.h, memlayout.h, mmu.h). \<open>Xv6_Spinlock\<close> is
  spinlock.c, with \<open>acquire\<close> and \<open>release\<close> on the state of one processor, and as the relation \<open>smp_step\<close> for any number
  of processors, one atomic instruction a step: at most one of them is inside a section, and its \<open>release\<close> does not
  panic. The laws of a test-and-set lock are the locale \<open>tas_lock\<close>, which the kernel's lock and the user level lock of
  ulock.c interpret. \<open>Xv6_String\<close> is string.c. \<open>Xv6_Kalloc\<close> is kalloc.c, with the free list threaded through
  the free pages in byte memory: \<open>kalloc\<close>, \<open>kfree\<close> and \<open>freerange\<close> against the list of free pages. \<open>Xv6_Vm\<close> is vm.c on
  two-level page tables in that memory; \<open>Xv6_Uvm\<close> proves \<open>mappages\<close>, \<open>cloneuvm\<close> and \<open>freecloneuvm\<close> against the
  mapping the tables represent, with the stack pages of threads given out once and taken back.

  \<^bold>\<open>Processes and threads.\<close> \<open>Xv6_Proc\<close> is the part of proc.c on the process table, \<open>Xv6_Thread\<close> the part that uses
  files (\<open>clone\<close>, \<open>fork\<close>, \<open>exit\<close>, \<open>userinit\<close>). \<open>Xv6_Frame\<close> states once what locks, allocator and page tables leave
  alone, as locales that the layers above interpret. \<open>Xv6_Sched\<close> lets the processors run whole operations
  in any order: a process that a processor runs is RUNNING and no other processor runs it. \<open>tresume\<close> is left out of
  that relation because it breaks it, which is proved too. \<open>Xv6_Sleeplock\<close> is sleeplock.c; a release wakes all waiters.

  \<^bold>\<open>Disk and files.\<close> \<open>Xv6_Bio\<close> is bio.c over memide.c: the doubly linked buffer list refines a recency list, and the
  cache with its disk satisfies the locale \<open>block_cache\<close> (what a block contains after a read, a write, a release, a
  recycling), on which the layers above rest. The disk keeps the writes in order, so a crash is a prefix of them.
  \<open>Xv6_Log\<close> is log.c: commit is atomic with respect to a crash at any write, and recovery installs exactly
  the committed transaction. \<open>Xv6_Txn\<close> is the idiom of changing a block inside a transaction. \<open>Xv6_Inode\<close> and \<open>Xv6_Fs\<close>
  are fs.c: the bitmap refines the set of free blocks, inodes survive the cache, paths resolve by their elements.
  \<open>Xv6_File\<close> is file.c and pipe.c; \<open>Xv6_Ring\<close> has the ring buffers of pipe and console as the locale \<open>word_ring\<close>, on
  indices that wrap at 32 bits. \<open>Xv6_Console\<close> is console.c, kbd.c and the data paths of uart.c: line editing on the ring
  refines editing of two lists, the cursor stays on the screen, printed numbers read back.

  \<^bold>\<open>System calls.\<close> \<open>Xv6_Exec\<close> is exec.c, \<open>Xv6_Syscall\<close> is syscall.c, sysproc.c, sysfile.c and trap.c. \<open>Xv6_Fdt\<close> shows
  for the calls of sysfile.c except \<open>exec\<close> that the reference counts of open files are exactly the descriptors that
  name them: everything below file.c is framed off (\<open>same_fds\<close>), the rest is proved by triples on \<open>fd_exact\<close> with the
  references an operation holds.

  \<^bold>\<open>User programs.\<close> \<open>Xv6_User\<close> is ulib.c and printf.c. A program's state is the history of its system calls, each with
  its result; the answer to the next one is an arbitrary function \<open>u_env\<close> of the history, so theorems hold for whatever
  the kernel answers, or for the answers a theorem names (\<open>feeds\<close>: a file delivered in given pieces). \<open>exit\<close> is the
  outcome \<open>Blocked\<close>. \<open>Xv6_Grep\<close> is grep.c: the matcher decides the meaning of patterns, and the program prints the
  matching lines. \<open>Xv6_Tools\<close> is cat, wc, ls, echo, kill, ln, mkdir, rm, init and zombie. \<open>Xv6_Sh\<close> is sh.c: the parser
  ends on every line, and the strings it hands to \<open>exec\<close> are the words of the line. \<open>Xv6_Umalloc\<close> is umalloc.c on
  the ring of free blocks. \<open>Xv6_Ulock\<close> is ulock.c and kthread.c; the semaphore operations are interleaved instruction by
  instruction (\<open>tstep\<close>), never let too many waiters pass, and can lose a wakeup.

  \<^bold>\<open>Bounds.\<close> Loops over lists, table indices or a falling measure need none. Other loops take a bound as a first
  argument and are \<open>Spins\<close> when it is used up, so a theorem that a function returns shows the bound is enough. Loops
  over pages (\<open>freerange_loop\<close>, \<open>mappages_loop\<close>, \<open>allocuvm_loop\<close>, \<open>deallocuvm_loop\<close>, \<open>copyuvm_loop\<close>,
  \<open>loaduvm_loop\<close>) get at least the number of pages of the range, \<open>copyout_loop\<close> the number of bytes, of which
  every round copies one or more; \<open>find_slot\<close> the number of pages below the kernel and one; \<open>bscan\<close> one
  more than the number of buffers, the length of the ring. \<open>free_find\<close> and \<open>malloc_loop\<close> get a bound linear in the length of the free
  list, and the parser of the shell four calls for each character. The outer loops of cat, wc, grep, ls, init and sh
  depend on what the kernel answers and may run for ever; their bound is a parameter, and the theorems about
  them say how many rounds a given input takes.

  \<^bold>\<open>Outside code.\<close> What is not under src/ is a parameter: the linker symbols (\<open>kend\<close>, \<open>kdata\<close>), the addresses of
  assembly routines, the disk image, the program initcode, the keyboard and serial input, the answers to system calls.

  \<^bold>\<open>Not modelled.\<close> Assembly and boot code (entry, bootasm, bootmain, swtch, trapasm, vectors, usys), which is below the
  level of the model: \<open>swtch\<close> is the outcome \<open>Blocked\<close>. Segment and gate descriptors (\<open>seginit\<close>, \<open>tvinit\<close>,
  \<open>idtinit\<close>). Device set-up and interrupt routing through ports (lapic.c, ioapic.c, picirq.c, mp.c, ide.c, \<open>uartinit\<close>),
  and main.c, which calls the initialisations in order. mkfs.c, a program of the host. The test programs (usertests,
  threadtests, overlaptests, stressfs, forktest). Weak memory: an atomic step of one processor is seen by all. Of a
  system call that sleeps inside the file system, only the operation it sleeps in is continued. The semaphore
  model takes \<open>tresume\<close> of a thread that is not suspended to have no effect on what that thread does. In umalloc.c
  pointers are numbers without wrap-around. In the shell, the nodes of the tree are values, so the constructors
  never run out of memory.
\<close>

end
